(* ===== verification/Prelude.thy ===== *)
theory Prelude
  imports Main "HOL-Library.Word"
begin

section \<open>Shared vocabulary of the development\<close>

text \<open>
  This theory holds what the component theories share: the names of the machine
  integer types, the result type in which a panic of the Rust code and an access that
  its unsafe code must never make are explicit values, an explicit model of raw memory
  with uninitialised cells, and the interface \<open>refines\<close> of a stateful component that
  implements an abstract specification operation by operation.

  \<^item> \<open>Inl Panic\<close>: the code panics (an \<open>unwrap\<close>, an \<open>assert!\<close>, a checked index).
  \<^item> \<open>Inl UB\<close>: the unsafe code would read an uninitialised cell or leave its allocation.
  \<^item> \<open>Inl (Err e)\<close>: the code returns an error value.
\<close>

unbundle bit_operations_syntax

type_synonym u8 = "8 word"
type_synonym u32 = "32 word"
type_synonym u64 = "64 word"
type_synonym bytes = "8 word list"

datatype fault = Panic | UB | Err string

type_synonym 'a res = "fault + 'a"

definition rbind :: "'a res \<Rightarrow> ('a \<Rightarrow> 'b res) \<Rightarrow> 'b res" where
  "rbind m f = (case m of Inl e \<Rightarrow> Inl e | Inr x \<Rightarrow> f x)"

definition assert_that :: "bool \<Rightarrow> 'a res \<Rightarrow> 'a res" where
  "assert_that b r = (if b then r else Inl Panic)"

named_theorems res_simps "evaluation of results"
named_theorems mem_simps "evaluation of raw memory accesses"

lemma rbind_Inr [simp, res_simps]: "rbind (Inr x) f = f x"
  by (simp add: rbind_def)

lemma rbind_Inl [simp, res_simps]: "rbind (Inl e) f = Inl e"
  by (simp add: rbind_def)

lemma rbind_eq_Inr_iff: "rbind m f = Inr y \<longleftrightarrow> (\<exists>x. m = Inr x \<and> f x = Inr y)"
  by (cases m) auto

lemma rbind_assoc: "rbind (rbind m f) g = rbind m (\<lambda>x. rbind (f x) g)"
  by (cases m) auto

lemma rbind_cong [fundef_cong]:
  "m = m' \<Longrightarrow> (\<And>x. m' = Inr x \<Longrightarrow> f x = f' x) \<Longrightarrow> rbind m f = rbind m' f'"
  by (cases m') auto

text \<open>\<open>rmap f xs\<close> applies \<open>f\<close> to the elements in order and stops at the first fault.\<close>

fun rmap :: "('a \<Rightarrow> 'b res) \<Rightarrow> 'a list \<Rightarrow> 'b list res" where
  "rmap f [] = Inr []"
| "rmap f (x # xs) = rbind (f x) (\<lambda>y. rbind (rmap f xs) (\<lambda>ys. Inr (y # ys)))"

lemma rmap_cong [fundef_cong]:
  "xs = ys \<Longrightarrow> (\<And>x. x \<in> set ys \<Longrightarrow> f x = g x) \<Longrightarrow> rmap f xs = rmap g ys"
  by (induction ys arbitrary: xs) auto

lemma rmap_Inr: "(\<And>x. x \<in> set xs \<Longrightarrow> f x = Inr (g x)) \<Longrightarrow> rmap f xs = Inr (map g xs)"
  by (induction xs) auto

lemma rmap_eq_Inr_iff: "rmap f xs = Inr ys \<longleftrightarrow> list_all2 (\<lambda>x y. f x = Inr y) xs ys"
  by (induction xs arbitrary: ys) (auto simp: rbind_eq_Inr_iff list_all2_Cons1)

lemma rmap_eq_Inl_iff:
  "rmap f xs = Inl e \<longleftrightarrow> (\<exists>i < length xs. f (xs ! i) = Inl e \<and> (\<forall>j < i. \<exists>y. f (xs ! j) = Inr y))"
proof (induction xs)
  case (Cons x xs)
  have split: "(\<exists>i < Suc n. P i) \<longleftrightarrow> P 0 \<or> (\<exists>i < n. P (Suc i))"
    "(\<forall>j < Suc n. Q j) \<longleftrightarrow> Q 0 \<and> (\<forall>j < n. Q (Suc j))" for P Q :: "nat \<Rightarrow> bool" and n
    by (auto simp: less_Suc_eq_0_disj)
  show ?case
    by (cases "f x"; cases "rmap f xs") (use Cons in \<open>auto simp: split\<close>)
qed simp

text \<open>The same for a function that is given by its value at every position.\<close>

lemma rmap_nth_Inl:
  assumes "\<And>i. i < length xs \<Longrightarrow> f (xs ! i) = g i"
  shows "rmap f xs = Inl e \<longleftrightarrow> (\<exists>i < length xs. g i = Inl e \<and> (\<forall>j < i. \<exists>y. g j = Inr y))"
  using assms by (auto simp: rmap_eq_Inl_iff)

lemma rmap_nth_Inr:
  assumes "\<And>i. i < length xs \<Longrightarrow> f (xs ! i) = g i"
  shows "rmap f xs = Inr ys \<longleftrightarrow> length ys = length xs \<and> (\<forall>i < length xs. g i = Inr (ys ! i))"
  using assms by (auto simp: rmap_eq_Inr_iff list_all2_conv_all_nth)

lemma assert_that_True [simp, res_simps]: "b \<Longrightarrow> assert_that b r = r"
  by (simp add: assert_that_def)

subsection \<open>Machine sizes\<close>

text \<open>
  \<open>usize\<close> values are natural numbers below \<open>usize_range\<close>; the operations named
  wrapping in the source wrap explicitly.
\<close>

definition usize_range :: nat where
  "usize_range = 2 ^ 64"

definition usize_wrapping_add :: "nat \<Rightarrow> nat \<Rightarrow> nat" where
  "usize_wrapping_add x y = (x + y) mod usize_range"

definition usize_wrapping_sub :: "nat \<Rightarrow> nat \<Rightarrow> nat" where
  "usize_wrapping_sub x y = (x + (usize_range - y mod usize_range)) mod usize_range"

lemma usize_range_pos [simp]: "0 < usize_range"
  by (simp add: usize_range_def)

lemma usize_wrapping_sub_add:
  assumes "y \<le> x + n" and "x + n < y + usize_range" and "y < usize_range"
  shows "usize_wrapping_sub (usize_wrapping_add x n) y = x + n - y"
proof -
  have "usize_wrapping_sub (usize_wrapping_add x n) y
      = (x + n + (usize_range - y)) mod usize_range"
    by (simp only: usize_wrapping_sub_def usize_wrapping_add_def mod_less [OF assms(3)]
        mod_add_left_eq)
  also have "x + n + (usize_range - y) = (x + n - y) + usize_range"
    using assms by simp
  finally have "usize_wrapping_sub (usize_wrapping_add x n) y = (x + n - y) mod usize_range"
    by (simp only: mod_add_self2)
  then show ?thesis
    using assms by simp
qed

subsection \<open>Raw memory\<close>

text \<open>
  An allocation is a list of cells; a cell is \<open>None\<close> while it does not own an
  initialised value.
\<close>

type_synonym 'a memory = "'a option list"

definition mem_read :: "'a memory \<Rightarrow> nat \<Rightarrow> 'a res" where
  "mem_read m i =
     (if i < length m then (case m ! i of None \<Rightarrow> Inl UB | Some x \<Rightarrow> Inr x) else Inl UB)"

definition mem_write :: "'a memory \<Rightarrow> nat \<Rightarrow> 'a \<Rightarrow> 'a memory res" where
  "mem_write m i v = (if i < length m then Inr (m[i := Some v]) else Inl UB)"

definition mem_slice :: "'a memory \<Rightarrow> nat \<Rightarrow> nat \<Rightarrow> 'a list res" where
  "mem_slice m i n =
     (if i + n \<le> length m \<and> None \<notin> set (take n (drop i m))
      then Inr (map the (take n (drop i m))) else Inl UB)"

definition mem_fill :: "'a memory \<Rightarrow> nat \<Rightarrow> nat \<Rightarrow> 'a \<Rightarrow> 'a memory res" where
  "mem_fill m i n v =
     (if i + n \<le> length m then Inr (take i m @ replicate n (Some v) @ drop (i + n) m)
      else Inl UB)"

lemma mem_read_Some [mem_simps]: "i < length m \<Longrightarrow> m ! i = Some x \<Longrightarrow> mem_read m i = Inr x"
  by (simp add: mem_read_def)

lemma mem_write_in [mem_simps]: "i < length m \<Longrightarrow> mem_write m i v = Inr (m[i := Some v])"
  by (simp add: mem_write_def)

lemma mem_fill_in [mem_simps]:
  "i + n \<le> length m \<Longrightarrow>
   mem_fill m i n v = Inr (take i m @ replicate n (Some v) @ drop (i + n) m)"
  by (simp add: mem_fill_def)

lemma mem_fill_nth:
  assumes "i + n \<le> length m" and "j < length m"
  shows "(take i m @ replicate n (Some v) @ drop (i + n) m) ! j
       = (if i \<le> j \<and> j < i + n then Some v else m ! j)"
  using assms by (auto simp: nth_append min_def)

lemma mem_slice_in [mem_simps]:
  assumes "i + n \<le> length m" and "\<And>k. k < n \<Longrightarrow> m ! (i + k) \<noteq> None"
  shows "mem_slice m i n = Inr (map (\<lambda>k. the (m ! (i + k))) [0..<n])"
proof -
  have "None \<notin> set (take n (drop i m))"
    using assms by (force simp: in_set_conv_nth)
  moreover have "map the (take n (drop i m)) = map (\<lambda>k. the (m ! (i + k))) [0..<n]"
    using assms(1) by (intro nth_equalityI) auto
  ultimately show ?thesis
    using assms(1) by (simp add: mem_slice_def)
qed

subsection \<open>Running a component, and refinement between components\<close>

text \<open>
  \<open>run step ops s\<close> performs the operations of \<open>ops\<close> one after the other from
  the state \<open>s\<close>, collecting what they return, and stops at the first fault.
\<close>

fun run :: "('o \<Rightarrow> 's \<Rightarrow> ('r \<times> 's) res) \<Rightarrow> 'o list \<Rightarrow> 's \<Rightarrow> ('r list \<times> 's) res" where
  "run step [] s = Inr ([], s)"
| "run step (x # xs) s =
     rbind (step x s) (\<lambda>(r, s'). rbind (run step xs s') (\<lambda>(rs, s''). Inr (r # rs, s'')))"

text \<open>
  The interface of a stateful component: its operations keep the representation
  invariant and answer as the specification does on the abstract state. A component
  theory interprets it on its own definitions; the agreement of whole runs and the
  reachability of the invariant then hold for it.
\<close>

locale refines =
  fixes step_c :: "'o \<Rightarrow> 'c \<Rightarrow> ('r \<times> 'c) res"
    and step_a :: "'o \<Rightarrow> 'a \<Rightarrow> ('r \<times> 'a) res"
    and absf :: "'c \<Rightarrow> 'a"
    and invar :: "'c \<Rightarrow> bool"
  assumes step_error: "invar c \<Longrightarrow> step_a x (absf c) = Inl e \<Longrightarrow> step_c x c = Inl e"
    and step_ok: "invar c \<Longrightarrow> step_a x (absf c) = Inr (r, a) \<Longrightarrow>
       \<exists>c'. step_c x c = Inr (r, c') \<and> invar c' \<and> absf c' = a"
begin

lemma run_error: "invar c \<Longrightarrow> run step_a xs (absf c) = Inl e \<Longrightarrow> run step_c xs c = Inl e"
proof (induction xs arbitrary: c)
  case Nil
  then show ?case by simp
next
  case (Cons x xs)
  show ?case
  proof (cases "step_a x (absf c)")
    case (Inl e')
    with Cons.prems step_error show ?thesis by simp
  next
    case (Inr ra)
    then obtain r a where ra: "step_a x (absf c) = Inr (r, a)" by (cases ra) auto
    with Cons.prems(1) step_ok obtain c' where
      c': "step_c x c = Inr (r, c')" "invar c'" "absf c' = a" by blast
    from Cons.prems(2) ra have "run step_a xs a = Inl e"
      by (cases "run step_a xs a") auto
    with c' Cons.IH show ?thesis by auto
  qed
qed

lemma run_ok:
  "invar c \<Longrightarrow> run step_a xs (absf c) = Inr (rs, a) \<Longrightarrow>
   \<exists>c'. run step_c xs c = Inr (rs, c') \<and> invar c' \<and> absf c' = a"
proof (induction xs arbitrary: c rs)
  case Nil
  then show ?case by simp
next
  case (Cons x xs)
  from Cons.prems(2) obtain r a1 rs' where
    a1: "step_a x (absf c) = Inr (r, a1)" "run step_a xs a1 = Inr (rs', a)" "rs = r # rs'"
    by (auto simp: rbind_eq_Inr_iff split: prod.splits)
  with Cons.prems(1) step_ok obtain c1 where
    "step_c x c = Inr (r, c1)" "invar c1" "absf c1 = a1" by blast
  with a1 Cons.IH [of c1 rs'] show ?case by auto
qed

end

text \<open>
  The same interface for a component whose operations are specified only under a
  precondition on the abstract state, and then never fault. \<open>admissible\<close> says that every
  operation of a sequence is performed under its precondition.
\<close>

fun run_spec :: "('o \<Rightarrow> 'a \<Rightarrow> 'r \<times> 'a) \<Rightarrow> 'o list \<Rightarrow> 'a \<Rightarrow> 'r list \<times> 'a" where
  "run_spec step [] a = ([], a)"
| "run_spec step (x # xs) a =
     (let (r, a') = step x a; (rs, a'') = run_spec step xs a' in (r # rs, a''))"

fun admissible :: "('o \<Rightarrow> 'a \<Rightarrow> bool) \<Rightarrow> ('o \<Rightarrow> 'a \<Rightarrow> 'r \<times> 'a) \<Rightarrow> 'o list \<Rightarrow> 'a \<Rightarrow> bool" where
  "admissible pre step [] a \<longleftrightarrow> True"
| "admissible pre step (x # xs) a \<longleftrightarrow> pre x a \<and> admissible pre step xs (snd (step x a))"

locale simulates =
  fixes step_c :: "'o \<Rightarrow> 'c \<Rightarrow> ('r \<times> 'c) res"
    and step_a :: "'o \<Rightarrow> 'a \<Rightarrow> 'r \<times> 'a"
    and pre :: "'o \<Rightarrow> 'a \<Rightarrow> bool"
    and absf :: "'c \<Rightarrow> 'a"
    and invar :: "'c \<Rightarrow> bool"
  assumes step_sim: "invar c \<Longrightarrow> pre x (absf c) \<Longrightarrow>
    \<exists>c'. step_c x c = Inr (fst (step_a x (absf c)), c') \<and> invar c' \<and> absf c' = snd (step_a x (absf c))"
begin

lemma run_sim:
  "invar c \<Longrightarrow> admissible pre step_a xs (absf c) \<Longrightarrow>
   \<exists>c'. run step_c xs c = Inr (fst (run_spec step_a xs (absf c)), c') \<and> invar c' \<and>
     absf c' = snd (run_spec step_a xs (absf c))"
proof (induction xs arbitrary: c)
  case (Cons x xs)
  then obtain c1 where
    "step_c x c = Inr (fst (step_a x (absf c)), c1)" "invar c1" "absf c1 = snd (step_a x (absf c))"
    using step_sim [of c x] by auto
  with Cons.IH [of c1] Cons.prems(2) show ?case
    by (auto simp: split: prod.splits)
qed simp

end

end
