(* ===== verification/RingBuffer.thy ===== *)
theory RingBuffer
  imports Prelude
begin

section \<open>The fixed-capacity ring buffer\<close>

text \<open>
  \<^verbatim>\<open>FixedRingBuffer\<close> of \<^verbatim>\<open>crates/polars-utils/src/fixedringbuffer.rs\<close>: a queue in a
  raw allocation, addressed through a start index, a length and wrapping index
  arithmetic. A cell of the allocation is \<open>Some\<close> exactly while it owns an initialised
  value: reading an element out moves it, so a second read of the same element or a
  read of a cell that was never written is the fault \<open>UB\<close>. The lemmas show that no
  operation faults, and that the buffer implements a bounded first-in first-out queue.
\<close>

subsection \<open>Model\<close>

record 'a frb =
  frb_start :: nat
  frb_length :: nat
  frb_buffer :: "'a memory"
  frb_capacity :: nat

definition frb_wrapping_add :: "nat \<Rightarrow> nat \<Rightarrow> nat \<Rightarrow> nat res" where
  "frb_wrapping_add x n capacity =
     assert_that (n \<le> capacity)
       (let sub = (if capacity - n \<le> x then capacity else 0)
        in Inr (usize_wrapping_sub (usize_wrapping_add x n) sub))"

definition frb_new :: "nat \<Rightarrow> 'a frb" where
  "frb_new capacity =
     \<lparr>frb_start = 0, frb_length = 0, frb_buffer = replicate capacity None,
      frb_capacity = capacity\<rparr>"

definition frb_remaining_capacity :: "'a frb \<Rightarrow> nat" where
  "frb_remaining_capacity b = frb_capacity b - frb_length b"

definition frb_is_empty :: "'a frb \<Rightarrow> bool" where
  "frb_is_empty b \<longleftrightarrow> frb_length b = 0"

definition frb_is_full :: "'a frb \<Rightarrow> bool" where
  "frb_is_full b \<longleftrightarrow> frb_length b = frb_capacity b"

definition frb_as_slices :: "'a frb \<Rightarrow> ('a list \<times> 'a list) res" where
  "frb_as_slices b =
     (if frb_capacity b - frb_length b > frb_start b
      then rbind (mem_slice (frb_buffer b) (frb_start b) (frb_length b)) (\<lambda>xs. Inr (xs, []))
      else rbind (mem_slice (frb_buffer b) (frb_start b) (frb_capacity b - frb_start b)) (\<lambda>xs.
           rbind (frb_wrapping_add (frb_start b) (frb_length b) (frb_capacity b)) (\<lambda>e.
           rbind (mem_slice (frb_buffer b) 0 e) (\<lambda>ys. Inr (xs, ys)))))"

definition frb_pop_front :: "'a frb \<Rightarrow> ('a option \<times> 'a frb) res" where
  "frb_pop_front b =
     (if frb_is_empty b then Inr (None, b)
      else rbind (mem_read (frb_buffer b) (frb_start b)) (\<lambda>item.
           rbind (frb_wrapping_add (frb_start b) 1 (frb_capacity b)) (\<lambda>s.
           Inr (Some item, b\<lparr>frb_start := s, frb_length := frb_length b - 1,
                             frb_buffer := (frb_buffer b)[frb_start b := None]\<rparr>))))"

definition frb_push :: "'a \<Rightarrow> 'a frb \<Rightarrow> (unit option \<times> 'a frb) res" where
  "frb_push value b =
     (if frb_is_full b then Inr (None, b)
      else rbind (frb_wrapping_add (frb_start b) (frb_length b) (frb_capacity b)) (\<lambda>offset.
           rbind (mem_write (frb_buffer b) offset value) (\<lambda>m.
           Inr (Some (), b\<lparr>frb_buffer := m, frb_length := frb_length b + 1\<rparr>))))"

definition frb_fill_repeat :: "'a \<Rightarrow> nat \<Rightarrow> 'a frb \<Rightarrow> (nat \<times> 'a frb) res" where
  "frb_fill_repeat value num b =
     (if num = 0 \<or> frb_is_full b then Inr (0, b)
      else
        let num = min num (frb_remaining_capacity b)
        in rbind (frb_wrapping_add (frb_start b) (frb_length b) (frb_capacity b)) (\<lambda>start.
           rbind (frb_wrapping_add start num (frb_capacity b)) (\<lambda>fin.
           rbind (if start < fin then mem_fill (frb_buffer b) start num value
                  else rbind (mem_fill (frb_buffer b) start (frb_capacity b - start) value) (\<lambda>m.
                       if fin \<noteq> 0 then mem_fill m 0 fin value else Inr m)) (\<lambda>m.
           Inr (num, b\<lparr>frb_buffer := m, frb_length := frb_length b + num\<rparr>)))))"

text \<open>The destructor reads out every live element; the model returns them in order.\<close>

fun frb_drop_loop :: "'a frb \<Rightarrow> nat list \<Rightarrow> 'a memory \<Rightarrow> ('a list \<times> 'a memory) res" where
  "frb_drop_loop b [] m = Inr ([], m)"
| "frb_drop_loop b (i # is) m =
     rbind (frb_wrapping_add (frb_start b) i (frb_capacity b)) (\<lambda>offset.
     rbind (mem_read m offset) (\<lambda>x.
     rbind (frb_drop_loop b is (m[offset := None])) (\<lambda>(xs, m'). Inr (x # xs, m'))))"

definition frb_drop :: "'a frb \<Rightarrow> ('a list \<times> 'a memory) res" where
  "frb_drop b = frb_drop_loop b [0..<frb_length b] (frb_buffer b)"

subsection \<open>Representation invariant and abstraction\<close>

definition frb_cell :: "'a frb \<Rightarrow> nat \<Rightarrow> nat" where
  "frb_cell b i = (frb_start b + i) mod frb_capacity b"

definition frb_inv :: "'a frb \<Rightarrow> bool" where
  "frb_inv b \<longleftrightarrow>
     length (frb_buffer b) = frb_capacity b \<and> frb_capacity b < usize_range \<and>
     frb_length b \<le> frb_capacity b \<and>
     (frb_start b < frb_capacity b \<or> frb_capacity b = 0 \<and> frb_start b = 0) \<and>
     (\<forall>i < frb_length b. frb_buffer b ! frb_cell b i \<noteq> None) \<and>
     (\<forall>i < frb_capacity b. frb_length b \<le> i \<longrightarrow> frb_buffer b ! frb_cell b i = None)"

definition frb_list :: "'a frb \<Rightarrow> 'a list" where
  "frb_list b = map (\<lambda>i. the (frb_buffer b ! frb_cell b i)) [0..<frb_length b]"

definition frb_abs :: "'a frb \<Rightarrow> nat \<times> 'a list" where
  "frb_abs b = (frb_capacity b, frb_list b)"

text \<open>The abstract specification: a queue with a capacity.\<close>

datatype 'a queue_op = Push 'a | Pop | Fill 'a nat | Slices

datatype 'a queue_out = Pushed bool | Popped "'a option" | Filled nat | Listed "'a list"

fun queue_step :: "'a queue_op \<Rightarrow> nat \<times> 'a list \<Rightarrow> ('a queue_out \<times> nat \<times> 'a list) res" where
  "queue_step (Push x) (c, q) =
     Inr (if length q < c then (Pushed True, c, q @ [x]) else (Pushed False, c, q))"
| "queue_step Pop (c, q) =
     Inr (case q of [] \<Rightarrow> (Popped None, c, []) | x # q' \<Rightarrow> (Popped (Some x), c, q'))"
| "queue_step (Fill x n) (c, q) =
     (let k = min n (c - length q) in Inr (Filled k, c, q @ replicate k x))"
| "queue_step Slices (c, q) = Inr (Listed q, c, q)"

fun frb_step :: "'a queue_op \<Rightarrow> 'a frb \<Rightarrow> ('a queue_out \<times> 'a frb) res" where
  "frb_step (Push x) b = rbind (frb_push x b) (\<lambda>(r, b'). Inr (Pushed (r \<noteq> None), b'))"
| "frb_step Pop b = rbind (frb_pop_front b) (\<lambda>(r, b'). Inr (Popped r, b'))"
| "frb_step (Fill x n) b = rbind (frb_fill_repeat x n b) (\<lambda>(r, b'). Inr (Filled r, b'))"
| "frb_step Slices b = rbind (frb_as_slices b) (\<lambda>(xs, ys). Inr (Listed (xs @ ys), b))"

subsection \<open>Index arithmetic\<close>

lemma frb_wrapping_add_mod:
  assumes "x < c" and "n \<le> c" and "c < usize_range"
  shows "frb_wrapping_add x n c = Inr ((x + n) mod c)"
proof (cases "c - n \<le> x")
  case True
  then have "usize_wrapping_sub (usize_wrapping_add x n) c = x + n - c"
    using assms by (intro usize_wrapping_sub_add) auto
  moreover have "(x + n) mod c = x + n - c"
    using True assms by (subst le_mod_geq) auto
  ultimately show ?thesis
    using True assms by (simp add: frb_wrapping_add_def)
next
  case False
  then have "usize_wrapping_sub (usize_wrapping_add x n) 0 = x + n"
    using assms by (subst usize_wrapping_sub_add) auto
  with False assms show ?thesis
    by (simp add: frb_wrapping_add_def)
qed

lemma frb_cell_less [simp]: "0 < frb_capacity b \<Longrightarrow> frb_cell b i < frb_capacity b"
  by (simp add: frb_cell_def)

lemma frb_cell_inj:
  assumes "i < frb_capacity b" and "j < frb_capacity b" and "frb_cell b i = frb_cell b j"
  shows "i = j"
  using assms by (simp add: frb_cell_def mod_add_left_eq nat_mod_eq_iff)
    (metis add_left_cancel mod_less nat_mod_eq_iff)

lemma frb_cell_0: "frb_inv b \<Longrightarrow> 0 < frb_capacity b \<Longrightarrow> frb_cell b 0 = frb_start b"
  by (auto simp: frb_cell_def frb_inv_def)

lemma frb_offset:
  "frb_inv b \<Longrightarrow> 0 < frb_capacity b \<Longrightarrow> n \<le> frb_capacity b \<Longrightarrow>
   frb_wrapping_add (frb_start b) n (frb_capacity b) = Inr (frb_cell b n)"
  by (auto simp: frb_inv_def frb_cell_def frb_wrapping_add_mod)

lemma length_frb_list [simp]: "length (frb_list b) = frb_length b"
  by (simp add: frb_list_def)

lemma frb_list_Nil_iff: "frb_list b = [] \<longleftrightarrow> frb_is_empty b"
  by (simp add: frb_list_def frb_is_empty_def)

lemma frb_inv_length: "frb_inv b \<Longrightarrow> frb_length b \<le> frb_capacity b"
  by (simp add: frb_inv_def)

lemma frb_inv_new [simp]: "c < usize_range \<Longrightarrow> frb_inv (frb_new c)"
  by (auto simp: frb_inv_def frb_new_def frb_cell_def)

lemma frb_abs_new [simp]: "frb_abs (frb_new c) = (c, [])"
  by (simp add: frb_abs_def frb_list_def frb_new_def)

subsection \<open>The operations\<close>

lemma frb_push_full: "frb_is_full b \<Longrightarrow> frb_push x b = Inr (None, b)"
  by (simp add: frb_push_def)

lemma frb_push_ok:
  assumes "frb_inv b" and "\<not> frb_is_full b"
  shows "\<exists>b'. frb_push x b = Inr (Some (), b') \<and> frb_inv b' \<and>
     frb_capacity b' = frb_capacity b \<and> frb_list b' = frb_list b @ [x]"
proof -
  let ?k = "frb_cell b (frb_length b)"
  let ?b' = "b\<lparr>frb_buffer := (frb_buffer b)[?k := Some x], frb_length := Suc (frb_length b)\<rparr>"
  have len: "frb_length b < frb_capacity b" "length (frb_buffer b) = frb_capacity b"
    using assms by (auto simp: frb_inv_def frb_is_full_def)
  then have k: "?k < length (frb_buffer b)" by simp
  have cell: "frb_cell ?b' i = frb_cell b i" for i
    by (simp add: frb_cell_def)
  have nth: "(frb_buffer b)[?k := Some x] ! frb_cell b i
      = (if i = frb_length b then Some x else frb_buffer b ! frb_cell b i)"
    if "i < frb_capacity b" for i
    using that k len frb_cell_inj [of i b "frb_length b"] by (auto simp: nth_list_update)
  have "frb_push x b = Inr (Some (), ?b')"
    using assms len k by (simp add: frb_push_def frb_offset mem_simps)
  moreover have "frb_inv ?b'"
    using assms(1) len by (auto simp: frb_inv_def cell nth)
  moreover have "frb_list ?b' = frb_list b @ [x]"
    using len by (simp add: frb_list_def cell nth)
  ultimately show ?thesis by force
qed

lemma frb_pop_front_empty: "frb_is_empty b \<Longrightarrow> frb_pop_front b = Inr (None, b)"
  by (simp add: frb_pop_front_def)

lemma frb_pop_front_ok:
  assumes "frb_inv b" and "\<not> frb_is_empty b"
  shows "\<exists>b'. frb_pop_front b = Inr (Some (hd (frb_list b)), b') \<and> frb_inv b' \<and>
     frb_capacity b' = frb_capacity b \<and> frb_list b' = tl (frb_list b)"
proof -
  let ?c = "frb_capacity b" and ?n = "frb_length b"
  let ?b' = "b\<lparr>frb_start := frb_cell b (Suc 0), frb_length := ?n - Suc 0,
     frb_buffer := (frb_buffer b)[frb_start b := None]\<rparr>"
  have len: "0 < ?n" "?n \<le> ?c" "length (frb_buffer b) = ?c"
    using assms by (auto simp: frb_inv_def frb_is_empty_def)
  have start: "frb_start b = frb_cell b 0" "frb_start b < ?c"
    using assms(1) len frb_cell_0 [of b] by (auto simp: frb_inv_def)
  have cell: "frb_cell ?b' i = frb_cell b (Suc i)" for i
    by (simp add: frb_cell_def mod_add_left_eq)
  have wrap: "frb_cell b ?c = frb_cell b 0"
    using len by (simp add: frb_cell_def)
  have nth: "(frb_buffer b)[frb_start b := None] ! frb_cell b i = frb_buffer b ! frb_cell b i"
    if "0 < i" "i < ?c" for i
    using that len start frb_cell_inj [of i b 0] by (auto simp: nth_list_update)
  have some: "frb_buffer b ! frb_start b = Some (hd (frb_list b))"
    using assms(1) len start by (auto simp: frb_inv_def frb_list_def hd_map)
  have "frb_wrapping_add (frb_start b) (Suc 0) ?c = Inr (frb_cell b (Suc 0))"
    using assms(1) len by (intro frb_offset) auto
  then have "frb_pop_front b = Inr (Some (hd (frb_list b)), ?b')"
    using assms(2) len start(2) some by (simp add: frb_pop_front_def mem_read_Some)
  moreover have "frb_list ?b' = tl (frb_list b)"
    using len by (intro nth_equalityI) (auto simp: frb_list_def cell nth nth_tl)
  moreover have "frb_inv ?b'"
  proof -
    have "(frb_buffer b)[frb_start b := None] ! frb_cell b (Suc i) = None"
      if "i < ?c" "?n - 1 \<le> i" for i
    proof (cases "Suc i = ?c")
      case True
      then show ?thesis using wrap start len by simp
    next
      case False
      then show ?thesis using that assms(1) len by (simp add: nth frb_inv_def)
    qed
    then show ?thesis
      using assms(1) len by (auto simp: frb_inv_def cell nth)
  qed
  ultimately show ?thesis by force
qed

text \<open>
  Filling: the cells written are the \<open>num\<close> cells that follow the last element
  modulo the capacity, whether or not they wrap around the end of the allocation.
\<close>

lemma wrapped_range_iff:
  assumes "start < c" and "num \<le> c" and "j < (c::nat)"
  shows "(\<exists>d < num. j = (start + d) mod c) \<longleftrightarrow>
    (if start + num < c then start \<le> j \<and> j < start + num else start \<le> j \<or> j < start + num - c)"
proof
  assume "\<exists>d < num. j = (start + d) mod c"
  then obtain d where "d < num" "j = (start + d) mod c" by blast
  with assms show "if start + num < c then start \<le> j \<and> j < start + num
      else start \<le> j \<or> j < start + num - c"
    by (cases "start + d < c") (auto simp: le_mod_geq)
next
  assume R: "if start + num < c then start \<le> j \<and> j < start + num
      else start \<le> j \<or> j < start + num - c"
  show "\<exists>d < num. j = (start + d) mod c"
  proof (cases "start \<le> j")
    case True
    with R assms show ?thesis
      by (intro exI [of _ "j - start"]) (auto split: if_splits)
  next
    case False
    with R assms have "j < start + num - c" by (auto split: if_splits)
    moreover from False assms have "start + (j + c - start) = j + c" by simp
    ultimately show ?thesis
      using False assms by (intro exI [of _ "j + c - start"]) auto
  qed
qed

lemma wrapped_fill:
  assumes "length m = c" and "start < c" and "0 < num" and "num \<le> c"
  shows "\<exists>m'. (if start < (start + num) mod c then mem_fill m start num v
       else rbind (mem_fill m start (c - start) v) (\<lambda>m.
            if (start + num) mod c \<noteq> 0 then mem_fill m 0 ((start + num) mod c) v else Inr m)) = Inr m'
     \<and> length m' = c
     \<and> (\<forall>j < c. m' ! j = (if \<exists>d < num. j = (start + d) mod c then Some v else m ! j))"
proof (cases "start + num < c")
  case True
  then have *: "(start + num) mod c = start + num" by simp
  show ?thesis
    using True assms
    by (simp add: * mem_simps mem_fill_nth wrapped_range_iff del: mod_less)
next
  case False
  let ?fin = "start + num - c"
  let ?m1 = "take start m @ replicate (c - start) (Some v) @ drop (start + (c - start)) m"
  let ?m2 = "take 0 ?m1 @ replicate ?fin (Some v) @ drop (0 + ?fin) ?m1"
  from False have *: "(start + num) mod c = ?fin"
    using assms by (subst le_mod_geq) auto
  have m1: "length ?m1 = c" "?m1 ! j = (if start \<le> j then Some v else m ! j)" if "j < c" for j
    using that assms by (auto simp: nth_append)
  have m2: "?m2 ! j = (if start \<le> j \<or> j < ?fin then Some v else m ! j)" if "j < c" for j
    using that assms m1 by (subst mem_fill_nth) auto
  have "mem_fill ?m1 0 ?fin v = Inr ?m2"
    using assms m1(1) [of 0] by (intro mem_fill_in) auto
  moreover have "mem_fill m start (c - start) v = Inr ?m1"
    using assms by (intro mem_fill_in) auto
  moreover have "?fin = 0 \<Longrightarrow> ?m2 = ?m1" by simp
  ultimately show ?thesis
    using False assms m2 m1
    by (intro exI [of _ ?m2]) (auto simp: * wrapped_range_iff)
qed

lemma frb_fill_repeat_none:
  "num = 0 \<or> frb_is_full b \<Longrightarrow> frb_fill_repeat v num b = Inr (0, b)"
  by (auto simp: frb_fill_repeat_def)

lemma frb_fill_repeat_ok:
  assumes "frb_inv b" and "0 < num" and "\<not> frb_is_full b"
  defines "k \<equiv> min num (frb_capacity b - frb_length b)"
  shows "\<exists>b'. frb_fill_repeat v num b = Inr (k, b') \<and> frb_inv b' \<and>
     frb_capacity b' = frb_capacity b \<and> frb_list b' = frb_list b @ replicate k v"
proof -
  let ?c = "frb_capacity b" and ?n = "frb_length b"
  let ?s = "frb_cell b ?n"
  have len: "?n < ?c" "length (frb_buffer b) = ?c" "?c < usize_range"
    using assms by (auto simp: frb_inv_def frb_is_full_def)
  then have k: "0 < k" "k \<le> ?c" "?n + k \<le> ?c" and s: "?s < ?c"
    using assms(2) by (auto simp: k_def)
  from wrapped_fill [OF len(2) s k(1,2), of v] obtain m' where
    m': "(if ?s < (?s + k) mod ?c then mem_fill (frb_buffer b) ?s k v
       else rbind (mem_fill (frb_buffer b) ?s (?c - ?s) v) (\<lambda>m.
            if (?s + k) mod ?c \<noteq> 0 then mem_fill m 0 ((?s + k) mod ?c) v else Inr m)) = Inr m'"
    and len': "length m' = ?c"
    and nth': "\<And>j. j < ?c \<Longrightarrow>
       m' ! j = (if \<exists>d < k. j = (?s + d) mod ?c then Some v else frb_buffer b ! j)"
    by blast
  let ?b' = "b\<lparr>frb_buffer := m', frb_length := ?n + k\<rparr>"
  have cell: "frb_cell ?b' i = frb_cell b i" for i
    by (simp add: frb_cell_def)
  have shift: "(?s + d) mod ?c = frb_cell b (?n + d)" for d
    by (simp add: frb_cell_def mod_simps ac_simps)
  have nth: "m' ! frb_cell b i = (if ?n \<le> i \<and> i < ?n + k then Some v else frb_buffer b ! frb_cell b i)"
    if "i < ?c" for i
  proof -
    have "(\<exists>d < k. frb_cell b i = frb_cell b (?n + d)) \<longleftrightarrow> ?n \<le> i \<and> i < ?n + k"
    proof
      assume "\<exists>d < k. frb_cell b i = frb_cell b (?n + d)"
      then obtain d where "d < k" "frb_cell b i = frb_cell b (?n + d)" by blast
      with that k frb_cell_inj [of i b "?n + d"] show "?n \<le> i \<and> i < ?n + k" by auto
    next
      assume "?n \<le> i \<and> i < ?n + k"
      then show "\<exists>d < k. frb_cell b i = frb_cell b (?n + d)"
        by (intro exI [of _ "i - ?n"]) auto
    qed
    with that nth' [of "frb_cell b i"] len show ?thesis by (simp add: shift)
  qed
  have "frb_fill_repeat v num b = Inr (k, ?b')"
    using assms(1-3) len k m' s unfolding frb_fill_repeat_def
    by (simp add: frb_offset frb_wrapping_add_mod frb_remaining_capacity_def k_def [symmetric]
        Let_def)
  moreover have "frb_inv ?b'"
    using assms(1) len k len' by (auto simp: frb_inv_def cell nth)
  moreover have "frb_list ?b' = frb_list b @ replicate k v"
    using k len by (intro nth_equalityI) (auto simp: frb_list_def cell nth nth_append)
  ultimately show ?thesis by force
qed

text \<open>The two slices, one after the other, are the elements in the order of insertion.\<close>

lemma frb_cell_split:
  assumes "frb_inv b" and "i < frb_length b"
  shows "frb_cell b i = (if frb_start b + i < frb_capacity b then frb_start b + i
     else frb_start b + i - frb_capacity b)"
  using assms by (auto simp: frb_cell_def frb_inv_def le_mod_geq)

lemma frb_as_slices_ok:
  assumes "frb_inv b"
  shows "\<exists>xs ys. frb_as_slices b = Inr (xs, ys) \<and> xs @ ys = frb_list b"
proof (cases "frb_capacity b - frb_length b > frb_start b")
  case True
  let ?xs = "map (\<lambda>k. the (frb_buffer b ! (frb_start b + k))) [0..<frb_length b]"
  have cell: "frb_cell b i = frb_start b + i" if "i < frb_length b" for i
  proof -
    from True that have "frb_start b + i < frb_capacity b" by linarith
    with frb_cell_split [OF assms that] show ?thesis by simp
  qed
  have "mem_slice (frb_buffer b) (frb_start b) (frb_length b) = Inr ?xs"
  proof (rule mem_slice_in)
    show "frb_start b + frb_length b \<le> length (frb_buffer b)"
      using assms True by (simp add: frb_inv_def)
  qed (use assms cell in \<open>fastforce simp: frb_inv_def\<close>)
  moreover have "?xs = frb_list b"
    by (simp add: frb_list_def cell)
  ultimately show ?thesis
    using True by (simp add: frb_as_slices_def)
next
  case False
  let ?c = "frb_capacity b" and ?n = "frb_length b" and ?s = "frb_start b"
  let ?xs = "map (\<lambda>k. the (frb_buffer b ! (?s + k))) [0..<?c - ?s]"
  let ?ys = "map (\<lambda>k. the (frb_buffer b ! (0 + k))) [0..<?s + ?n - ?c]"
  have inv: "?n \<le> ?c" "length (frb_buffer b) = ?c" "?s \<le> ?c" "?c \<le> ?s + ?n" "?c < usize_range"
    "\<And>i. i < ?n \<Longrightarrow> frb_buffer b ! frb_cell b i \<noteq> None"
    using assms False by (auto simp: frb_inv_def)
  have lo: "frb_cell b k = ?s + k" if "k < ?c - ?s" for k
    using frb_cell_split [OF assms, of k] that inv by auto
  have hi: "frb_cell b (?c - ?s + k) = k" if "k < ?s + ?n - ?c" for k
    using frb_cell_split [OF assms, of "?c - ?s + k"] that inv by auto
  have "mem_slice (frb_buffer b) ?s (?c - ?s) = Inr ?xs"
  proof (rule mem_slice_in)
    fix k assume "k < ?c - ?s"
    with lo [of k] inv(6) [of k] inv show "frb_buffer b ! (?s + k) \<noteq> None" by auto
  qed (use inv in auto)
  moreover have "mem_slice (frb_buffer b) 0 (?s + ?n - ?c) = Inr ?ys"
  proof (rule mem_slice_in)
    fix k assume "k < ?s + ?n - ?c"
    with hi [of k] inv(6) [of "?c - ?s + k"] inv show "frb_buffer b ! (0 + k) \<noteq> None" by auto
  qed (use inv in auto)
  moreover have "frb_wrapping_add ?s ?n ?c = Inr (?s + ?n - ?c)"
  proof (cases "?c = 0")
    case True
    with inv show ?thesis
      using usize_wrapping_sub_add [of 0 0 0] by (simp add: frb_wrapping_add_def)
  next
    case False
    then have "?s < ?c" using assms by (auto simp: frb_inv_def)
    with inv show ?thesis
      by (simp add: frb_wrapping_add_mod le_mod_geq)
  qed
  moreover have "?xs @ ?ys = frb_list b"
  proof (rule nth_equalityI)
    show "length (?xs @ ?ys) = length (frb_list b)" using inv by auto
    fix i assume i: "i < length (?xs @ ?ys)"
    show "(?xs @ ?ys) ! i = frb_list b ! i"
    proof (cases "i < ?c - ?s")
      case True
      with inv have "i < ?n" by linarith
      with True lo [of i] show ?thesis by (simp add: nth_append frb_list_def)
    next
      case False
      let ?k = "i - (?c - ?s)"
      from False i inv have k: "?k < ?s + ?n - ?c" and i': "?c - ?s + ?k = i" "i < ?n" by auto
      with False hi [OF k] show ?thesis
        by (simp only: nth_append length_map length_upt if_False frb_list_def nth_map nth_upt) simp
        qed
  qed
  ultimately show ?thesis
    using False by (simp add: frb_as_slices_def)
qed

text \<open>Dropping: every live element is read out exactly once and no cell is left owning one.\<close>

lemma frb_drop_loop_ok:
  assumes "frb_inv b" and "length m = frb_capacity b" and "distinct is"
    and "\<And>i. i \<in> set is \<Longrightarrow> i < frb_length b"
    and "\<And>i. i \<in> set is \<Longrightarrow> m ! frb_cell b i = frb_buffer b ! frb_cell b i"
  shows "\<exists>m'. frb_drop_loop b is m
      = Inr (map (\<lambda>i. the (frb_buffer b ! frb_cell b i)) is, m')
    \<and> length m' = length m
    \<and> (\<forall>j < frb_capacity b. m' ! j = (if j \<in> frb_cell b ` set is then None else m ! j))"
  using assms(2-)
proof (induction "is" arbitrary: m)
  case Nil
  then show ?case by simp
next
  case (Cons i "is")
  let ?k = "frb_cell b i"
  have i: "i < frb_length b" "i \<notin> set is" using Cons.prems by auto
  then have bounds: "0 < frb_capacity b" "i < frb_capacity b"
    using assms(1) by (auto simp: frb_inv_def)
  have is_lt: "j < frb_capacity b" if "j \<in> set is" for j
    using that Cons.prems(3) assms(1) by (fastforce simp: frb_inv_def)
  have "m[?k := None] ! frb_cell b j = frb_buffer b ! frb_cell b j" if "j \<in> set is" for j
  proof -
    from that i have "j \<noteq> i" by auto
    with that is_lt bounds have "frb_cell b j \<noteq> ?k" using frb_cell_inj by blast
    with that Cons.prems show ?thesis by simp
  qed
  with Cons.prems Cons.IH [of "m[?k := None]"] obtain m' where m':
    "frb_drop_loop b is (m[?k := None]) = Inr (map (\<lambda>i. the (frb_buffer b ! frb_cell b i)) is, m')"
    "length m' = length m"
    "\<forall>j < frb_capacity b. m' ! j = (if j \<in> frb_cell b ` set is then None else m[?k := None] ! j)"
    by auto
  obtain x where x: "frb_buffer b ! ?k = Some x"
    using assms(1) i by (auto simp: frb_inv_def)
  then have "mem_read m ?k = Inr x"
    using Cons.prems bounds by (auto intro: mem_read_Some)
  with m' x bounds assms(1) Cons.prems show ?case
    by (auto simp: frb_offset nth_list_update)
qed

lemma frb_drop_ok:
  assumes "frb_inv b"
  shows "frb_drop b = Inr (frb_list b, replicate (frb_capacity b) None)"
proof -
  have "distinct [0..<frb_length b]" by simp
  from frb_drop_loop_ok [OF assms _ this, of "frb_buffer b"] obtain m' where m':
    "frb_drop b = Inr (frb_list b, m')" "length m' = length (frb_buffer b)"
    "\<forall>j < frb_capacity b. m' ! j
       = (if j \<in> frb_cell b ` {0..<frb_length b} then None else frb_buffer b ! j)"
    using assms by (auto simp: frb_drop_def frb_list_def frb_inv_def)
  have "m' ! j = None" if j: "j < frb_capacity b" for j
  proof -
    define i where "i = (j + frb_capacity b - frb_start b) mod frb_capacity b"
    have "frb_cell b i = j"
      using j assms by (auto simp: i_def frb_cell_def frb_inv_def mod_simps)
    moreover have "i < frb_capacity b" using j by (simp add: i_def)
    ultimately have "i < frb_length b \<or> frb_buffer b ! j = None"
      using assms unfolding frb_inv_def by (metis not_less)
    with m'(3) j \<open>frb_cell b i = j\<close> show ?thesis by auto
  qed
  with m'(1,2) assms have "m' = replicate (frb_capacity b) None"
    by (intro nth_equalityI) (auto simp: frb_inv_def)
  with m'(1) show ?thesis by simp
qed

subsection \<open>Refinement of the bounded queue\<close>

interpretation frb_sim: refines frb_step queue_step frb_abs frb_inv
proof
  fix b :: "'a frb" and x :: "'a queue_op" and e
  assume "queue_step x (frb_abs b) = Inl e"
  then show "frb_step x b = Inl e"
    by (cases x) (auto simp: frb_abs_def Let_def)
next
  fix b :: "'a frb" and x :: "'a queue_op" and r a
  assume inv: "frb_inv b" and spec: "queue_step x (frb_abs b) = Inr (r, a)"
  show "\<exists>b'. frb_step x b = Inr (r, b') \<and> frb_inv b' \<and> frb_abs b' = a"
  proof (cases x)
    case (Push v)
    show ?thesis
    proof (cases "frb_is_full b")
      case True
      with Push inv spec frb_push_full [of b v] show ?thesis
        by (simp add: frb_abs_def frb_is_full_def)
    next
      case False
      with frb_inv_length [OF inv] have "frb_length b < frb_capacity b"
        by (simp add: frb_is_full_def)
      with Push spec frb_push_ok [OF inv False, of v] show ?thesis
        by (auto simp: frb_abs_def)
    qed
  next
    case Pop
    show ?thesis
    proof (cases "frb_list b")
      case Nil
      with Pop inv spec frb_pop_front_empty [of b] show ?thesis
        by (auto simp: frb_abs_def simp flip: frb_list_Nil_iff)
    next
      case (Cons y ys)
      then have "\<not> frb_is_empty b" by (simp flip: frb_list_Nil_iff)
      with Pop Cons spec frb_pop_front_ok [OF inv] show ?thesis
        by (auto simp: frb_abs_def)
    qed
  next
    case (Fill v n)
    then show ?thesis
      using inv spec frb_fill_repeat_ok [OF inv, of n v] frb_fill_repeat_none [of n b v]
      by (cases "n = 0 \<or> frb_is_full b") (force simp: frb_abs_def frb_is_full_def Let_def)+
  next
    case Slices
    then show ?thesis
      using inv spec frb_as_slices_ok [OF inv] by (auto simp: frb_abs_def)
  qed
qed

lemma queue_run_total: "\<exists>rs a. run queue_step ops q = Inr (rs, a)"
proof (induction ops arbitrary: q)
  case Nil
  then show ?case by simp
next
  case (Cons x ops)
  obtain c l where q: "q = (c, l)" by (cases q)
  have "\<exists>r a. queue_step x q = Inr (r, a)"
    by (cases x) (auto simp: q Let_def split: list.splits)
  with Cons.IH show ?case by (fastforce simp: rbind_eq_Inr_iff)
qed

lemma queue_run_capacity: "run queue_step ops q = Inr (rs, a) \<Longrightarrow> fst a = fst q"
proof (induction ops arbitrary: q rs)
  case Nil
  then show ?case by simp
next
  case (Cons x ops)
  then obtain r q' rs' where "queue_step x q = Inr (r, q')" "run queue_step ops q' = Inr (rs', a)"
    by (auto simp: rbind_eq_Inr_iff split: prod.splits)
  moreover from this(1) have "fst q' = fst q"
    by (cases q; cases x) (auto simp: Let_def split: if_splits list.splits)
  ultimately show ?case using Cons.IH by simp
qed

subsection \<open>Properties\<close>

text \<open>
  C16. A ring buffer created with any capacity a machine word can hold behaves as a
  bounded first-in first-out queue under every sequence of pushes, pops, fills and
  slice reads: it returns what the queue returns, no unsafe access faults, no assertion
  fails, and the state it ends in represents the queue's contents.
\<close>

theorem frb_refines_queue:
  assumes "c < usize_range"
  shows "\<exists>rs q b. run queue_step ops (c, []) = Inr (rs, c, q) \<and>
     run frb_step ops (frb_new c) = Inr (rs, b) \<and> frb_inv b \<and> frb_list b = q \<and> frb_capacity b = c"
proof -
  obtain rs a where spec: "run queue_step ops (c, []) = Inr (rs, a)"
    using queue_run_total by blast
  then obtain b where b: "run frb_step ops (frb_new c) = Inr (rs, b)" "frb_inv b" "frb_abs b = a"
    using frb_sim.run_ok [OF frb_inv_new [OF assms]] by (metis frb_abs_new)
  from b(3) have "a = (frb_capacity b, frb_list b)" by (simp add: frb_abs_def)
  moreover have "fst a = c"
    using queue_run_capacity [OF spec] by simp
  ultimately show ?thesis using spec b by auto
qed

theorem frb_refines_queue_witness:
  "\<exists>b. run frb_step [Push 1, Fill 7 5, Pop, Push (2::nat), Slices] (frb_new 3)
     = Inr ([Pushed True, Filled 2, Popped (Some 1), Pushed True, Listed [7, 7, 2]], b)"
proof -
  let ?ops = "[Push 1, Fill 7 5, Pop, Push (2::nat), Slices]"
  have "(3::nat) < usize_range" by (simp add: usize_range_def)
  from frb_refines_queue [OF this, of ?ops] obtain rs q b where
    spec: "run queue_step ?ops (3, []) = Inr (rs, 3, q)" and
    impl: "run frb_step ?ops (frb_new 3) = Inr (rs, b)" by blast
  from spec have "rs = [Pushed True, Filled 2, Popped (Some 1), Pushed True, Listed [7, 7, 2]]"
    by (auto simp: Let_def numeral_2_eq_2)
  with impl show ?thesis by blast
qed

text \<open>
  Dropping a ring buffer in a valid state reads out each live element exactly once, in
  insertion order, leaves no cell owning a value and never reads an uninitialised cell.
\<close>

theorem frb_drop_exactly_once:
  assumes "frb_inv b"
  shows "frb_drop b = Inr (frb_list b, replicate (frb_capacity b) None)"
  using assms by (rule frb_drop_ok)

theorem frb_drop_exactly_once_witness:
  "frb_drop \<lparr>frb_start = 2, frb_length = 2, frb_buffer = [Some 9, None, Some (8::nat)],
     frb_capacity = 3\<rparr> = Inr ([8, 9], [None, None, None])"
proof -
  let ?b = "\<lparr>frb_start = 2, frb_length = 2, frb_buffer = [Some 9, None, Some (8::nat)],
     frb_capacity = 3\<rparr>"
  have "(3::nat) < usize_range" by (simp add: usize_range_def)
  moreover have "frb_buffer ?b ! frb_cell ?b i \<noteq> None" if "i < 2" for i
    using that by (cases i) (auto simp: frb_cell_def)
  moreover have "frb_buffer ?b ! frb_cell ?b i = None" if "i < 3" "2 \<le> i" for i
    using that by (cases "i = 2") (auto simp: frb_cell_def)
  ultimately have "frb_inv ?b" by (simp add: frb_inv_def)
  then show ?thesis
    by (simp add: frb_drop_exactly_once) (simp_all add: frb_list_def frb_cell_def upt_conv_Cons,
      simp add: numeral_3_eq_3)
qed

end
