(* ===== verification/ArenaStore.thy ===== *)
theory ArenaStore
  imports Prelude
begin

section \<open>The arena of plan nodes\<close>

text \<open>
  \<^verbatim>\<open>Arena\<close> of \<^verbatim>\<open>crates/polars-utils/src/arena.rs\<close>, the store in which logical plans and
  expressions live: a growable vector of items addressed by \<^verbatim>\<open>Node\<close> indices, with a
  version drawn from a global counter. The model threads that counter, a \<open>u32\<close> that
  wraps, explicitly. Accesses out of range panic, as \<^verbatim>\<open>unwrap\<close> and the slice index of
  the source do. The lemmas show that a node keeps denoting the same item while other
  nodes are added or rewritten, and what each operation leaves behind when it fails.
\<close>

subsection \<open>Model\<close>

type_synonym node = nat

record 'a arena =
  arena_version :: u32
  arena_items :: "'a list"

text \<open>Pointer arithmetic of the reverse lookup: addresses are numbers, \<open>sz\<close> the item size.\<close>

definition index_of_unchecked :: "nat \<Rightarrow> nat \<Rightarrow> nat \<Rightarrow> nat" where
  "index_of_unchecked base sz ptr = (ptr - base) div sz"

definition index_of :: "nat \<Rightarrow> nat \<Rightarrow> nat \<Rightarrow> nat \<Rightarrow> nat option" where
  "index_of base len sz ptr =
     (if base < ptr \<and> base + len * sz > ptr then Some (index_of_unchecked base sz ptr) else None)"

definition arena_new :: "u32 \<Rightarrow> 'a arena \<times> u32" where
  "arena_new ctr = (\<lparr>arena_version = ctr, arena_items = []\<rparr>, ctr + 1)"

definition arena_with_capacity :: "nat \<Rightarrow> u32 \<Rightarrow> 'a arena \<times> u32" where
  "arena_with_capacity cap ctr = (\<lparr>arena_version = ctr, arena_items = []\<rparr>, ctr + 1)"

definition arena_add :: "'a \<Rightarrow> 'a arena \<Rightarrow> node \<times> 'a arena" where
  "arena_add val a =
     (let idx = length (arena_items a) in (idx, a\<lparr>arena_items := arena_items a @ [val]\<rparr>))"

definition arena_pop :: "'a arena \<Rightarrow> 'a option \<times> 'a arena" where
  "arena_pop a =
     (if arena_items a = [] then (None, a)
      else (Some (last (arena_items a)), a\<lparr>arena_items := butlast (arena_items a)\<rparr>))"

definition arena_len :: "'a arena \<Rightarrow> nat" where
  "arena_len a = length (arena_items a)"

definition arena_get_node :: "nat \<Rightarrow> nat \<Rightarrow> 'a arena \<Rightarrow> nat \<Rightarrow> node option" where
  "arena_get_node base sz a ptr = index_of base (length (arena_items a)) sz ptr"

definition arena_swap :: "node \<Rightarrow> node \<Rightarrow> 'a arena \<Rightarrow> 'a arena res" where
  "arena_swap i j a =
     (let xs = arena_items a in
      assert_that (i < length xs \<and> j < length xs)
        (Inr (a\<lparr>arena_items := xs[i := xs ! j, j := xs ! i]\<rparr>)))"

definition arena_get :: "node \<Rightarrow> 'a arena \<Rightarrow> 'a res" where
  "arena_get idx a = assert_that (idx < length (arena_items a)) (Inr (arena_items a ! idx))"

text \<open>
  \<^verbatim>\<open>get_mut\<close> hands out a reference; the model of a use of it is a function applied to
  the slot.
\<close>

definition arena_get_mut :: "node \<Rightarrow> ('a \<Rightarrow> 'a) \<Rightarrow> 'a arena \<Rightarrow> 'a arena res" where
  "arena_get_mut idx f a =
     assert_that (idx < length (arena_items a))
       (Inr (a\<lparr>arena_items := (arena_items a)[idx := f (arena_items a ! idx)]\<rparr>))"

text \<open>The validity loop of \<^verbatim>\<open>get_many_mut\<close>: \<open>seen\<close> are the indices before the current one.\<close>

fun many_valid :: "nat \<Rightarrow> node list \<Rightarrow> node list \<Rightarrow> bool \<Rightarrow> bool" where
  "many_valid len seen [] valid = valid"
| "many_valid len seen (idx # rest) valid =
     many_valid len (seen @ [idx]) rest
       (fold (\<lambda>idx2 v. v \<and> idx \<noteq> idx2) seen (valid \<and> idx < len))"

text \<open>The references are used by writing \<open>vals\<close> through them, one after the other.\<close>

fun write_all :: "'a list \<Rightarrow> node list \<Rightarrow> 'a list \<Rightarrow> 'a list" where
  "write_all xs (i # is) (v # vs) = write_all (xs[i := v]) is vs"
| "write_all xs _ _ = xs"

definition arena_get_many_mut ::
  "node list \<Rightarrow> ('a list \<Rightarrow> 'a list) \<Rightarrow> 'a arena \<Rightarrow> 'a arena res" where
  "arena_get_many_mut indices f a =
     assert_that (many_valid (length (arena_items a)) [] indices True)
       (Inr (a\<lparr>arena_items :=
          write_all (arena_items a) indices (f (map ((!) (arena_items a)) indices))\<rparr>))"

definition arena_replace :: "node \<Rightarrow> 'a \<Rightarrow> 'a arena \<Rightarrow> ('a \<times> 'a arena) res" where
  "arena_replace idx val a =
     rbind (arena_get idx a) (\<lambda>old. rbind (arena_get_mut idx (\<lambda>_. val) a) (\<lambda>a'. Inr (old, a')))"

definition arena_clear :: "'a arena \<Rightarrow> u32 \<Rightarrow> 'a arena \<times> u32" where
  "arena_clear a ctr = (a\<lparr>arena_items := [], arena_version := ctr\<rparr>, ctr + 1)"

definition arena_duplicate :: "node \<Rightarrow> 'a arena \<Rightarrow> (node \<times> 'a arena) res" where
  "arena_duplicate n a = rbind (arena_get n a) (\<lambda>item. Inr (arena_add item a))"

definition arena_take :: "'a \<Rightarrow> node \<Rightarrow> 'a arena \<Rightarrow> ('a \<times> 'a arena) res" where
  "arena_take dflt idx a = arena_replace idx dflt a"

definition arena_replace_with :: "'a \<Rightarrow> node \<Rightarrow> ('a \<Rightarrow> 'a) \<Rightarrow> 'a arena \<Rightarrow> 'a arena res" where
  "arena_replace_with dflt idx f a =
     rbind (arena_take dflt idx a) (\<lambda>(val, a1).
     rbind (arena_replace idx (f val) a1) (\<lambda>(_, a2). Inr a2))"

text \<open>
  \<^verbatim>\<open>try_replace_with\<close> returns early when \<open>f\<close> fails: the result is the error and the
  arena as it is then, with the default value in the slot.
\<close>

definition arena_try_replace_with ::
  "'a \<Rightarrow> node \<Rightarrow> ('a \<Rightarrow> 'e + 'a) \<Rightarrow> 'a arena \<Rightarrow> (('e + unit) \<times> 'a arena) res" where
  "arena_try_replace_with dflt idx f a =
     rbind (arena_take dflt idx a) (\<lambda>(val, a1).
     case f val of
       Inl e \<Rightarrow> Inr (Inl e, a1)
     | Inr v \<Rightarrow> rbind (arena_replace idx v a1) (\<lambda>(_, a2). Inr (Inr (), a2)))"

lemmas arena_defs =
  arena_add_def arena_pop_def arena_swap_def arena_get_def arena_get_mut_def
  arena_replace_def arena_duplicate_def arena_take_def arena_replace_with_def
  arena_try_replace_with_def assert_that_def Let_def

subsection \<open>Sequences of operations\<close>

text \<open>
  Every operation that changes an arena, as data. A step hands out the node it created, if
  any, and threads the version counter along with the arena. \<open>targets\<close> are the nodes that an
  operation is given and may change; \<open>pop\<close> and \<open>clear\<close> are given none, and remove nodes.
\<close>

datatype 'a arena_op =
    Add 'a | Pop | Duplicate node | Replace node 'a | Take node | GetMut node "'a \<Rightarrow> 'a"
  | ReplaceWith node "'a \<Rightarrow> 'a" | TryReplaceWith node "'a \<Rightarrow> string + 'a" | Swap node node
  | GetManyMut "node list" "'a list \<Rightarrow> 'a list" | Clear

fun arena_step :: "'a \<Rightarrow> 'a arena_op \<Rightarrow> 'a arena \<times> u32 \<Rightarrow> (node option \<times> 'a arena \<times> u32) res" where
  "arena_step d (Add v) (a, ctr) = (case arena_add v a of (n, a') \<Rightarrow> Inr (Some n, a', ctr))"
| "arena_step d Pop (a, ctr) = (case arena_pop a of (_, a') \<Rightarrow> Inr (None, a', ctr))"
| "arena_step d (Duplicate n) (a, ctr) = rbind (arena_duplicate n a) (\<lambda>(n', a'). Inr (Some n', a', ctr))"
| "arena_step d (Replace n v) (a, ctr) = rbind (arena_replace n v a) (\<lambda>(_, a'). Inr (None, a', ctr))"
| "arena_step d (Take n) (a, ctr) = rbind (arena_take d n a) (\<lambda>(_, a'). Inr (None, a', ctr))"
| "arena_step d (GetMut n f) (a, ctr) = rbind (arena_get_mut n f a) (\<lambda>a'. Inr (None, a', ctr))"
| "arena_step d (ReplaceWith n f) (a, ctr) = rbind (arena_replace_with d n f a) (\<lambda>a'. Inr (None, a', ctr))"
| "arena_step d (TryReplaceWith n f) (a, ctr) =
     rbind (arena_try_replace_with d n f a) (\<lambda>(_, a'). Inr (None, a', ctr))"
| "arena_step d (Swap n m) (a, ctr) = rbind (arena_swap n m a) (\<lambda>a'. Inr (None, a', ctr))"
| "arena_step d (GetManyMut ns f) (a, ctr) = rbind (arena_get_many_mut ns f a) (\<lambda>a'. Inr (None, a', ctr))"
| "arena_step d Clear (a, ctr) = (case arena_clear a ctr of (a', ctr') \<Rightarrow> Inr (None, a', ctr'))"

fun targets :: "'a arena_op \<Rightarrow> node set" where
  "targets (Add v) = {}"
| "targets Pop = {}"
| "targets (Duplicate n) = {}"
| "targets (Replace n v) = {n}"
| "targets (Take n) = {n}"
| "targets (GetMut n f) = {n}"
| "targets (ReplaceWith n f) = {n}"
| "targets (TryReplaceWith n f) = {n}"
| "targets (Swap n m) = {n, m}"
| "targets (GetManyMut ns f) = set ns"
| "targets Clear = {}"

definition removes :: "'a arena_op \<Rightarrow> bool" where
  "removes x \<longleftrightarrow> (case x of Pop \<Rightarrow> True | Clear \<Rightarrow> True | _ \<Rightarrow> False)"

text \<open>The smallest number of items the arena has during a sequence of operations.\<close>

fun low_water :: "'a \<Rightarrow> 'a arena_op list \<Rightarrow> 'a arena \<times> u32 \<Rightarrow> nat" where
  "low_water d [] s = arena_len (fst s)"
| "low_water d (x # xs) s =
     min (arena_len (fst s))
       (case arena_step d x s of Inl _ \<Rightarrow> arena_len (fst s) | Inr (_, s') \<Rightarrow> low_water d xs s')"

subsection \<open>Lemmas\<close>

lemma length_write_all [simp]: "length (write_all xs is vs) = length xs"
  by (induction xs "is" vs rule: write_all.induct) auto

lemma write_all_frame: "n \<notin> set is \<Longrightarrow> write_all xs is vs ! n = xs ! n"
  by (induction xs "is" vs rule: write_all.induct) auto

lemma write_all_hit:
  "distinct is \<Longrightarrow> \<forall>i \<in> set is. i < length xs \<Longrightarrow> length vs = length is \<Longrightarrow> k < length is \<Longrightarrow>
   write_all xs is vs ! (is ! k) = vs ! k"
proof (induction xs "is" vs arbitrary: k rule: write_all.induct)
  case (1 xs i "is" v vs)
  show ?case
  proof (cases k)
    case 0
    with 1 show ?thesis by (simp add: write_all_frame)
  next
    case (Suc k')
    with 1 show ?thesis by simp
  qed
qed auto

lemma fold_conj: "fold (\<lambda>y v. v \<and> P y) ys b \<longleftrightarrow> b \<and> (\<forall>y \<in> set ys. P y)"
  by (induction ys arbitrary: b) auto

lemma many_valid_iff:
  "many_valid len seen is valid \<longleftrightarrow>
   valid \<and> distinct is \<and> set is \<inter> set seen = {} \<and> (\<forall>i \<in> set is. i < len)"
  by (induction len seen "is" valid rule: many_valid.induct) (auto simp: fold_conj)

lemma arena_step_frame:
  assumes "arena_step d x s = Inr (r, s')" and "n < arena_len (fst s)" and "n < arena_len (fst s')"
    and "n \<notin> targets x"
  shows "arena_get n (fst s') = arena_get n (fst s)"
  using assms
  by (cases s; cases x)
    (auto simp: arena_len_def arena_defs arena_clear_def arena_get_many_mut_def nth_append nth_butlast
      write_all_frame split: if_splits sum.splits)

lemma arena_step_len:
  "arena_step d x s = Inr (r, s') \<Longrightarrow> \<not> removes x \<Longrightarrow> arena_len (fst s) \<le> arena_len (fst s')"
  by (cases s; cases x)
    (auto simp: arena_len_def arena_defs arena_get_many_mut_def removes_def split: if_splits sum.splits)

lemma arena_step_fresh:
  "arena_step d x s = Inr (Some n, s') \<Longrightarrow> n = arena_len (fst s) \<and> arena_len (fst s') = Suc n"
  by (cases s; cases x)
    (auto simp: arena_len_def arena_defs arena_clear_def rbind_eq_Inr_iff split: if_splits)

lemma arena_run_Cons:
  assumes "run (arena_step d) (x # ops) s = Inr (rs, s')"
  obtains r s1 rs' where "arena_step d x s = Inr (r, s1)" "run (arena_step d) ops s1 = Inr (rs', s')"
    "rs = r # rs'"
  using assms by (auto simp: rbind_eq_Inr_iff split: prod.splits)

lemma low_water_le: "low_water d ops s \<le> arena_len (fst s)"
  by (cases ops) simp_all

lemma arena_run_frame:
  assumes "run (arena_step d) ops s = Inr (rs, s')" and "n < low_water d ops s"
  shows "n < arena_len (fst s') \<and> ((\<forall>x \<in> set ops. n \<notin> targets x) \<longrightarrow> arena_get n (fst s') = arena_get n (fst s))"
  using assms
proof (induction ops arbitrary: s rs)
  case (Cons x ops)
  from Cons.prems(1) obtain r s1 rs' where step: "arena_step d x s = Inr (r, s1)"
    "run (arena_step d) ops s1 = Inr (rs', s')"
    by (rule arena_run_Cons)
  with Cons.prems(2) have n: "n < arena_len (fst s)" "n < low_water d ops s1" by auto
  then have "n < arena_len (fst s1)" using low_water_le [of d ops s1] by simp
  with arena_step_frame [OF step(1) n(1)] Cons.IH [OF step(2) n(2)] show ?case by auto
qed simp

lemma arena_run_growing:
  assumes "run (arena_step d) ops s = Inr (rs, s')" and "list_all (\<lambda>x. \<not> removes x) ops"
  shows "low_water d ops s = arena_len (fst s) \<and> arena_len (fst s) \<le> arena_len (fst s')"
  using assms
proof (induction ops arbitrary: s rs)
  case (Cons x ops)
  from Cons.prems(1) obtain r s1 rs' where step: "arena_step d x s = Inr (r, s1)"
    "run (arena_step d) ops s1 = Inr (rs', s')"
    by (rule arena_run_Cons)
  with Cons.prems(2) Cons.IH [OF step(2)] arena_step_len [OF step(1)] show ?case by auto
qed simp

lemma arena_run_fresh:
  assumes "run (arena_step d) ops s = Inr (rs, s')" and "list_all (\<lambda>x. \<not> removes x) ops"
  shows "distinct (List.map_filter id rs) \<and>
    (\<forall>n \<in> set (List.map_filter id rs). arena_len (fst s) \<le> n \<and> n < arena_len (fst s'))"
  using assms
proof (induction ops arbitrary: s rs)
  case (Cons x ops)
  from Cons.prems(1) obtain r s1 rs' where step: "arena_step d x s = Inr (r, s1)"
    "run (arena_step d) ops s1 = Inr (rs', s')" "rs = r # rs'"
    by (rule arena_run_Cons)
  have mono: "arena_len (fst s) \<le> arena_len (fst s1)" "arena_len (fst s1) \<le> arena_len (fst s')"
    using arena_step_len [OF step(1)] arena_run_growing [OF step(2)] Cons.prems(2) by auto
  note IH = Cons.IH [OF step(2)] and growing = Cons.prems(2)
  show ?case
  proof (cases r)
    case None
    with IH growing step(3) mono show ?thesis by (force simp: map_filter_simps)
  next
    case (Some n)
    with step(1) have "n = arena_len (fst s)" "arena_len (fst s1) = Suc n"
      using arena_step_fresh [of d x s n s1] by auto
    with Some IH growing step(3) mono show ?thesis by (force simp: map_filter_simps)
  qed
qed (simp add: map_filter_simps)

subsection \<open>Properties\<close>

text \<open>
  C28. Through any sequence of operations on an arena, a node below the smallest number of
  items the arena has on the way stays valid, and keeps its item if no operation was given it
  to change. Without \<open>pop\<close> and \<open>clear\<close> these are all the nodes there were at the start, and
  the nodes handed out are all fresh: pairwise different, different from every node
  there was before, and valid at the end.
\<close>

theorem arena_nodes_stable:
  assumes "run (arena_step d) ops (a, ctr) = Inr (rs, a', ctr')"
  shows "(\<forall>n < low_water d ops (a, ctr). n < arena_len a' \<and>
      ((\<forall>x \<in> set ops. n \<notin> targets x) \<longrightarrow> arena_get n a' = arena_get n a)) \<and>
    (list_all (\<lambda>x. \<not> removes x) ops \<longrightarrow> low_water d ops (a, ctr) = arena_len a \<and>
      distinct (List.map_filter id rs) \<and>
      (\<forall>n \<in> set (List.map_filter id rs). arena_len a \<le> n \<and> n < arena_len a'))"
  using arena_run_frame [OF assms] arena_run_growing [OF assms] arena_run_fresh [OF assms] by auto

theorem arena_nodes_stable_witness:
  "arena_get 0 (fst (snd (projr (run (arena_step 0) [Add 5, Replace 1 (7::nat), Duplicate 2, Swap 1 3]
      (\<lparr>arena_version = 0, arena_items = [3, 4]\<rparr>, 1))))) = Inr 3"
proof -
  let ?ops = "[Add 5, Replace 1 (7::nat), Duplicate 2, Swap 1 3]"
  let ?a = "\<lparr>arena_version = 0, arena_items = [3, 4 :: nat]\<rparr>"
  obtain rs a' ctr' where run: "run (arena_step 0) ?ops (?a, 1) = Inr (rs, a', ctr')"
    by (simp add: arena_defs)
  have "low_water 0 ?ops (?a, 1) = arena_len ?a"
    using arena_nodes_stable [OF run] by (simp add: removes_def del: low_water.simps)
  then have "arena_get 0 a' = arena_get 0 ?a"
    using arena_nodes_stable [OF run] by (auto simp: arena_len_def simp del: low_water.simps)
  with run show ?thesis by (simp add: arena_get_def)
qed

text \<open>
  \<^verbatim>\<open>get_many_mut\<close> succeeds exactly on pairwise different nodes in range, and the
  references it hands out do not alias: what is written through the k-th of them is found
  at the k-th node, and no other node changes.
\<close>

theorem arena_get_many_mut_no_alias:
  assumes "\<And>xs. length (f xs) = length xs"
  shows "(arena_get_many_mut ns f a = Inl Panic \<longleftrightarrow>
      \<not> (distinct ns \<and> (\<forall>n \<in> set ns. n < arena_len a))) \<and>
    (\<forall>a'. arena_get_many_mut ns f a = Inr a' \<longrightarrow>
      (\<forall>k < length ns. arena_get (ns ! k) a' = Inr (f (map ((!) (arena_items a)) ns) ! k)) \<and>
      (\<forall>n. n \<notin> set ns \<longrightarrow> arena_get n a' = arena_get n a))"
  using assms
  by (auto simp: arena_get_many_mut_def assert_that_def many_valid_iff arena_len_def
      arena_get_def write_all_frame write_all_hit)

theorem arena_get_many_mut_no_alias_witness:
  "arena_get 2 (projr (arena_get_many_mut [2, 0] rev
      \<lparr>arena_version = 0, arena_items = [10, 20, 30::nat]\<rparr>)) = Inr 10"
proof -
  let ?a = "\<lparr>arena_version = 0, arena_items = [10, 20, 30::nat]\<rparr>"
  obtain a' where a': "arena_get_many_mut [2, 0] rev ?a = Inr a'"
    by (simp add: arena_get_many_mut_def assert_that_def)
  have "arena_get ([2, 0] ! 0) a' = Inr (rev (map ((!) (arena_items ?a)) [2, 0]) ! 0)"
    using arena_get_many_mut_no_alias [of rev "[2, 0]" ?a] a' by auto
  with a' show ?thesis by simp
qed

text \<open>
  When the function given to \<^verbatim>\<open>try_replace_with\<close> fails, the error is returned and the
  node is left with the default value, not with the item it had; every other node keeps
  its item. When it succeeds the node holds the new value.
\<close>

theorem arena_try_replace_with_result:
  assumes "idx < arena_len a"
  shows "\<exists>a'. arena_try_replace_with d idx f a
        = Inr (map_sum id (\<lambda>_. ()) (f (arena_items a ! idx)), a') \<and>
      arena_get idx a' = Inr (case f (arena_items a ! idx) of Inl e \<Rightarrow> d | Inr v \<Rightarrow> v) \<and>
      (\<forall>n. n \<noteq> idx \<longrightarrow> arena_get n a' = arena_get n a)"
  using assms
  by (cases "f (arena_items a ! idx)") (auto simp: arena_len_def arena_defs)

theorem arena_try_replace_with_result_witness:
  "\<exists>a'. arena_try_replace_with 0 1 (\<lambda>x. Inl ''bad'') \<lparr>arena_version = 0, arena_items = [3, 4::nat]\<rparr>
     = Inr (Inl ''bad'', a') \<and> arena_get 1 a' = Inr 0 \<and> arena_get 0 a' = Inr 3"
  using arena_try_replace_with_result [of 1 "\<lparr>arena_version = 0, arena_items = [3, 4::nat]\<rparr>" 0
      "\<lambda>x. Inl ''bad''"]
  by (force simp: arena_len_def arena_get_def)

text \<open>
  C40. The reverse lookup from an item's address to its node finds every item of the arena
  except the first one, for which it answers \<open>None\<close>.
\<close>

theorem arena_get_node_of_item:
  assumes "0 < sz" and "i < arena_len a"
  shows "arena_get_node base sz a (base + i * sz) = (if i = 0 then None else Some i)"
  using assms by (auto simp: arena_get_node_def index_of_def index_of_unchecked_def arena_len_def)

theorem arena_get_node_of_item_witness:
  "arena_get_node 4096 8 \<lparr>arena_version = 0, arena_items = [3, 4::nat]\<rparr> 4096 = None"
  using arena_get_node_of_item [of 8 0 "\<lparr>arena_version = 0, arena_items = [3, 4::nat]\<rparr>" 4096]
  by (simp add: arena_len_def)

end
