(* ===== verification/PrimArray.thy ===== *)
theory PrimArray
  imports Prelude
begin

section \<open>Primitive arrays and element-wise application\<close>

text \<open>
  \<^verbatim>\<open>PrimitiveArray\<close> (\<^verbatim>\<open>crates/polars-arrow/src/array/primitive/mod.rs\<close>): a buffer of values
  and an optional validity mask; the value under a cleared validity bit is arbitrary.
  \<open>pa_owned\<close> says whether the buffer is uniquely owned, which is when \<^verbatim>\<open>get_mut_values\<close>
  returns it for writing in place. The element-wise drivers of
  \<^verbatim>\<open>crates/polars-compute/src/arity.rs\<close> run a loop over raw memory that either overwrites
  an operand's buffer or fills a new allocation; the lemmas show that the choice is not
  observable. The equality kernels of \<^verbatim>\<open>crates/polars-compute/src/comparisons\<close> follow.
\<close>

subsection \<open>Arrays\<close>

record 'a parr =
  pa_values :: "'a list"
  pa_validity :: "bool list option"
  pa_owned :: bool

definition pa_len :: "'a parr \<Rightarrow> nat" where
  "pa_len a = length (pa_values a)"

fun mask_fits :: "bool list option \<Rightarrow> nat \<Rightarrow> bool" where
  "mask_fits None n = True"
| "mask_fits (Some bs) n = (length bs = n)"

definition pa_inv :: "'a parr \<Rightarrow> bool" where
  "pa_inv a \<longleftrightarrow> mask_fits (pa_validity a) (pa_len a)"

text \<open>The logical content: \<open>None\<close> is null.\<close>

definition mask_opt :: "bool list option \<Rightarrow> 'a list \<Rightarrow> 'a option list" where
  "mask_opt v xs = (case v of None \<Rightarrow> map Some xs
     | Some bs \<Rightarrow> map2 (\<lambda>b x. if b then Some x else None) bs xs)"

definition pa_opt :: "'a parr \<Rightarrow> 'a option list" where
  "pa_opt a = mask_opt (pa_validity a) (pa_values a)"

definition from_vec :: "'a list \<Rightarrow> 'a parr" where
  "from_vec xs = \<lparr>pa_values = xs, pa_validity = None, pa_owned = True\<rparr>"

definition with_validity :: "bool list option \<Rightarrow> 'a parr \<Rightarrow> 'a parr res" where
  "with_validity v a =
     assert_that (mask_fits v (pa_len a)) (Inr (a\<lparr>pa_validity := v\<rparr>))"

definition take_validity :: "'a parr \<Rightarrow> bool list option \<times> 'a parr" where
  "take_validity a = (pa_validity a, a\<lparr>pa_validity := None\<rparr>)"

definition new_null :: "'a \<Rightarrow> nat \<Rightarrow> 'a parr" where
  "new_null dflt n =
     \<lparr>pa_values = replicate n dflt, pa_validity = Some (replicate n False), pa_owned = True\<rparr>"

text \<open>The loop of \<^verbatim>\<open>fill_with\<close> over a mutable buffer, or a new vector of the same length.\<close>

definition fill_with :: "'a \<Rightarrow> 'a parr \<Rightarrow> 'a parr" where
  "fill_with value a =
     (if pa_owned a then a\<lparr>pa_values := map (\<lambda>x. value) (pa_values a)\<rparr>
      else \<lparr>pa_values = replicate (pa_len a) value, pa_validity = pa_validity a, pa_owned = True\<rparr>)"

definition bitand :: "bool list \<Rightarrow> bool list \<Rightarrow> bool list" where
  "bitand = map2 (\<and>)"

definition ternary :: "bool list \<Rightarrow> bool list \<Rightarrow> bool list \<Rightarrow> (bool \<Rightarrow> bool \<Rightarrow> bool \<Rightarrow> bool) \<Rightarrow> bool list" where
  "ternary a b c f = map2 (\<lambda>x (y, z). f x y z) a (zip b c)"

fun combine_validities_and :: "bool list option \<Rightarrow> bool list option \<Rightarrow> bool list option" where
  "combine_validities_and (Some l) (Some r) = Some (bitand l r)"
| "combine_validities_and None (Some r) = Some r"
| "combine_validities_and (Some l) None = Some l"
| "combine_validities_and None None = None"

fun combine_validities_and3 ::
  "bool list option \<Rightarrow> bool list option \<Rightarrow> bool list option \<Rightarrow> bool list option" where
  "combine_validities_and3 (Some a) (Some b) (Some c) = Some (ternary a b c (\<lambda>x y z. x \<and> y \<and> z))"
| "combine_validities_and3 (Some a) (Some b) None = Some (bitand a b)"
| "combine_validities_and3 (Some a) None (Some c) = Some (bitand a c)"
| "combine_validities_and3 None (Some b) (Some c) = Some (bitand b c)"
| "combine_validities_and3 (Some a) None None = Some a"
| "combine_validities_and3 None (Some b) None = Some b"
| "combine_validities_and3 None None (Some c) = Some c"
| "combine_validities_and3 None None None = None"

subsection \<open>The element-wise loops\<close>

text \<open>
  \<open>ptr_apply_unary_kernel\<close> with the output pointer equal to the input pointer, and with
  a separate output allocation. The element function may panic.
\<close>

fun ptr_unary_inplace :: "('a \<Rightarrow> 'a res) \<Rightarrow> nat list \<Rightarrow> 'a list \<Rightarrow> 'a list res" where
  "ptr_unary_inplace op [] m = Inr m"
| "ptr_unary_inplace op (i # is) m =
     rbind (op (m ! i)) (\<lambda>ret. ptr_unary_inplace op is (m[i := ret]))"

fun ptr_unary_copy :: "('a \<Rightarrow> 'a res) \<Rightarrow> nat list \<Rightarrow> 'a list \<Rightarrow> 'a memory \<Rightarrow> 'a memory res" where
  "ptr_unary_copy op [] arr out = Inr out"
| "ptr_unary_copy op (i # is) arr out =
     rbind (op (arr ! i)) (\<lambda>ret. rbind (mem_write out i ret) (ptr_unary_copy op is arr))"

definition prim_unary_values :: "'a parr \<Rightarrow> ('a \<Rightarrow> 'a res) \<Rightarrow> 'a parr res" where
  "prim_unary_values arr op =
     (if pa_owned arr
      then rbind (ptr_unary_inplace op [0..<pa_len arr] (pa_values arr)) (\<lambda>vs.
           Inr (arr\<lparr>pa_values := vs\<rparr>))
      else rbind (ptr_unary_copy op [0..<pa_len arr] (pa_values arr) (replicate (pa_len arr) None)) (\<lambda>out.
           rbind (mem_slice out 0 (pa_len arr)) (\<lambda>vs.
           with_validity (pa_validity arr) (from_vec vs))))"

text \<open>The binary loop, writing over the left operand, over the right one, or to a new buffer.\<close>

fun ptr_binary_left :: "('a \<Rightarrow> 'a \<Rightarrow> 'a res) \<Rightarrow> nat list \<Rightarrow> 'a list \<Rightarrow> 'a list \<Rightarrow> 'a list res" where
  "ptr_binary_left op [] l r = Inr l"
| "ptr_binary_left op (i # is) l r =
     rbind (op (l ! i) (r ! i)) (\<lambda>ret. ptr_binary_left op is (l[i := ret]) r)"

fun ptr_binary_right :: "('a \<Rightarrow> 'a \<Rightarrow> 'a res) \<Rightarrow> nat list \<Rightarrow> 'a list \<Rightarrow> 'a list \<Rightarrow> 'a list res" where
  "ptr_binary_right op [] l r = Inr r"
| "ptr_binary_right op (i # is) l r =
     rbind (op (l ! i) (r ! i)) (\<lambda>ret. ptr_binary_right op is l (r[i := ret]))"

fun ptr_binary_copy ::
  "('a \<Rightarrow> 'a \<Rightarrow> 'a res) \<Rightarrow> nat list \<Rightarrow> 'a list \<Rightarrow> 'a list \<Rightarrow> 'a memory \<Rightarrow> 'a memory res" where
  "ptr_binary_copy op [] l r out = Inr out"
| "ptr_binary_copy op (i # is) l r out =
     rbind (op (l ! i) (r ! i)) (\<lambda>ret. rbind (mem_write out i ret) (ptr_binary_copy op is l r))"

definition prim_binary_values :: "'a parr \<Rightarrow> 'a parr \<Rightarrow> ('a \<Rightarrow> 'a \<Rightarrow> 'a res) \<Rightarrow> 'a parr res" where
  "prim_binary_values lhs rhs op =
     assert_that (pa_len lhs = pa_len rhs)
       (let len = pa_len lhs; validity = combine_validities_and (pa_validity lhs) (pa_validity rhs)
        in if pa_owned lhs
           then rbind (ptr_binary_left op [0..<len] (pa_values lhs) (pa_values rhs)) (\<lambda>vs.
                with_validity validity (lhs\<lparr>pa_values := vs\<rparr>))
           else if pa_owned rhs
           then rbind (ptr_binary_right op [0..<len] (pa_values lhs) (pa_values rhs)) (\<lambda>vs.
                with_validity validity (rhs\<lparr>pa_values := vs\<rparr>))
           else rbind (ptr_binary_copy op [0..<len] (pa_values lhs) (pa_values rhs) (replicate len None)) (\<lambda>out.
                rbind (mem_slice out 0 len) (\<lambda>vs. with_validity validity (from_vec vs))))"

subsection \<open>Equality kernels\<close>

definition tot_eq_kernel :: "'a parr \<Rightarrow> 'a parr \<Rightarrow> bool list res" where
  "tot_eq_kernel a b =
     assert_that (pa_len a = pa_len b) (Inr (map2 (\<lambda>l r. l = r) (pa_values a) (pa_values b)))"

definition tot_ne_kernel :: "'a parr \<Rightarrow> 'a parr \<Rightarrow> bool list res" where
  "tot_ne_kernel a b =
     assert_that (pa_len a = pa_len b) (Inr (map2 (\<lambda>l r. l \<noteq> r) (pa_values a) (pa_values b)))"

definition tot_eq_kernel_broadcast :: "'a parr \<Rightarrow> 'a \<Rightarrow> bool list" where
  "tot_eq_kernel_broadcast a other = map (\<lambda>l. l = other) (pa_values a)"

definition tot_ne_kernel_broadcast :: "'a parr \<Rightarrow> 'a \<Rightarrow> bool list" where
  "tot_ne_kernel_broadcast a other = map (\<lambda>l. l \<noteq> other) (pa_values a)"

definition tot_eq_missing_kernel :: "'a parr \<Rightarrow> 'a parr \<Rightarrow> bool list res" where
  "tot_eq_missing_kernel a b =
     rbind (tot_eq_kernel a b) (\<lambda>q. Inr (case (pa_validity a, pa_validity b) of
         (None, None) \<Rightarrow> q
       | (None, Some r) \<Rightarrow> bitand q r
       | (Some l, None) \<Rightarrow> bitand q l
       | (Some l, Some r) \<Rightarrow> ternary q l r (\<lambda>q l r. (q \<and> l \<and> r) \<or> \<not> (l \<or> r))))"

definition tot_ne_missing_kernel :: "'a parr \<Rightarrow> 'a parr \<Rightarrow> bool list res" where
  "tot_ne_missing_kernel a b =
     rbind (tot_ne_kernel a b) (\<lambda>q. Inr (case (pa_validity a, pa_validity b) of
         (None, None) \<Rightarrow> q
       | (None, Some r) \<Rightarrow> map2 (\<or>) q (map Not r)
       | (Some l, None) \<Rightarrow> map2 (\<or>) q (map Not l)
       | (Some l, Some r) \<Rightarrow> ternary q l r (\<lambda>q l r. (q \<and> l \<and> r) \<or> (l \<noteq> r))))"

definition tot_eq_missing_kernel_broadcast :: "'a parr \<Rightarrow> 'a \<Rightarrow> bool list" where
  "tot_eq_missing_kernel_broadcast a other =
     (let q = tot_eq_kernel_broadcast a other
      in case pa_validity a of Some valid \<Rightarrow> map2 (\<lambda>q v. q \<and> v) q valid | None \<Rightarrow> q)"

definition tot_ne_missing_kernel_broadcast :: "'a parr \<Rightarrow> 'a \<Rightarrow> bool list" where
  "tot_ne_missing_kernel_broadcast a other =
     (let q = tot_ne_kernel_broadcast a other
      in case pa_validity a of Some valid \<Rightarrow> map2 (\<lambda>q v. q \<or> \<not> v) q valid | None \<Rightarrow> q)"

subsection \<open>The loops compute the element-wise map\<close>

text \<open>Element-wise application that stops at the first panic, the specification of the loops.\<close>

fun mapR :: "('a \<Rightarrow> 'b res) \<Rightarrow> 'a list \<Rightarrow> 'b list res" where
  "mapR f [] = Inr []"
| "mapR f (x # xs) = rbind (f x) (\<lambda>y. rbind (mapR f xs) (\<lambda>ys. Inr (y # ys)))"

lemma mapR_Inr [simp]: "mapR (\<lambda>x. Inr (f x)) xs = Inr (map f xs)"
  by (induction xs) auto

lemma mapR_length: "mapR f xs = Inr ys \<Longrightarrow> length ys = length xs"
  by (induction xs arbitrary: ys) (auto simp: rbind_eq_Inr_iff)

lemma list_update_take_drop: "i < length m \<Longrightarrow> m[i := x] = take i m @ x # drop (Suc i) m"
  by (rule upd_conv_take_nth_drop)

lemma ptr_unary_inplace_from:
  "k \<le> length m \<Longrightarrow>
   ptr_unary_inplace op [k..<length m] m = rbind (mapR op (drop k m)) (\<lambda>ys. Inr (take k m @ ys))"
proof (induction "length m - k" arbitrary: k m)
  case 0
  then show ?case by simp
next
  case (Suc n)
  then have k: "k < length m" by simp
  have IH: "ptr_unary_inplace op [Suc k..<length m] (m[k := y])
      = rbind (mapR op (drop (Suc k) m)) (\<lambda>ys. Inr (take k m @ y # ys))" for y
    using Suc.hyps(1) [of "m[k := y]" "Suc k"] Suc.hyps(2) k
    by (simp add: take_Suc_conv_app_nth)
  show ?case
    using k by (cases "op (m ! k)")
      (simp_all add: upt_conv_Cons IH Cons_nth_drop_Suc [symmetric] rbind_assoc)
qed

lemma ptr_unary_copy_from:
  "k \<le> length m \<Longrightarrow> length out = length m \<Longrightarrow>
   ptr_unary_copy op [k..<length m] m out
     = rbind (mapR op (drop k m)) (\<lambda>ys. Inr (take k out @ map Some ys))"
proof (induction "length m - k" arbitrary: k out)
  case 0
  then show ?case by simp
next
  case (Suc n)
  then have k: "k < length m" by simp
  have IH: "ptr_unary_copy op [Suc k..<length m] m (out[k := Some y])
      = rbind (mapR op (drop (Suc k) m)) (\<lambda>ys. Inr (take k out @ Some y # map Some ys))" for y
    using Suc.hyps(1) [of "Suc k" "out[k := Some y]"] Suc.hyps(2) Suc.prems k
    by (simp add: take_Suc_conv_app_nth)
  show ?case
    using k Suc.prems by (cases "op (m ! k)")
      (simp_all add: upt_conv_Cons IH Cons_nth_drop_Suc [symmetric] rbind_assoc mem_simps)
qed

lemma ptr_binary_left_from:
  "k \<le> length l \<Longrightarrow> length l = length r \<Longrightarrow>
   ptr_binary_left op [k..<length l] l r
     = rbind (mapR (\<lambda>(x, y). op x y) (zip (drop k l) (drop k r))) (\<lambda>ys. Inr (take k l @ ys))"
proof (induction "length l - k" arbitrary: k l)
  case 0
  then show ?case by simp
next
  case (Suc n)
  then have k: "k < length l" "k < length r" by auto
  have IH: "ptr_binary_left op [Suc k..<length l] (l[k := y]) r
      = rbind (mapR (\<lambda>(x, y). op x y) (zip (drop (Suc k) l) (drop (Suc k) r)))
          (\<lambda>ys. Inr (take k l @ y # ys))" for y
    using Suc.hyps(1) [of "l[k := y]" "Suc k"] Suc.hyps(2) Suc.prems k
    by (simp add: take_Suc_conv_app_nth)
  show ?case
    using k by (cases "op (l ! k) (r ! k)")
      (simp_all add: upt_conv_Cons IH Cons_nth_drop_Suc [symmetric] rbind_assoc)
qed

lemma ptr_binary_right_from:
  "k \<le> length r \<Longrightarrow> length l = length r \<Longrightarrow>
   ptr_binary_right op [k..<length r] l r
     = rbind (mapR (\<lambda>(x, y). op x y) (zip (drop k l) (drop k r))) (\<lambda>ys. Inr (take k r @ ys))"
proof (induction "length r - k" arbitrary: k r)
  case 0
  then show ?case by simp
next
  case (Suc n)
  then have k: "k < length l" "k < length r" by auto
  have IH: "ptr_binary_right op [Suc k..<length r] l (r[k := y])
      = rbind (mapR (\<lambda>(x, y). op x y) (zip (drop (Suc k) l) (drop (Suc k) r)))
          (\<lambda>ys. Inr (take k r @ y # ys))" for y
    using Suc.hyps(1) [of "r[k := y]" "Suc k"] Suc.hyps(2) Suc.prems k
    by (simp add: take_Suc_conv_app_nth)
  show ?case
    using k by (cases "op (l ! k) (r ! k)")
      (simp_all add: upt_conv_Cons IH Cons_nth_drop_Suc [symmetric] rbind_assoc)
qed

lemma ptr_binary_copy_from:
  "k \<le> length l \<Longrightarrow> length l = length r \<Longrightarrow> length out = length l \<Longrightarrow>
   ptr_binary_copy op [k..<length l] l r out
     = rbind (mapR (\<lambda>(x, y). op x y) (zip (drop k l) (drop k r))) (\<lambda>ys. Inr (take k out @ map Some ys))"
proof (induction "length l - k" arbitrary: k out)
  case 0
  then show ?case by simp
next
  case (Suc n)
  then have k: "k < length l" "k < length r" by auto
  have IH: "ptr_binary_copy op [Suc k..<length l] l r (out[k := Some y])
      = rbind (mapR (\<lambda>(x, y). op x y) (zip (drop (Suc k) l) (drop (Suc k) r)))
          (\<lambda>ys. Inr (take k out @ Some y # map Some ys))" for y
    using Suc.hyps(1) [of "Suc k" "out[k := Some y]"] Suc.hyps(2) Suc.prems k
    by (simp add: take_Suc_conv_app_nth)
  show ?case
    using k Suc.prems(3) by (cases "op (l ! k) (r ! k)")
      (simp_all add: upt_conv_Cons IH Cons_nth_drop_Suc [symmetric] rbind_assoc mem_simps)
qed

lemma mem_slice_map_Some [simp]: "mem_slice (map Some ys) 0 (length ys) = Inr ys"
  by (auto simp: mem_slice_def comp_def)

lemma with_validity_eq:
  "mask_fits v (length (pa_values a)) \<Longrightarrow> with_validity v a = Inr (a\<lparr>pa_validity := v\<rparr>)"
  by (simp add: with_validity_def pa_len_def)

lemma combine_validities_and_fits:
  "mask_fits u n \<Longrightarrow> mask_fits v n \<Longrightarrow> mask_fits (combine_validities_and u v) n"
  by (cases u; cases v) (auto simp: bitand_def)

text \<open>Whichever buffer is reused, the values are the mapped values and the validity is kept.\<close>

lemma prim_unary_values_eq:
  assumes "pa_inv arr"
  shows "prim_unary_values arr op
    = rbind (mapR op (pa_values arr)) (\<lambda>vs. Inr \<lparr>pa_values = vs, pa_validity = pa_validity arr, pa_owned = True\<rparr>)"
proof (cases "mapR op (pa_values arr)")
  case (Inl e)
  then show ?thesis
    using ptr_unary_inplace_from [of 0 "pa_values arr" op]
      ptr_unary_copy_from [of 0 "pa_values arr" "replicate (pa_len arr) None" op]
    by (simp add: prim_unary_values_def pa_len_def)
next
  case (Inr vs)
  have "with_validity (pa_validity arr) (from_vec vs)
      = Inr ((from_vec vs)\<lparr>pa_validity := pa_validity arr\<rparr>)"
    using assms mapR_length [OF Inr] by (simp add: with_validity_eq pa_inv_def pa_len_def from_vec_def)
  with Inr mapR_length [OF Inr] show ?thesis
    using ptr_unary_inplace_from [of 0 "pa_values arr" op]
      ptr_unary_copy_from [of 0 "pa_values arr" "replicate (pa_len arr) None" op]
      mem_slice_map_Some [of vs]
    by (simp add: prim_unary_values_def pa_len_def from_vec_def)
qed

lemma prim_binary_values_eq:
  assumes "pa_inv a" and "pa_inv b" and "pa_len a = pa_len b"
  shows "prim_binary_values a b op
    = rbind (mapR (\<lambda>(x, y). op x y) (zip (pa_values a) (pa_values b))) (\<lambda>vs.
      Inr \<lparr>pa_values = vs, pa_validity = combine_validities_and (pa_validity a) (pa_validity b), pa_owned = True\<rparr>)"
proof -
  let ?v = "combine_validities_and (pa_validity a) (pa_validity b)"
  have len: "length (pa_values a) = length (pa_values b)" using assms(3) by (simp add: pa_len_def)
  note loops = ptr_binary_left_from [of 0 "pa_values a" "pa_values b" op]
    ptr_binary_right_from [of 0 "pa_values b" "pa_values a" op]
    ptr_binary_copy_from [of 0 "pa_values a" "pa_values b" "replicate (pa_len a) None" op]
  show ?thesis
  proof (cases "mapR (\<lambda>(x, y). op x y) (zip (pa_values a) (pa_values b))")
    case (Inl e)
    with loops len show ?thesis by (simp add: prim_binary_values_def pa_len_def Let_def)
  next
    case (Inr vs)
    have vs: "length vs = length (pa_values a)" using mapR_length [OF Inr] len by simp
    have "mask_fits ?v (length vs)"
      using assms vs by (intro combine_validities_and_fits) (auto simp: pa_inv_def pa_len_def)
    then have "with_validity ?v c = Inr (c\<lparr>pa_validity := ?v\<rparr>)" if "pa_values c = vs" for c :: "'a parr"
      using that by (simp add: with_validity_eq)
    with Inr vs loops len mem_slice_map_Some [of vs] show ?thesis
      by (simp add: prim_binary_values_def pa_len_def from_vec_def Let_def)
  qed
qed

lemma length_mask_opt [simp]: "mask_fits v (length xs) \<Longrightarrow> length (mask_opt v xs) = length xs"
  by (cases v) (auto simp: mask_opt_def)

fun mask_at :: "bool list option \<Rightarrow> nat \<Rightarrow> bool" where
  "mask_at None i = True"
| "mask_at (Some bs) i = bs ! i"

lemma mask_opt_nth:
  "mask_fits v (length xs) \<Longrightarrow> i < length xs \<Longrightarrow>
   mask_opt v xs ! i = (if mask_at v i then Some (xs ! i) else None)"
  by (cases v) (auto simp: mask_opt_def)

lemma pa_opt_nth:
  "pa_inv a \<Longrightarrow> i < pa_len a \<Longrightarrow>
   pa_opt a ! i = (if mask_at (pa_validity a) i then Some (pa_values a ! i) else None)"
  by (simp add: pa_opt_def pa_inv_def pa_len_def mask_opt_nth)

lemma length_pa_opt [simp]: "pa_inv a \<Longrightarrow> length (pa_opt a) = pa_len a"
  by (simp add: pa_opt_def pa_inv_def pa_len_def)

subsection \<open>Properties\<close>

text \<open>
  C25. Comparing two arrays with nulls counting as equal to each other and to nothing else
  gives, at every position, whether the two logical elements are the same; the negated
  kernel gives the complement. The values hidden under nulls do not matter.
\<close>

theorem tot_eq_missing_kernel_correct:
  assumes "pa_inv a" and "pa_inv b" and "pa_len a = pa_len b"
  shows "tot_eq_missing_kernel a b = Inr (map2 (=) (pa_opt a) (pa_opt b)) \<and>
    tot_ne_missing_kernel a b = Inr (map2 (\<noteq>) (pa_opt a) (pa_opt b))"
proof -
  have "tot_eq_missing_kernel a b = Inr (map2 (=) (pa_opt a) (pa_opt b))"
    using assms unfolding tot_eq_missing_kernel_def tot_eq_kernel_def
    by (cases "pa_validity a"; cases "pa_validity b")
      (auto simp: pa_opt_nth pa_inv_def pa_len_def bitand_def ternary_def
        intro!: nth_equalityI split: if_splits)
  moreover have "tot_ne_missing_kernel a b = Inr (map2 (\<noteq>) (pa_opt a) (pa_opt b))"
    using assms unfolding tot_ne_missing_kernel_def tot_ne_kernel_def
    by (cases "pa_validity a"; cases "pa_validity b")
      (auto simp: pa_opt_nth pa_inv_def pa_len_def bitand_def ternary_def
        intro!: nth_equalityI split: if_splits)
  ultimately show ?thesis ..
qed

theorem tot_eq_missing_kernel_correct_witness:
  "tot_eq_missing_kernel
     \<lparr>pa_values = [1, 2, 3::int], pa_validity = Some [True, False, True], pa_owned = True\<rparr>
     \<lparr>pa_values = [1, 9, 4], pa_validity = Some [True, False, False], pa_owned = False\<rparr>
   = Inr [True, True, False]"
  using tot_eq_missing_kernel_correct [of
      "\<lparr>pa_values = [1, 2, 3::int], pa_validity = Some [True, False, True], pa_owned = True\<rparr>"
      "\<lparr>pa_values = [1, 9, 4], pa_validity = Some [True, False, False], pa_owned = False\<rparr>"]
  by (simp add: pa_inv_def pa_len_def pa_opt_def mask_opt_def)

text \<open>
  C26. Applying an operation to two arrays gives the same result whether the loop overwrites
  the buffer of the left operand, that of the right operand or fills a new allocation, and
  it never reads a cell of the new allocation that was not written: the values are those
  of the operation on the operands' values as they were before the loop, or the first
  panic of the operation.
\<close>

theorem prim_binary_values_alias_free:
  assumes "pa_inv a" and "pa_inv b" and "pa_len a = pa_len b"
  shows "prim_binary_values (a\<lparr>pa_owned := own_l\<rparr>) (b\<lparr>pa_owned := own_r\<rparr>) op
    = rbind (mapR (\<lambda>(x, y). op x y) (zip (pa_values a) (pa_values b))) (\<lambda>vs.
      Inr \<lparr>pa_values = vs, pa_validity = combine_validities_and (pa_validity a) (pa_validity b), pa_owned = True\<rparr>)"
  using prim_binary_values_eq [of "a\<lparr>pa_owned := own_l\<rparr>" "b\<lparr>pa_owned := own_r\<rparr>" op] assms
  by (simp add: pa_inv_def pa_len_def)

theorem prim_binary_values_alias_free_witness:
  "prim_binary_values ((from_vec [1, 2])\<lparr>pa_owned := False\<rparr>) ((from_vec [10, 20::int])\<lparr>pa_owned := True\<rparr>)
     (\<lambda>x y. Inr (y - x)) = Inr (from_vec [9, 18])"
  using prim_binary_values_alias_free [of "from_vec [1, 2]" "from_vec [10, 20::int]" False True
      "\<lambda>x y. Inr (y - x)"]
  by (simp add: pa_inv_def pa_len_def from_vec_def)

end
