(* ===== verification/Arithmetic.thy ===== *)
theory Arithmetic
  imports PrimArray "HOL-Library.Signed_Division"
begin

section \<open>Integer arithmetic kernels\<close>

text \<open>
  The kernels of \<^verbatim>\<open>crates/polars-compute/src/arithmetic/signed.rs\<close> and \<^verbatim>\<open>unsigned.rs\<close>, and
  the flooring division of \<^verbatim>\<open>crates/polars-utils/src/floor_divmod.rs\<close> they call. The
  sources are macros over the integer type; here the bit width \<open>w\<close> is a parameter, a
  value is an integer in the range of the type, and every operation that wraps says so
  through \<open>swrap\<close> or \<open>uwrap\<close>. The division by a prepared divisor of the third-party crate
  \<^verbatim>\<open>strength_reduce\<close> is a parameter \<open>sr\<close> of the kernels that use it; the hypothesis \<open>reduces\<close>
  says what the crate documents of it. The cargo feature \<^verbatim>\<open>consistent_arithmetic\<close> is the
  boolean parameter \<open>consistent\<close>.

  The lemmas give each kernel its mathematical meaning: flooring quotient and remainder,
  null where the divisor is zero or an operand is null, wrap-around in the one case that
  overflows; and they compare the kernels for a scalar operand with those for arrays.
\<close>

subsection \<open>Wrap-around\<close>

definition swrap :: "nat \<Rightarrow> int \<Rightarrow> int" where
  "swrap w x = (x + 2 ^ (w - 1)) mod 2 ^ w - 2 ^ (w - 1)"

definition uwrap :: "nat \<Rightarrow> int \<Rightarrow> int" where
  "uwrap w x = x mod 2 ^ w"

definition srange :: "nat \<Rightarrow> int \<Rightarrow> bool" where
  "srange w x \<longleftrightarrow> 0 < w \<and> - (2 ^ (w - 1)) \<le> x \<and> x < 2 ^ (w - 1)"

definition urange :: "nat \<Rightarrow> int \<Rightarrow> bool" where
  "urange w x \<longleftrightarrow> 0 < w \<and> 0 \<le> x \<and> x < 2 ^ w"

fun trailing_zeros :: "nat \<Rightarrow> nat" where
  "trailing_zeros n = (if n = 0 \<or> odd n then 0 else Suc (trailing_zeros (n div 2)))"

declare trailing_zeros.simps [simp del]

subsection \<open>Flooring division\<close>

definition wrapping_div :: "nat \<Rightarrow> int \<Rightarrow> int \<Rightarrow> int" where
  "wrapping_div w x y = swrap w (x sdiv y)"

definition wrapping_rem :: "nat \<Rightarrow> int \<Rightarrow> int \<Rightarrow> int" where
  "wrapping_rem w x y = swrap w (x smod y)"

definition wrapping_floor_div_mod :: "nat \<Rightarrow> int \<Rightarrow> int \<Rightarrow> int \<times> int" where
  "wrapping_floor_div_mod w self other =
     (if other = 0 then (0, 0)
      else let div' = wrapping_div w self other; mod' = wrapping_rem w self other
           in if mod' \<noteq> 0 \<and> (self < 0) \<noteq> (other < 0)
              then (swrap w (div' - 1), swrap w (mod' + other))
              else (div', mod'))"

text \<open>Rust's built-in remainder panics on a zero divisor and when the quotient overflows.\<close>

definition rust_rem :: "nat \<Rightarrow> int \<Rightarrow> int \<Rightarrow> int res" where
  "rust_rem w x y =
     (if y = 0 \<or> (x = - (2 ^ (w - 1)) \<and> y = -1) then Inl Panic else Inr (x smod y))"

text \<open>
  The operations of a type \<open>'r\<close> of prepared divisors for unsigned integers of \<open>w\<close> bits. The
  hypothesis: dividing by a divisor prepared from a number that is not zero gives the quotient
  and the remainder by that number.
\<close>

record 'r strength_reduced =
  sr_new :: "int \<Rightarrow> 'r"
  sr_div_rem :: "int \<Rightarrow> 'r \<Rightarrow> int \<times> int"
  sr_div :: "int \<Rightarrow> 'r \<Rightarrow> int"
  sr_rem :: "int \<Rightarrow> 'r \<Rightarrow> int"

definition reduces :: "nat \<Rightarrow> 'r strength_reduced \<Rightarrow> bool" where
  "reduces w sr \<longleftrightarrow> (\<forall>n d. urange w n \<longrightarrow> urange w d \<longrightarrow> d \<noteq> 0 \<longrightarrow>
     sr_div_rem sr n (sr_new sr d) = (n div d, n mod d) \<and>
     sr_div sr n (sr_new sr d) = n div d \<and> sr_rem sr n (sr_new sr d) = n mod d)"

text \<open>An instance, for evaluating the kernels: the divisor itself is kept.\<close>

definition plain_division :: "int strength_reduced" where
  "plain_division = \<lparr>sr_new = (\<lambda>d. d), sr_div_rem = (\<lambda>n d. (n div d, n mod d)), sr_div = (div), sr_rem = (mod)\<rparr>"

subsection \<open>Signed kernels\<close>

definition prim_wrapping_abs :: "nat \<Rightarrow> int parr \<Rightarrow> int parr res" where
  "prim_wrapping_abs w lhs = prim_unary_values lhs (\<lambda>x. Inr (swrap w \<bar>x\<bar>))"

definition prim_wrapping_neg :: "nat \<Rightarrow> int parr \<Rightarrow> int parr res" where
  "prim_wrapping_neg w lhs = prim_unary_values lhs (\<lambda>x. Inr (swrap w (- x)))"

definition prim_wrapping_add :: "nat \<Rightarrow> int parr \<Rightarrow> int parr \<Rightarrow> int parr res" where
  "prim_wrapping_add w lhs other = prim_binary_values lhs other (\<lambda>a b. Inr (swrap w (a + b)))"

definition prim_wrapping_sub :: "nat \<Rightarrow> int parr \<Rightarrow> int parr \<Rightarrow> int parr res" where
  "prim_wrapping_sub w lhs other = prim_binary_values lhs other (\<lambda>a b. Inr (swrap w (a - b)))"

definition prim_wrapping_mul :: "nat \<Rightarrow> int parr \<Rightarrow> int parr \<Rightarrow> int parr res" where
  "prim_wrapping_mul w lhs other = prim_binary_values lhs other (\<lambda>a b. Inr (swrap w (a * b)))"

text \<open>The division kernels mask out zero divisors and combine the validities once.\<close>

definition div_masked :: "int parr \<Rightarrow> int parr \<Rightarrow> (int \<Rightarrow> int \<Rightarrow> int res) \<Rightarrow> int parr res" where
  "div_masked lhs other op =
     (let mask = tot_ne_kernel_broadcast other 0;
          (lv, lhs') = take_validity lhs; (ov, other') = take_validity other;
          valid = combine_validities_and3 lv ov (Some mask)
      in rbind (prim_binary_values lhs' other' op) (with_validity valid))"

definition prim_wrapping_floor_div :: "nat \<Rightarrow> int parr \<Rightarrow> int parr \<Rightarrow> int parr res" where
  "prim_wrapping_floor_div w lhs other =
     div_masked lhs other (\<lambda>x y. Inr (fst (wrapping_floor_div_mod w x y)))"

definition prim_wrapping_trunc_div :: "nat \<Rightarrow> int parr \<Rightarrow> int parr \<Rightarrow> int parr res" where
  "prim_wrapping_trunc_div w lhs other =
     div_masked lhs other (\<lambda>x y. Inr (if y \<noteq> 0 then wrapping_div w x y else 0))"

definition prim_wrapping_mod :: "bool \<Rightarrow> nat \<Rightarrow> int parr \<Rightarrow> int parr \<Rightarrow> int parr res" where
  "prim_wrapping_mod consistent w lhs other =
     div_masked lhs other (\<lambda>x y.
       if consistent then (if y \<noteq> 0 then rust_rem w x y else Inr 0)
       else Inr (snd (wrapping_floor_div_mod w x y)))"

definition prim_wrapping_add_scalar :: "nat \<Rightarrow> int parr \<Rightarrow> int \<Rightarrow> int parr res" where
  "prim_wrapping_add_scalar w lhs rhs = prim_unary_values lhs (\<lambda>x. Inr (swrap w (x + rhs)))"

definition prim_wrapping_sub_scalar :: "nat \<Rightarrow> int parr \<Rightarrow> int \<Rightarrow> int parr res" where
  "prim_wrapping_sub_scalar w lhs rhs = prim_wrapping_add_scalar w lhs (swrap w (- rhs))"

definition prim_wrapping_sub_scalar_lhs :: "nat \<Rightarrow> int \<Rightarrow> int parr \<Rightarrow> int parr res" where
  "prim_wrapping_sub_scalar_lhs w lhs rhs = prim_unary_values rhs (\<lambda>x. Inr (swrap w (lhs - x)))"

definition prim_wrapping_mul_scalar :: "nat \<Rightarrow> int parr \<Rightarrow> int \<Rightarrow> int parr res" where
  "prim_wrapping_mul_scalar w lhs rhs =
     (let scalar_u = \<bar>rhs\<bar>
      in if rhs = 0 then Inr (fill_with 0 lhs)
         else if rhs = 1 then Inr lhs
         else if scalar_u AND (scalar_u - 1) = 0 then
           let shift = trailing_zeros (nat scalar_u)
           in if rhs > 0 then prim_unary_values lhs (\<lambda>x. Inr (swrap w (x * 2 ^ shift)))
              else prim_unary_values lhs (\<lambda>x. Inr (swrap w (- swrap w (x * 2 ^ shift))))
         else prim_unary_values lhs (\<lambda>x. Inr (swrap w (x * rhs))))"

definition prim_wrapping_floor_div_scalar ::
    "'r strength_reduced \<Rightarrow> nat \<Rightarrow> int parr \<Rightarrow> int \<Rightarrow> int parr res" where
  "prim_wrapping_floor_div_scalar sr w lhs rhs =
     (if rhs = 0 then Inr (new_null 0 (pa_len lhs))
      else if rhs = -1 then prim_wrapping_neg w lhs
      else if rhs = 1 then Inr lhs
      else let red = sr_new sr \<bar>rhs\<bar>
           in prim_unary_values lhs (\<lambda>x.
             let (quot, rem) = sr_div_rem sr \<bar>x\<bar> red
             in if (x < 0) \<noteq> (rhs < 0) then
                  let ret = swrap w (- swrap w quot)
                  in Inr (if rem \<noteq> 0 then swrap w (ret - 1) else ret)
                else Inr (swrap w quot)))"

definition prim_wrapping_floor_div_scalar_lhs :: "nat \<Rightarrow> int \<Rightarrow> int parr \<Rightarrow> int parr res" where
  "prim_wrapping_floor_div_scalar_lhs w lhs rhs =
     (if lhs = 0 then Inr (fill_with 0 rhs)
      else let mask = tot_ne_kernel_broadcast rhs 0;
               valid = combine_validities_and (pa_validity rhs) (Some mask)
           in rbind (prim_unary_values rhs (\<lambda>x. Inr (fst (wrapping_floor_div_mod w lhs x))))
                (with_validity valid))"

definition prim_wrapping_trunc_div_scalar ::
    "'r strength_reduced \<Rightarrow> nat \<Rightarrow> int parr \<Rightarrow> int \<Rightarrow> int parr res" where
  "prim_wrapping_trunc_div_scalar sr w lhs rhs =
     (if rhs = 0 then Inr (new_null 0 (pa_len lhs))
      else if rhs = -1 then prim_wrapping_neg w lhs
      else if rhs = 1 then Inr lhs
      else let red = sr_new sr \<bar>rhs\<bar>
           in prim_unary_values lhs (\<lambda>x.
             let quot = sr_div sr \<bar>x\<bar> red
             in Inr (if (x < 0) \<noteq> (rhs < 0) then swrap w (- swrap w quot) else swrap w quot)))"

definition prim_wrapping_trunc_div_scalar_lhs :: "nat \<Rightarrow> int \<Rightarrow> int parr \<Rightarrow> int parr res" where
  "prim_wrapping_trunc_div_scalar_lhs w lhs rhs =
     (if lhs = 0 then Inr (fill_with 0 rhs)
      else let mask = tot_ne_kernel_broadcast rhs 0;
               valid = combine_validities_and (pa_validity rhs) (Some mask)
           in rbind (prim_unary_values rhs (\<lambda>x. Inr (if x \<noteq> 0 then wrapping_div w lhs x else 0)))
                (with_validity valid))"

definition mod_scalar_elem :: "'r strength_reduced \<Rightarrow> nat \<Rightarrow> int \<Rightarrow> int \<Rightarrow> int" where
  "mod_scalar_elem sr w rhs x =
     (let scalar_u = \<bar>rhs\<bar>;
          red = sr_new sr scalar_u;
          rem_u = sr_rem sr \<bar>x\<bar> red;
          rem_u = (if rem_u \<noteq> 0 \<and> (rhs < 0) \<noteq> (x < 0) then scalar_u - rem_u else rem_u)
      in if rhs < 0 then swrap w (- swrap w rem_u) else swrap w rem_u)"

definition prim_wrapping_mod_scalar ::
    "'r strength_reduced \<Rightarrow> bool \<Rightarrow> nat \<Rightarrow> int parr \<Rightarrow> int \<Rightarrow> int parr res" where
  "prim_wrapping_mod_scalar sr consistent w lhs rhs =
     (if rhs = 0 then Inr (new_null 0 (pa_len lhs))
      else if rhs = -1 \<or> rhs = 1 then Inr (fill_with 0 lhs)
      else if consistent then prim_unary_values lhs (\<lambda>x. rust_rem w x rhs)
      else prim_unary_values lhs (\<lambda>x. Inr (mod_scalar_elem sr w rhs x)))"

definition prim_wrapping_mod_scalar_lhs :: "bool \<Rightarrow> nat \<Rightarrow> int \<Rightarrow> int parr \<Rightarrow> int parr res" where
  "prim_wrapping_mod_scalar_lhs consistent w lhs rhs =
     (if lhs = 0 then Inr (fill_with 0 rhs)
      else let mask = tot_ne_kernel_broadcast rhs 0;
               valid = combine_validities_and (pa_validity rhs) (Some mask)
           in rbind (prim_unary_values rhs (\<lambda>x.
                if consistent then (if x \<noteq> 0 then rust_rem w lhs x else Inr 0)
                else Inr (snd (wrapping_floor_div_mod w lhs x))))
                (with_validity valid))"

subsection \<open>Unsigned kernels\<close>

definition prim_wrapping_abs_u :: "nat \<Rightarrow> int parr \<Rightarrow> int parr res" where
  "prim_wrapping_abs_u w lhs = Inr lhs"

definition prim_wrapping_neg_u :: "nat \<Rightarrow> int parr \<Rightarrow> int parr res" where
  "prim_wrapping_neg_u w lhs = prim_unary_values lhs (\<lambda>x. Inr (uwrap w (- x)))"

definition prim_wrapping_add_u :: "nat \<Rightarrow> int parr \<Rightarrow> int parr \<Rightarrow> int parr res" where
  "prim_wrapping_add_u w lhs other = prim_binary_values lhs other (\<lambda>a b. Inr (uwrap w (a + b)))"

definition prim_wrapping_sub_u :: "nat \<Rightarrow> int parr \<Rightarrow> int parr \<Rightarrow> int parr res" where
  "prim_wrapping_sub_u w lhs other = prim_binary_values lhs other (\<lambda>a b. Inr (uwrap w (a - b)))"

definition prim_wrapping_mul_u :: "nat \<Rightarrow> int parr \<Rightarrow> int parr \<Rightarrow> int parr res" where
  "prim_wrapping_mul_u w lhs other = prim_binary_values lhs other (\<lambda>a b. Inr (uwrap w (a * b)))"

definition prim_wrapping_floor_div_u :: "nat \<Rightarrow> int parr \<Rightarrow> int parr \<Rightarrow> int parr res" where
  "prim_wrapping_floor_div_u w lhs other =
     div_masked lhs other (\<lambda>a b. Inr (if b \<noteq> 0 then a div b else 0))"

definition prim_wrapping_mod_u :: "nat \<Rightarrow> int parr \<Rightarrow> int parr \<Rightarrow> int parr res" where
  "prim_wrapping_mod_u w lhs other =
     div_masked lhs other (\<lambda>a b. Inr (if b \<noteq> 0 then a mod b else 0))"

definition prim_wrapping_add_scalar_u :: "nat \<Rightarrow> int parr \<Rightarrow> int \<Rightarrow> int parr res" where
  "prim_wrapping_add_scalar_u w lhs rhs = prim_unary_values lhs (\<lambda>x. Inr (uwrap w (x + rhs)))"

definition prim_wrapping_sub_scalar_u :: "nat \<Rightarrow> int parr \<Rightarrow> int \<Rightarrow> int parr res" where
  "prim_wrapping_sub_scalar_u w lhs rhs = prim_wrapping_add_scalar_u w lhs (uwrap w (- rhs))"

definition prim_wrapping_sub_scalar_lhs_u :: "nat \<Rightarrow> int \<Rightarrow> int parr \<Rightarrow> int parr res" where
  "prim_wrapping_sub_scalar_lhs_u w lhs rhs = prim_unary_values rhs (\<lambda>x. Inr (uwrap w (lhs - x)))"

definition prim_wrapping_mul_scalar_u :: "nat \<Rightarrow> int parr \<Rightarrow> int \<Rightarrow> int parr res" where
  "prim_wrapping_mul_scalar_u w lhs rhs =
     (if rhs = 0 then Inr (fill_with 0 lhs)
      else if rhs = 1 then Inr lhs
      else if rhs AND (rhs - 1) = 0 then
        let shift = trailing_zeros (nat rhs)
        in prim_unary_values lhs (\<lambda>x. Inr (uwrap w (x * 2 ^ shift)))
      else prim_unary_values lhs (\<lambda>x. Inr (uwrap w (x * rhs))))"

definition prim_wrapping_floor_div_scalar_u ::
    "'r strength_reduced \<Rightarrow> nat \<Rightarrow> int parr \<Rightarrow> int \<Rightarrow> int parr res" where
  "prim_wrapping_floor_div_scalar_u sr w lhs rhs =
     (if rhs = 0 then Inr (new_null 0 (pa_len lhs))
      else if rhs = 1 then Inr lhs
      else let red = sr_new sr rhs
           in prim_unary_values lhs (\<lambda>x. Inr (sr_div sr x red)))"

definition prim_wrapping_floor_div_scalar_lhs_u :: "nat \<Rightarrow> int \<Rightarrow> int parr \<Rightarrow> int parr res" where
  "prim_wrapping_floor_div_scalar_lhs_u w lhs rhs =
     (if lhs = 0 then Inr (fill_with 0 rhs)
      else let mask = tot_ne_kernel_broadcast rhs 0;
               valid = combine_validities_and (pa_validity rhs) (Some mask)
           in rbind (prim_unary_values rhs (\<lambda>x. Inr (if x \<noteq> 0 then lhs div x else 0)))
                (with_validity valid))"

definition prim_wrapping_mod_scalar_u ::
    "'r strength_reduced \<Rightarrow> nat \<Rightarrow> int parr \<Rightarrow> int \<Rightarrow> int parr res" where
  "prim_wrapping_mod_scalar_u sr w lhs rhs =
     (if rhs = 0 then Inr (new_null 0 (pa_len lhs))
      else if rhs = 1 then Inr (fill_with 0 lhs)
      else let red = sr_new sr rhs
           in prim_unary_values lhs (\<lambda>x. Inr (sr_rem sr x red)))"

definition prim_wrapping_mod_scalar_lhs_u :: "nat \<Rightarrow> int \<Rightarrow> int parr \<Rightarrow> int parr res" where
  "prim_wrapping_mod_scalar_lhs_u w lhs rhs =
     (if lhs = 0 then Inr (fill_with 0 rhs)
      else let mask = tot_ne_kernel_broadcast rhs 0;
               valid = combine_validities_and (pa_validity rhs) (Some mask)
           in rbind (prim_unary_values rhs (\<lambda>x. Inr (if x \<noteq> 0 then lhs mod x else 0)))
                (with_validity valid))"

subsection \<open>Laws of wrap-around\<close>

text \<open>
  What the kernels rely on in either signedness: a value in range is left alone, and
  wrapping may be delayed past addition, negation and multiplication.
\<close>

locale wrapping =
  fixes wrap :: "int \<Rightarrow> int" and rng :: "int \<Rightarrow> bool"
  assumes wrap_id: "rng x \<Longrightarrow> wrap x = x"
    and wrap_add: "wrap (x + wrap y) = wrap (x + y)"
    and wrap_mult: "wrap (x * wrap y) = wrap (x * y)"
begin

lemma wrap_neg: "wrap (- wrap y) = wrap (- y)"
  using wrap_mult [of "- 1" y] by simp

lemma sub_via_add_neg: "wrap (x + wrap (- y)) = wrap (x - y)"
  by (simp add: wrap_add)

lemma mul_via_shift_neg: "r = - (2 ^ k) \<Longrightarrow> wrap (- wrap (x * 2 ^ k)) = wrap (x * r)"
  by (simp add: wrap_neg)

lemma wrap_dec: "wrap (wrap y - 1) = wrap (y - 1)"
  using wrap_add [of "- 1" y] by simp

end

lemma swrap_cong: "x mod 2 ^ w = y mod 2 ^ w \<Longrightarrow> swrap w x = swrap w y"
  unfolding swrap_def by (metis mod_add_cong)

lemma swrap_mod: "swrap w x mod 2 ^ w = x mod 2 ^ w"
  by (simp add: swrap_def mod_diff_left_eq)

lemma two_power_pred: "0 < w \<Longrightarrow> (2::int) ^ w = 2 * 2 ^ (w - 1)"
  by (cases w) auto

interpretation sw: wrapping "swrap w" "srange w"
proof
  fix x assume "srange w x"
  then have "0 \<le> x + 2 ^ (w - 1)" "x + 2 ^ (w - 1) < 2 ^ w"
    using two_power_pred [of w] by (auto simp: srange_def)
  then show "swrap w x = x" by (simp add: swrap_def)
next
  fix x y
  show "swrap w (x + swrap w y) = swrap w (x + y)"
    by (rule swrap_cong) (metis swrap_mod mod_add_right_eq)
  show "swrap w (x * swrap w y) = swrap w (x * y)"
    by (rule swrap_cong) (metis swrap_mod mod_mult_right_eq)
qed

interpretation uw: wrapping "uwrap w" "urange w"
  by unfold_locales (auto simp: uwrap_def urange_def mod_simps)

lemma swrap_range: "0 < w \<Longrightarrow> srange w (swrap w x)"
  using two_power_pred [of w] pos_mod_bound [of "2 ^ w" "x + 2 ^ (w - 1)"]
    pos_mod_sign [of "2 ^ w" "x + 2 ^ (w - 1)"]
  by (auto simp: swrap_def srange_def)

text \<open>The power-of-two test of the multiplication kernels.\<close>

lemma pow2_test: "0 < u \<Longrightarrow> (u::nat) AND (u - 1) = 0 \<Longrightarrow> u = 2 ^ trailing_zeros u"
proof (induction u rule: less_induct)
  case (less u)
  show ?case
  proof (cases "odd u")
    case True
    then obtain m where m: "u = Suc (2 * m)" by (metis oddE Suc_eq_plus1)
    then have "u AND (u - 1) = 2 * m" by (simp add: and_nat_unfold [of "Suc (2 * m)"])
    with less.prems m show ?thesis by (simp add: trailing_zeros.simps)
  next
    case False
    then obtain m where m: "u = 2 * m" by (auto elim: evenE)
    with less.prems have pos: "0 < m" by simp
    then have "u - 1 = Suc (2 * (m - 1))" using m by simp
    then have "u AND (u - 1) = 2 * (m AND (m - 1))"
      using m by (simp add: and_nat_unfold [of "2 * m"])
    with less.prems pos m less.IH [of m] have "m = 2 ^ trailing_zeros m" by simp
    with m pos show ?thesis by (subst trailing_zeros.simps) simp
  qed
qed

lemma pow2_test_int:
  assumes "0 < (u::int)" and "u AND (u - 1) = 0"
  shows "u = 2 ^ trailing_zeros (nat u)"
proof -
  obtain n where n: "u = int n" "0 < n" using assms(1) by (metis zero_less_imp_eq_int of_nat_0_less_iff)
  then have "int (n AND (n - 1)) = 0"
    using assms(2) by (simp add: of_nat_and_eq of_nat_diff)
  with n pow2_test [of n] show ?thesis
    by (metis of_nat_eq_0_iff nat_int of_nat_numeral of_nat_power)
qed

subsection \<open>Flooring division is flooring division\<close>

lemma srange_smod: "srange w y \<Longrightarrow> y \<noteq> 0 \<Longrightarrow> srange w (x smod y)"
  using smod_int_range [of y x] by (auto simp: srange_def abs_if split: if_splits)

lemma srange_mod:
  assumes "srange w y" and "y \<noteq> 0"
  shows "srange w (x mod y)"
proof (cases "0 < y")
  case True
  have "x mod y < y" "0 \<le> x mod y" using True by simp_all
  with assms True show ?thesis unfolding srange_def by linarith
next
  case False
  have "y < x mod y" "x mod y \<le> 0" using False assms(2) by simp_all
  with assms False show ?thesis unfolding srange_def by linarith
qed

lemma smod_eq_0_iff: "(x::int) smod y = 0 \<longleftrightarrow> y dvd x"
  by (auto simp: signed_modulo_int_def sgn_eq_0_iff mod_eq_0_iff_dvd)

lemma wrapping_floor_div_mod_eq:
  assumes "srange w x" and "srange w y" and "y \<noteq> 0"
  shows "wrapping_floor_div_mod w x y = (swrap w (x div y), x mod y)"
proof -
  have rem: "wrapping_rem w x y = x smod y"
    using assms by (simp add: wrapping_rem_def sw.wrap_id srange_smod)
  show ?thesis
  proof (cases "y dvd x")
    case True
    then show ?thesis
      using assms(3) rem
      by (simp add: wrapping_floor_div_mod_def wrapping_div_def smod_eq_0_iff
          signed_divide_int_eq_divide_int signed_modulo_int_eq_modulo_int)
  next
    case False
    then have sgn: "(x < 0) \<noteq> (y < 0) \<longleftrightarrow> sgn x \<noteq> sgn y"
      using assms(3) by (auto simp: sgn_if)
    have mod_range: "srange w (x mod y)"
      using assms(2,3) by (rule srange_mod)
    have "x mod y \<noteq> y"
      using assms(3) by (metis mod_mod_trivial mod_self)
    then show ?thesis
      using False assms(3) sgn mod_range rem
      by (simp add: Let_def wrapping_floor_div_mod_def wrapping_div_def smod_eq_0_iff sw.wrap_dec sw.wrap_id
          signed_divide_int_eq_divide_int signed_modulo_int_eq_modulo_int)
  qed
qed

subsection \<open>Logical view of the kernels\<close>

lemma mask_opt_map: "mask_opt v (map f xs) = map (map_option f) (mask_opt v xs)"
  by (cases v) (auto simp: mask_opt_def zip_map2 intro!: map_cong)

lemma pa_opt_unary:
  assumes "pa_inv a" and "\<And>x. x \<in> set (pa_values a) \<Longrightarrow> op x = Inr (f x)"
  shows "\<exists>r. prim_unary_values a op = Inr r \<and> pa_inv r \<and> pa_opt r = map (map_option f) (pa_opt a)
     \<and> pa_values r = map f (pa_values a) \<and> pa_validity r = pa_validity a"
proof -
  have "mapR op xs = Inr (map f xs)" if "\<And>x. x \<in> set xs \<Longrightarrow> op x = Inr (f x)" for xs
    using that by (induction xs) auto
  with assms show ?thesis
    by (simp add: prim_unary_values_eq pa_opt_def mask_opt_map pa_inv_def pa_len_def)
qed

fun opt_div :: "(int \<Rightarrow> int \<Rightarrow> int) \<Rightarrow> int option \<Rightarrow> int option \<Rightarrow> int option" where
  "opt_div f (Some x) (Some y) = (if y = 0 then None else Some (f x y))"
| "opt_div f _ _ = None"

lemma combine_validities_and3_fits:
  "mask_fits u n \<Longrightarrow> mask_fits v n \<Longrightarrow> mask_fits z n \<Longrightarrow> mask_fits (combine_validities_and3 u v z) n"
  by (cases u; cases v; cases z) (auto simp: bitand_def ternary_def)

lemma mask_at_and3:
  "mask_fits u n \<Longrightarrow> mask_fits v n \<Longrightarrow> mask_fits z n \<Longrightarrow> i < n \<Longrightarrow>
   mask_at (combine_validities_and3 u v z) i \<longleftrightarrow> mask_at u i \<and> mask_at v i \<and> mask_at z i"
  by (cases u; cases v; cases z) (auto simp: bitand_def ternary_def)

lemma mask_at_and:
  "mask_fits u n \<Longrightarrow> mask_fits v n \<Longrightarrow> i < n \<Longrightarrow>
   mask_at (combine_validities_and u v) i \<longleftrightarrow> mask_at u i \<and> mask_at v i"
  by (cases u; cases v) (auto simp: bitand_def)

text \<open>
  A masked division of two arrays of equal length gives the element-wise quotient, null
  where an operand is null or the divisor zero.
\<close>

lemma div_masked_opt:
  assumes a: "pa_inv a" and b: "pa_inv b" and len: "pa_len a = pa_len b"
    and op: "\<And>x y. x \<in> set (pa_values a) \<Longrightarrow> y \<in> set (pa_values b) \<Longrightarrow> y \<noteq> 0 \<Longrightarrow> op x y = Inr (f x y)"
    and op0: "\<And>x. x \<in> set (pa_values a) \<Longrightarrow> \<exists>r. op x 0 = Inr r"
  shows "\<exists>r. div_masked a b op = Inr r \<and> pa_inv r \<and> pa_opt r = map2 (opt_div f) (pa_opt a) (pa_opt b)"
proof -
  let ?xs = "pa_values a" and ?ys = "pa_values b"
  let ?g = "\<lambda>(x, y). if y = 0 then projr (op x y) else f x y"
  let ?m = "combine_validities_and3 (pa_validity a) (pa_validity b) (Some (map (\<lambda>l. l \<noteq> 0) ?ys))"
  have "mapR (\<lambda>(x, y). op x y) ps = Inr (map ?g ps)" if "set ps \<subseteq> set ?xs \<times> set ?ys" for ps
    using that op op0 by (induction ps) force+
  then have vals: "mapR (\<lambda>(x, y). op x y) (zip ?xs ?ys) = Inr (map ?g (zip ?xs ?ys))"
    by (meson set_zip_leftD set_zip_rightD subrelI mem_Sigma_iff)
  let ?r = "\<lparr>pa_values = map ?g (zip ?xs ?ys), pa_validity = ?m, pa_owned = True\<rparr>"
  have fits: "mask_fits ?m (length ?ys)"
    using a b len by (intro combine_validities_and3_fits) (auto simp: pa_inv_def pa_len_def)
  have "div_masked a b op = Inr ?r"
    using prim_binary_values_eq [of "a\<lparr>pa_validity := None\<rparr>" "b\<lparr>pa_validity := None\<rparr>" op] fits len
    by (simp add: div_masked_def take_validity_def vals pa_inv_def pa_len_def with_validity_def
        tot_ne_kernel_broadcast_def)
  moreover have inv: "pa_inv ?r" using fits len by (simp add: pa_inv_def pa_len_def)
  moreover have "pa_opt ?r = map2 (opt_div f) (pa_opt a) (pa_opt b)"
  proof (rule nth_equalityI)
    show "length (pa_opt ?r) = length (map2 (opt_div f) (pa_opt a) (pa_opt b))"
      using a b len inv by (simp add: pa_len_def)
    fix i assume "i < length (pa_opt ?r)"
    then have i: "i < length ?ys" "i < length ?xs" using inv len by (auto simp: pa_len_def)
    have "mask_at ?m i \<longleftrightarrow> mask_at (pa_validity a) i \<and> mask_at (pa_validity b) i \<and> ?ys ! i \<noteq> 0"
      using mask_at_and3 [of "pa_validity a" "length ?ys" "pa_validity b" "Some (map (\<lambda>l. l \<noteq> 0) ?ys)" i]
        a b len i by (simp add: pa_inv_def pa_len_def)
    with a b len inv i show "pa_opt ?r ! i = map2 (opt_div f) (pa_opt a) (pa_opt b) ! i"
      by (simp add: pa_opt_nth pa_len_def)
  qed
  ultimately show ?thesis by blast
qed

lemma pa_opt_fill [simp]: "pa_inv a \<Longrightarrow> pa_opt (fill_with v a) = map (map_option (\<lambda>_. v)) (pa_opt a)"
  using mask_opt_map [of "pa_validity a" "\<lambda>_. v" "pa_values a"]
  by (simp add: fill_with_def pa_opt_def pa_len_def map_replicate_const)

lemma pa_opt_new_null [simp]: "pa_opt (new_null d n) = replicate n None"
  by (simp add: new_null_def pa_opt_def mask_opt_def zip_replicate)

lemma pa_opt_from_vec [simp]: "pa_opt (from_vec xs) = map Some xs"
  by (simp add: from_vec_def pa_opt_def mask_opt_def)

lemma pa_inv_from_vec [simp]: "pa_inv (from_vec xs)"
  by (simp add: from_vec_def pa_inv_def)

lemma pa_len_from_vec [simp]: "pa_len (from_vec xs) = length xs" "pa_values (from_vec xs) = xs"
  by (simp_all add: from_vec_def pa_len_def)

definition agree :: "'a parr res \<Rightarrow> 'a parr res \<Rightarrow> bool" where
  "agree p q \<longleftrightarrow> (\<exists>r s. p = Inr r \<and> q = Inr s \<and> pa_opt r = pa_opt s)"

lemma agreeI: "\<exists>r. p = Inr r \<and> pa_opt r = xs \<Longrightarrow> \<exists>s. q = Inr s \<and> pa_opt s = xs \<Longrightarrow> agree p q"
  by (auto simp: agree_def)

definition elems_in :: "(int \<Rightarrow> bool) \<Rightarrow> int parr \<Rightarrow> bool" where
  "elems_in P a \<longleftrightarrow> (\<forall>x \<in> set (pa_values a). P x)"

lemma map2_replicate_right: "length xs = n \<Longrightarrow> map2 f xs (replicate n y) = map (\<lambda>x. f x y) xs"
  by (induction xs arbitrary: n) auto

lemma map2_replicate_left: "length ys = n \<Longrightarrow> map2 f (replicate n x) ys = map (f x) ys"
  by (induction ys arbitrary: n) auto

lemma signed_kernels_opt:
  assumes "pa_inv a" and "pa_inv b" and "pa_len a = pa_len b"
    and "elems_in (srange w) a" and "elems_in (srange w) b"
  shows floor_div_opt: "\<exists>r. prim_wrapping_floor_div w a b = Inr r \<and> pa_inv r \<and>
       pa_opt r = map2 (opt_div (\<lambda>x y. swrap w (x div y))) (pa_opt a) (pa_opt b)"
    and trunc_div_opt: "\<exists>r. prim_wrapping_trunc_div w a b = Inr r \<and> pa_inv r \<and>
       pa_opt r = map2 (opt_div (\<lambda>x y. swrap w (x sdiv y))) (pa_opt a) (pa_opt b)"
    and mod_opt: "\<exists>r. prim_wrapping_mod False w a b = Inr r \<and> pa_inv r \<and>
       pa_opt r = map2 (opt_div (\<lambda>x y. x mod y)) (pa_opt a) (pa_opt b)"
proof -
  have eq: "wrapping_floor_div_mod w x y = (swrap w (x div y), x mod y)"
    if "x \<in> set (pa_values a)" "y \<in> set (pa_values b)" "y \<noteq> 0" for x y
    using that assms(4,5) by (intro wrapping_floor_div_mod_eq) (auto simp: elems_in_def)
  show "\<exists>r. prim_wrapping_floor_div w a b = Inr r \<and> pa_inv r \<and>
       pa_opt r = map2 (opt_div (\<lambda>x y. swrap w (x div y))) (pa_opt a) (pa_opt b)"
    unfolding prim_wrapping_floor_div_def by (rule div_masked_opt [OF assms(1-3)]) (simp_all add: eq)
  show "\<exists>r. prim_wrapping_trunc_div w a b = Inr r \<and> pa_inv r \<and>
       pa_opt r = map2 (opt_div (\<lambda>x y. swrap w (x sdiv y))) (pa_opt a) (pa_opt b)"
    unfolding prim_wrapping_trunc_div_def
    by (rule div_masked_opt [OF assms(1-3)]) (simp_all add: wrapping_div_def)
  show "\<exists>r. prim_wrapping_mod False w a b = Inr r \<and> pa_inv r \<and>
       pa_opt r = map2 (opt_div (\<lambda>x y. x mod y)) (pa_opt a) (pa_opt b)"
    unfolding prim_wrapping_mod_def by (rule div_masked_opt [OF assms(1-3)]) (simp_all add: eq)
qed

subsection \<open>Kernels with a scalar operand\<close>

definition broadcast :: "nat \<Rightarrow> 'a \<Rightarrow> 'a parr" where
  "broadcast n x = from_vec (replicate n x)"

lemma broadcast_simps [simp]:
  "pa_inv (broadcast n x)" "pa_len (broadcast n x) = n" "pa_opt (broadcast n x) = replicate n (Some x)"
  by (auto simp: broadcast_def map_replicate)

lemma elems_in_broadcast [simp]: "P x \<Longrightarrow> elems_in P (broadcast n x)"
  by (auto simp: broadcast_def elems_in_def)

lemma pa_opt_elems: "pa_inv a \<Longrightarrow> elems_in P a \<Longrightarrow> Some x \<in> set (pa_opt a) \<Longrightarrow> P x"
  by (auto simp: pa_opt_def mask_opt_def elems_in_def split: option.splits if_splits dest!: set_zip_rightD)

lemma broadcast_elem: "y \<in> set (pa_values (broadcast n x)) \<Longrightarrow> y = x"
  by (auto simp: broadcast_def)

text \<open>The scalar loops of the flooring quotient, the truncating quotient and the remainder.\<close>

lemma srange_half:
  assumes "srange w x" and "2 \<le> \<bar>s\<bar>"
  shows "srange w (\<bar>x\<bar> div \<bar>s\<bar>)" and "srange w (- (\<bar>x\<bar> div \<bar>s\<bar>))"
proof -
  have "\<bar>x\<bar> div \<bar>s\<bar> \<le> \<bar>x\<bar> div 2"
    using assms(2) by (intro zdiv_mono2) auto
  then have "2 * (\<bar>x\<bar> div \<bar>s\<bar>) \<le> \<bar>x\<bar>" by linarith
  moreover have "0 \<le> \<bar>x\<bar> div \<bar>s\<bar>" using assms(2) by (simp add: pos_imp_zdiv_nonneg_iff)
  moreover have "\<bar>x\<bar> \<le> 2 ^ (w - 1)" "0 < w" using assms(1) by (auto simp: srange_def abs_if)
  moreover have "(1::int) \<le> 2 ^ (w - 1)" by simp
  ultimately show "srange w (\<bar>x\<bar> div \<bar>s\<bar>)" "srange w (- (\<bar>x\<bar> div \<bar>s\<bar>))"
    unfolding srange_def by linarith+
qed

lemma scalar_trunc_elem:
  assumes "srange w x" and "2 \<le> \<bar>s\<bar>"
  shows "(if (x < 0) \<noteq> (s < 0) then swrap w (- swrap w (\<bar>x\<bar> div \<bar>s\<bar>)) else swrap w (\<bar>x\<bar> div \<bar>s\<bar>))
    = swrap w (x sdiv s)"
proof -
  have "(if (x < 0) \<noteq> (s < 0) then - (\<bar>x\<bar> div \<bar>s\<bar>) else \<bar>x\<bar> div \<bar>s\<bar>) = x sdiv s"
    using assms(2) by (auto simp: signed_divide_int_def sgn_if)
  then show ?thesis by (auto simp: sw.wrap_neg split: if_splits)
qed

lemma scalar_floor_elem:
  assumes "srange w x" and "2 \<le> \<bar>s\<bar>"
  shows "(if (x < 0) \<noteq> (s < 0)
      then let ret = swrap w (- swrap w (\<bar>x\<bar> div \<bar>s\<bar>))
           in (if \<bar>x\<bar> mod \<bar>s\<bar> \<noteq> 0 then swrap w (ret - 1) else ret)
      else swrap w (\<bar>x\<bar> div \<bar>s\<bar>)) = swrap w (x div s)"
proof -
  have dvd: "\<bar>x\<bar> mod \<bar>s\<bar> = 0 \<longleftrightarrow> s dvd x" by (simp add: mod_eq_0_iff_dvd)
  have sdiv: "x sdiv s = (if (x < 0) \<noteq> (s < 0) then - (\<bar>x\<bar> div \<bar>s\<bar>) else \<bar>x\<bar> div \<bar>s\<bar>)"
    using assms(2) by (auto simp: signed_divide_int_def sgn_if)
  have "x div s = (if (x < 0) \<noteq> (s < 0) \<and> \<not> s dvd x then x sdiv s - 1 else x sdiv s)"
    using assms(2) by (auto simp: divide_int_eq_signed_divide_int sgn_if split: if_splits)
  then show ?thesis
    by (auto simp: sdiv dvd sw.wrap_neg sw.wrap_dec Let_def)
qed

lemma reduces_abs:
  assumes "reduces w sr" and "srange w x" and "srange w s" and "s \<noteq> 0"
  shows "sr_div_rem sr \<bar>x\<bar> (sr_new sr \<bar>s\<bar>) = (\<bar>x\<bar> div \<bar>s\<bar>, \<bar>x\<bar> mod \<bar>s\<bar>)"
    and "sr_div sr \<bar>x\<bar> (sr_new sr \<bar>s\<bar>) = \<bar>x\<bar> div \<bar>s\<bar>"
    and "sr_rem sr \<bar>x\<bar> (sr_new sr \<bar>s\<bar>) = \<bar>x\<bar> mod \<bar>s\<bar>"
proof -
  have "urange w \<bar>y\<bar>" if "srange w y" for y
    using that two_power_pred [of w] by (auto simp: srange_def urange_def)
  with assms show "sr_div_rem sr \<bar>x\<bar> (sr_new sr \<bar>s\<bar>) = (\<bar>x\<bar> div \<bar>s\<bar>, \<bar>x\<bar> mod \<bar>s\<bar>)"
    "sr_div sr \<bar>x\<bar> (sr_new sr \<bar>s\<bar>) = \<bar>x\<bar> div \<bar>s\<bar>"
    "sr_rem sr \<bar>x\<bar> (sr_new sr \<bar>s\<bar>) = \<bar>x\<bar> mod \<bar>s\<bar>"
    by (simp_all add: reduces_def)
qed

lemma scalar_mod_elem:
  assumes "reduces w sr" and "srange w x" and "srange w s" and "2 \<le> \<bar>s\<bar>"
  shows "mod_scalar_elem sr w s x = x mod s"
proof -
  define r where "r = \<bar>x\<bar> mod \<bar>s\<bar>"
  let ?r = "if r \<noteq> 0 \<and> (s < 0) \<noteq> (x < 0) then \<bar>s\<bar> - r else r"
  have dvd: "r = 0 \<longleftrightarrow> s dvd x" by (simp add: r_def mod_eq_0_iff_dvd)
  have "x mod s = x smod s + s * of_bool (sgn x \<noteq> sgn s \<and> \<not> s dvd x)"
    by (rule modulo_int_eq_signed_modulo_int)
  also have "x smod s = sgn x * r" by (simp add: signed_modulo_int_def r_def)
  finally have mod: "x mod s = sgn x * r + s * of_bool (sgn x \<noteq> sgn s \<and> r \<noteq> 0)"
    by (simp only: dvd)
  have "x \<noteq> 0" if "r \<noteq> 0" using that by (auto simp: r_def)
  then have "(if s < 0 then - ?r else ?r) = x mod s"
    using assms(4) unfolding mod by (cases "r = 0"; cases "x < 0"; cases "s < 0") (simp_all add: sgn_if)
  moreover have "swrap w (x mod s) = x mod s"
    using assms by (intro sw.wrap_id srange_mod) auto
  ultimately show ?thesis
    using assms reduces_abs(3) [OF assms(1-3)]
    unfolding mod_scalar_elem_def Let_def r_def [symmetric] by (auto simp: sw.wrap_neg split: if_splits)
qed

lemma opt_div_scalar: "s \<noteq> 0 \<Longrightarrow> opt_div F x (Some s) = map_option (\<lambda>x. F x s) x"
  by (cases x) auto

lemma opt_div_zero: "opt_div F x (Some 0) = None"
  by (cases x) auto

text \<open>How a kernel for a scalar divisor meets the array kernel applied to its broadcast.\<close>

lemma scalar_agree:
  assumes "pa_inv a"
    and array: "\<exists>r. q = Inr r \<and> pa_inv r \<and>
      pa_opt r = map2 (opt_div F) (pa_opt a) (pa_opt (broadcast (pa_len a) s))"
    and zero: "s = 0 \<Longrightarrow> p = Inr (new_null 0 (pa_len a))"
    and nonzero: "s \<noteq> 0 \<Longrightarrow> \<exists>r. p = Inr r \<and> pa_opt r = map (map_option (\<lambda>x. F x s)) (pa_opt a)"
  shows "agree p q"
proof (cases "s = 0")
  case True
  with assms show ?thesis
    by (intro agreeI [where xs = "replicate (pa_len a) None"])
      (auto simp: map2_replicate_right opt_div_zero map_replicate_const)
next
  case False
  with assms show ?thesis
    by (intro agreeI [OF nonzero]) (auto simp: map2_replicate_right opt_div_scalar)
qed

lemma map_option_id_elems:
  "pa_inv a \<Longrightarrow> elems_in P a \<Longrightarrow> (\<And>x. P x \<Longrightarrow> f x = x) \<Longrightarrow> map (map_option f) (pa_opt a) = pa_opt a"
  by (intro map_idI) (auto simp: option.map_ident_strong pa_opt_elems split: option.splits
      intro: option.map_ident_strong)

lemma floor_div_scalar_agree:
  assumes "reduces w sr" and "pa_inv a" and "elems_in (srange w) a" and "srange w s"
  shows "agree (prim_wrapping_floor_div_scalar sr w a s) (prim_wrapping_floor_div w a (broadcast (pa_len a) s))"
proof (rule scalar_agree [OF assms(2) floor_div_opt])
  assume s: "s \<noteq> 0"
  consider "s = -1" | "s = 1" | "2 \<le> \<bar>s\<bar>" using s by linarith
  then show "\<exists>r. prim_wrapping_floor_div_scalar sr w a s = Inr r \<and>
      pa_opt r = map (map_option (\<lambda>x. swrap w (x div s))) (pa_opt a)"
  proof cases
    case 1
    then show ?thesis
      using pa_opt_unary [OF assms(2), of "\<lambda>x. Inr (swrap w (- x))" "\<lambda>x. swrap w (- x)"]
      by (auto simp: prim_wrapping_floor_div_scalar_def prim_wrapping_neg_def)
  next
    case 2
    then show ?thesis
      using map_option_id_elems [OF assms(2,3), of "\<lambda>x. swrap w x"] sw.wrap_id
      by (auto simp: prim_wrapping_floor_div_scalar_def)
  next
    case 3
    have "\<exists>r. prim_wrapping_floor_div_scalar sr w a s = Inr r \<and> pa_inv r \<and>
        pa_opt r = map (map_option (\<lambda>x. swrap w (x div s))) (pa_opt a) \<and>
        pa_values r = map (\<lambda>x. swrap w (x div s)) (pa_values a) \<and> pa_validity r = pa_validity a"
      using 3 unfolding prim_wrapping_floor_div_scalar_def
      by (auto intro!: pa_opt_unary [OF assms(2)] simp: Let_def reduces_abs [OF assms(1) _ assms(4)]
          scalar_floor_elem [unfolded Let_def, symmetric] elems_in_def assms(3) [unfolded elems_in_def])
    then show ?thesis by blast
  qed
qed (use assms in \<open>auto simp: prim_wrapping_floor_div_scalar_def\<close>)

lemma trunc_div_scalar_agree:
  assumes "reduces w sr" and "pa_inv a" and "elems_in (srange w) a" and "srange w s"
  shows "agree (prim_wrapping_trunc_div_scalar sr w a s) (prim_wrapping_trunc_div w a (broadcast (pa_len a) s))"
proof (rule scalar_agree [OF assms(2) trunc_div_opt])
  assume s: "s \<noteq> 0"
  consider "s = -1" | "s = 1" | "2 \<le> \<bar>s\<bar>" using s by linarith
  then show "\<exists>r. prim_wrapping_trunc_div_scalar sr w a s = Inr r \<and>
      pa_opt r = map (map_option (\<lambda>x. swrap w (x sdiv s))) (pa_opt a)"
  proof cases
    case 1
    then show ?thesis
      using pa_opt_unary [OF assms(2), of "\<lambda>x. Inr (swrap w (- x))" "\<lambda>x. swrap w (- x)"]
      by (auto simp: prim_wrapping_trunc_div_scalar_def prim_wrapping_neg_def)
  next
    case 2
    then show ?thesis
      using map_option_id_elems [OF assms(2,3), of "\<lambda>x. swrap w x"] sw.wrap_id
      by (auto simp: prim_wrapping_trunc_div_scalar_def)
  next
    case 3
    have "\<exists>r. prim_wrapping_trunc_div_scalar sr w a s = Inr r \<and> pa_inv r \<and>
        pa_opt r = map (map_option (\<lambda>x. swrap w (x sdiv s))) (pa_opt a) \<and>
        pa_values r = map (\<lambda>x. swrap w (x sdiv s)) (pa_values a) \<and> pa_validity r = pa_validity a"
      using 3 unfolding prim_wrapping_trunc_div_scalar_def
      by (auto intro!: pa_opt_unary [OF assms(2)] simp: Let_def reduces_abs [OF assms(1) _ assms(4)]
          scalar_trunc_elem [symmetric] elems_in_def assms(3) [unfolded elems_in_def])
    then show ?thesis by blast
  qed
qed (use assms in \<open>auto simp: prim_wrapping_trunc_div_scalar_def\<close>)

text \<open>
  With the feature the remainder truncates, and the general kernel needs that no quotient
  overflows.
\<close>

lemma mod_consistent_opt:
  assumes "pa_inv a" and "pa_inv b" and "pa_len a = pa_len b"
    and "\<And>x y. x \<in> set (pa_values a) \<Longrightarrow> y \<in> set (pa_values b) \<Longrightarrow> x \<noteq> - (2 ^ (w - 1)) \<or> y \<noteq> -1"
  shows "\<exists>r. prim_wrapping_mod True w a b = Inr r \<and> pa_inv r \<and>
       pa_opt r = map2 (opt_div (\<lambda>x y. x smod y)) (pa_opt a) (pa_opt b)"
  unfolding prim_wrapping_mod_def
  by (rule div_masked_opt [OF assms(1-3)]) (use assms(4) in \<open>auto simp: rust_rem_def\<close>)

lemma mod_any_opt:
  assumes "pa_inv a" and "pa_inv b" and "pa_len a = pa_len b"
    and "elems_in (srange w) a" and "elems_in (srange w) b"
    and "\<And>x y. c \<Longrightarrow> x \<in> set (pa_values a) \<Longrightarrow> y \<in> set (pa_values b) \<Longrightarrow> x \<noteq> - (2 ^ (w - 1)) \<or> y \<noteq> -1"
  shows "\<exists>r. prim_wrapping_mod c w a b = Inr r \<and> pa_inv r \<and>
       pa_opt r = map2 (opt_div (\<lambda>x y. if c then x smod y else x mod y)) (pa_opt a) (pa_opt b)"
  using mod_opt [OF assms(1-5)] mod_consistent_opt [OF assms(1-3), of w] assms(6) by (cases c) simp_all

lemma mod_scalar_agree:
  assumes "reduces w sr" and "pa_inv a" and "elems_in (srange w) a" and "srange w s" and "c \<Longrightarrow> s \<noteq> -1"
  shows "agree (prim_wrapping_mod_scalar sr c w a s) (prim_wrapping_mod c w a (broadcast (pa_len a) s))"
proof (rule scalar_agree [OF assms(2) mod_any_opt])
  assume s: "s \<noteq> 0"
  let ?f = "\<lambda>x. if c then x smod s else x mod s"
  consider "s = -1 \<or> s = 1" | "2 \<le> \<bar>s\<bar>" using s by linarith
  then show "\<exists>r. prim_wrapping_mod_scalar sr c w a s = Inr r \<and> pa_opt r = map (map_option ?f) (pa_opt a)"
  proof cases
    case 1
    then have "?f = (\<lambda>_. 0)" by (auto simp: smod_eq_0_iff)
    with 1 show ?thesis using assms(2) by (auto simp: prim_wrapping_mod_scalar_def)
  next
    case 2
    have "\<exists>r. prim_wrapping_mod_scalar sr c w a s = Inr r \<and> pa_inv r \<and>
        pa_opt r = map (map_option ?f) (pa_opt a) \<and>
        pa_values r = map ?f (pa_values a) \<and> pa_validity r = pa_validity a"
      using 2 assms unfolding prim_wrapping_mod_scalar_def
      by (cases c) (auto intro!: pa_opt_unary simp: scalar_mod_elem elems_in_def rust_rem_def)
    then show ?thesis by blast
  qed
qed (use assms in \<open>auto simp: prim_wrapping_mod_scalar_def dest: broadcast_elem\<close>)

fun opt_map2 :: "('a \<Rightarrow> 'a \<Rightarrow> 'a) \<Rightarrow> 'a option \<Rightarrow> 'a option \<Rightarrow> 'a option" where
  "opt_map2 f (Some x) (Some y) = Some (f x y)"
| "opt_map2 f _ _ = None"

lemma opt_map2_scalar: "opt_map2 f x (Some s) = map_option (\<lambda>x. f x s) x"
  by (cases x) auto

lemma opt_map2_scalar_lhs: "opt_map2 f (Some s) y = map_option (f s) y"
  by (cases y) auto

lemma pa_opt_binary:
  assumes a: "pa_inv a" and b: "pa_inv b" and len: "pa_len a = pa_len b"
  shows "\<exists>r. prim_binary_values a b (\<lambda>x y. Inr (f x y)) = Inr r \<and> pa_inv r \<and>
    pa_opt r = map2 (opt_map2 f) (pa_opt a) (pa_opt b)"
proof -
  let ?v = "combine_validities_and (pa_validity a) (pa_validity b)"
  let ?r = "\<lparr>pa_values = map2 f (pa_values a) (pa_values b), pa_validity = ?v, pa_owned = True\<rparr>"
  have "mapR (\<lambda>(x, y). Inr (f x y)) ps = Inr (map (\<lambda>(x, y). f x y) ps)" for ps
    by (induction ps) auto
  with assms have "prim_binary_values a b (\<lambda>x y. Inr (f x y)) = Inr ?r"
    by (simp add: prim_binary_values_eq)
  moreover have inv: "pa_inv ?r"
    using assms by (auto simp: pa_inv_def pa_len_def intro!: combine_validities_and_fits)
  moreover have "pa_opt ?r = map2 (opt_map2 f) (pa_opt a) (pa_opt b)"
  proof (rule nth_equalityI)
    fix i assume "i < length (pa_opt ?r)"
    then have i: "i < length (pa_values a)" "i < length (pa_values b)"
      using inv len by (auto simp: pa_len_def)
    have "mask_at ?v i \<longleftrightarrow> mask_at (pa_validity a) i \<and> mask_at (pa_validity b) i"
      using a b len i by (intro mask_at_and) (auto simp: pa_inv_def pa_len_def)
    with a b len inv i show "pa_opt ?r ! i = map2 (opt_map2 f) (pa_opt a) (pa_opt b) ! i"
      by (simp add: pa_opt_nth pa_len_def)
  qed (use a b len inv in \<open>simp add: pa_len_def\<close>)
  ultimately show ?thesis by blast
qed

lemma pa_opt_unary_total:
  "pa_inv a \<Longrightarrow> \<exists>r. prim_unary_values a (\<lambda>x. Inr (f x)) = Inr r \<and> pa_opt r = map (map_option f) (pa_opt a)"
  using pa_opt_unary [of a "\<lambda>x. Inr (f x)" f] by auto

lemma binary_scalar_agree:
  assumes "pa_inv a" and "\<exists>r. p = Inr r \<and> pa_opt r = map (map_option (\<lambda>x. f x s)) (pa_opt a)"
  shows "agree p (prim_binary_values a (broadcast (pa_len a) s) (\<lambda>x y. Inr (f x y)))"
  using pa_opt_binary [OF assms(1), of "broadcast (pa_len a) s" f] assms
  by (intro agreeI [OF assms(2)]) (auto simp: map2_replicate_right opt_map2_scalar)

lemma mul_scalar_agree:
  assumes "pa_inv a" and "elems_in (srange w) a" and "srange w s"
  shows "agree (prim_wrapping_mul_scalar w a s) (prim_wrapping_mul w a (broadcast (pa_len a) s))"
  unfolding prim_wrapping_mul_def
proof (rule binary_scalar_agree [OF assms(1)])
  let ?goal = "\<exists>r. prim_wrapping_mul_scalar w a s = Inr r \<and>
      pa_opt r = map (map_option (\<lambda>x. swrap w (x * s))) (pa_opt a)"
  consider "s = 0" | "s = 1" | "s \<noteq> 0" "s \<noteq> 1" "\<bar>s\<bar> AND (\<bar>s\<bar> - 1) \<noteq> 0"
    | "s \<noteq> 0" "s \<noteq> 1" "\<bar>s\<bar> AND (\<bar>s\<bar> - 1) = 0" by blast
  then show ?goal
  proof cases
    case 1
    then show ?thesis
      using assms sw.wrap_id [of w 0] by (auto simp: prim_wrapping_mul_scalar_def)
  next
    case 2
    then show ?thesis
      using map_option_id_elems [OF assms(1,2), of "swrap w"] sw.wrap_id
      by (auto simp: prim_wrapping_mul_scalar_def)
  next
    case 3
    then show ?thesis
      using pa_opt_unary_total [OF assms(1), of "\<lambda>x. swrap w (x * s)"]
      by (auto simp: prim_wrapping_mul_scalar_def)
  next
    case 4
    define k where "k = trailing_zeros (nat \<bar>s\<bar>)"
    have k: "\<bar>s\<bar> = 2 ^ k" using 4 unfolding k_def by (intro pow2_test_int) auto
    show ?thesis
    proof (cases "0 < s")
      case True
      with 4 have "prim_wrapping_mul_scalar w a s = prim_unary_values a (\<lambda>x. Inr (swrap w (x * 2 ^ k)))"
        by (simp add: prim_wrapping_mul_scalar_def Let_def k_def)
      moreover from True k have "2 ^ k = s" by simp
      ultimately show ?thesis
        using pa_opt_unary_total [OF assms(1), of "\<lambda>x. swrap w (x * s)"] by simp
    next
      case False
      with 4 have "prim_wrapping_mul_scalar w a s
          = prim_unary_values a (\<lambda>x. Inr (swrap w (- swrap w (x * 2 ^ k))))"
        by (simp add: prim_wrapping_mul_scalar_def Let_def k_def)
      moreover have "swrap w (- swrap w (x * 2 ^ k)) = swrap w (x * s)" for x
        using False k by (intro sw.mul_via_shift_neg) auto
      ultimately show ?thesis
        using pa_opt_unary_total [OF assms(1), of "\<lambda>x. swrap w (x * s)"] by simp
    qed
  qed
qed

lemma sub_scalar_agree:
  assumes "pa_inv a"
  shows "agree (prim_wrapping_sub_scalar w a s) (prim_wrapping_sub w a (broadcast (pa_len a) s))"
  unfolding prim_wrapping_sub_def prim_wrapping_sub_scalar_def prim_wrapping_add_scalar_def
  by (rule binary_scalar_agree [OF assms])
    (use pa_opt_unary_total [OF assms] in \<open>simp add: sw.sub_via_add_neg\<close>)

subsection \<open>Kernels with a scalar dividend\<close>

lemma scalar_lhs_opt:
  assumes "pa_inv b" and "\<And>y. y \<in> set (pa_values b) \<Longrightarrow> y \<noteq> 0 \<Longrightarrow> op y = Inr (f y)"
    and "\<exists>r. op 0 = Inr r"
  shows "\<exists>r. rbind (prim_unary_values b op)
       (with_validity (combine_validities_and (pa_validity b) (Some (tot_ne_kernel_broadcast b 0)))) = Inr r \<and>
     pa_opt r = map (opt_div (\<lambda>_. f) (Some 0)) (pa_opt b)"
proof -
  let ?ys = "pa_values b"
  let ?g = "\<lambda>y. if y = 0 then projr (op y) else f y"
  let ?m = "combine_validities_and (pa_validity b) (Some (map (\<lambda>l. l \<noteq> 0) ?ys))"
  let ?r = "\<lparr>pa_values = map ?g ?ys, pa_validity = ?m, pa_owned = True\<rparr>"
  have "mapR op ps = Inr (map ?g ps)" if "set ps \<subseteq> set ?ys" for ps
    using that assms(2,3) by (induction ps) force+
  then have vals: "mapR op ?ys = Inr (map ?g ?ys)" by blast
  have fits: "mask_fits ?m (length ?ys)"
    using assms(1) by (intro combine_validities_and_fits) (auto simp: pa_inv_def pa_len_def)
  then have inv: "pa_inv ?r" by (simp add: pa_inv_def pa_len_def)
  have "rbind (prim_unary_values b op)
      (with_validity (combine_validities_and (pa_validity b) (Some (tot_ne_kernel_broadcast b 0)))) = Inr ?r"
    using fits by (simp add: prim_unary_values_eq [OF assms(1)] vals with_validity_def pa_len_def
        tot_ne_kernel_broadcast_def)
  moreover have "pa_opt ?r = map (opt_div (\<lambda>_. f) (Some 0)) (pa_opt b)"
  proof (rule nth_equalityI)
    fix i assume "i < length (pa_opt ?r)"
    then have i: "i < length ?ys" using inv by (auto simp: pa_len_def)
    have "mask_at ?m i \<longleftrightarrow> mask_at (pa_validity b) i \<and> ?ys ! i \<noteq> 0"
      using mask_at_and [of "pa_validity b" "length ?ys" "Some (map (\<lambda>l. l \<noteq> 0) ?ys)" i] assms(1) i
      by (simp add: pa_inv_def pa_len_def)
    with assms(1) inv i show "pa_opt ?r ! i = map (opt_div (\<lambda>_. f) (Some 0)) (pa_opt b) ! i"
      by (simp add: pa_opt_nth pa_len_def)
  qed (use assms(1) inv in \<open>simp add: pa_len_def\<close>)
  ultimately show ?thesis by blast
qed

lemma scalar_lhs_agree:
  assumes "pa_inv b"
    and "\<exists>r. p = Inr r \<and> pa_opt r = map (opt_div (\<lambda>_. F s) (Some 0)) (pa_opt b)"
    and "\<exists>r. q = Inr r \<and> pa_inv r \<and> pa_opt r = map2 (opt_div F) (pa_opt (broadcast (pa_len b) s)) (pa_opt b)"
  shows "agree p q"
proof -
  have "opt_div F (Some s) = opt_div (\<lambda>_. F s) (Some 0)"
    by (rule ext) (metis opt_div.simps(1,2) option.exhaust opt_div.simps(3))
  with assms show ?thesis
    by (intro agreeI [OF assms(2)]) (auto simp: map2_replicate_left)
qed

lemma mapR_panic:
  "x \<in> set xs \<Longrightarrow> f x = Inl Panic \<Longrightarrow> (\<And>y e. y \<in> set xs \<Longrightarrow> f y = Inl e \<Longrightarrow> e = Panic) \<Longrightarrow>
   mapR f xs = Inl Panic"
proof (induction xs)
  case (Cons y ys)
  show ?case
  proof (cases "f y")
    case (Inl e)
    with Cons.prems(3) [of y e] show ?thesis by simp
  next
    case (Inr z)
    with Cons.prems(1,2) have "x \<in> set ys" by auto
    then have "mapR f ys = Inl Panic"
      using Cons.prems(2,3) by (intro Cons.IH) auto
    with Inr show ?thesis by simp
  qed
qed simp

subsection \<open>Properties\<close>



text \<open>
  C23. The kernels specialised to a scalar right operand (which multiply by shifting, and
  divide by a prepared divisor through absolute values with sign corrections) agree with the
  general kernels applied to the broadcast scalar, for every scalar: zero, one, minus one,
  the minimum and powers of two included. The prepared division is any that satisfies \<open>reduces\<close>.
  For the modulo this holds without the feature \<^verbatim>\<open>consistent_arithmetic\<close>, and with it for every
  scalar but minus one, where the general kernel can panic.
\<close>

theorem signed_scalar_kernels_agree:
  assumes "reduces w sr" and "pa_inv a" and "elems_in (srange w) a" and "srange w s"
  defines "b \<equiv> broadcast (pa_len a) s"
  shows "agree (prim_wrapping_floor_div_scalar sr w a s) (prim_wrapping_floor_div w a b) \<and>
    agree (prim_wrapping_trunc_div_scalar sr w a s) (prim_wrapping_trunc_div w a b) \<and>
    (\<not> consistent \<or> s \<noteq> -1 \<longrightarrow>
      agree (prim_wrapping_mod_scalar sr consistent w a s) (prim_wrapping_mod consistent w a b)) \<and>
    agree (prim_wrapping_mul_scalar w a s) (prim_wrapping_mul w a b) \<and>
    agree (prim_wrapping_sub_scalar w a s) (prim_wrapping_sub w a b)"
  unfolding b_def
  using assms(1-4)
  by (simp add: floor_div_scalar_agree trunc_div_scalar_agree mod_scalar_agree mul_scalar_agree
      sub_scalar_agree)

theorem signed_scalar_kernels_agree_witness:
  "agree (prim_wrapping_floor_div_scalar plain_division 8 (from_vec [-128, 5]) (-128))
     (prim_wrapping_floor_div 8 (from_vec [-128, 5]) (broadcast 2 (-128))) \<and>
   agree (prim_wrapping_mod_scalar plain_division True 8 (from_vec [-128, 5]) (-128))
     (prim_wrapping_mod True 8 (from_vec [-128, 5]) (broadcast 2 (-128)))"
  using signed_scalar_kernels_agree [of 8 plain_division "from_vec [-128, 5]" "-128" True]
  by (simp add: elems_in_def srange_def numeral_2_eq_2 plain_division_def reduces_def)

text \<open>
  C24. With a scalar dividend that is not zero, the quotient and remainder kernels agree with
  the general ones on the broadcast dividend (for the remainder with the feature
  \<^verbatim>\<open>consistent_arithmetic\<close>: unless the dividend is the minimum). With a zero dividend all three
  fill the array with zeros instead, so an element whose divisor is zero becomes zero where
  the general kernels give null.
\<close>

theorem signed_scalar_lhs_kernels:
  assumes "pa_inv b" and "elems_in (srange w) b" and "srange w s"
  defines "a \<equiv> broadcast (pa_len b) s"
  shows "(s \<noteq> 0 \<longrightarrow>
      agree (prim_wrapping_floor_div_scalar_lhs w s b) (prim_wrapping_floor_div w a b) \<and>
      agree (prim_wrapping_trunc_div_scalar_lhs w s b) (prim_wrapping_trunc_div w a b) \<and>
      (\<not> consistent \<or> s \<noteq> - (2 ^ (w - 1)) \<longrightarrow>
        agree (prim_wrapping_mod_scalar_lhs consistent w s b) (prim_wrapping_mod consistent w a b))) \<and>
    (s = 0 \<longrightarrow> (\<exists>r. prim_wrapping_floor_div_scalar_lhs w s b = Inr r \<and>
        prim_wrapping_trunc_div_scalar_lhs w s b = Inr r \<and>
        prim_wrapping_mod_scalar_lhs consistent w s b = Inr r \<and>
        pa_opt r = map (map_option (\<lambda>_. 0)) (pa_opt b)))"
proof (intro conjI impI)
  have ab: "pa_inv a" "pa_len a = pa_len b" "elems_in (srange w) a"
    using assms(3) by (simp_all add: a_def)
  note opts = signed_kernels_opt [OF ab(1) assms(1) ab(2,3) assms(2), unfolded a_def]
  have eq: "wrapping_floor_div_mod w s y = (swrap w (s div y), s mod y)"
    if "y \<in> set (pa_values b)" "y \<noteq> 0" for y
    using that assms(2,3) by (intro wrapping_floor_div_mod_eq) (auto simp: elems_in_def)
  have z: "wrapping_floor_div_mod w s 0 = (0, 0)" by (simp add: wrapping_floor_div_mod_def)
  assume s: "s \<noteq> 0"
  show "agree (prim_wrapping_floor_div_scalar_lhs w s b) (prim_wrapping_floor_div w a b)"
    unfolding a_def prim_wrapping_floor_div_scalar_lhs_def Let_def
    using s by (simp, intro scalar_lhs_agree [OF assms(1) scalar_lhs_opt [OF assms(1)] opts(1)])
      (auto simp: eq z)
  show "agree (prim_wrapping_trunc_div_scalar_lhs w s b) (prim_wrapping_trunc_div w a b)"
    unfolding a_def prim_wrapping_trunc_div_scalar_lhs_def Let_def
    using s by (simp, intro scalar_lhs_agree [OF assms(1) scalar_lhs_opt [OF assms(1)] opts(2)])
      (auto simp: wrapping_div_def)
  assume min: "\<not> consistent \<or> s \<noteq> - (2 ^ (w - 1))"
  then have "\<exists>r. prim_wrapping_mod consistent w a b = Inr r \<and> pa_inv r \<and> pa_opt r
      = map2 (opt_div (\<lambda>x y. if consistent then x smod y else x mod y)) (pa_opt (broadcast (pa_len b) s)) (pa_opt b)"
    using mod_any_opt [OF ab(1) assms(1) ab(2,3) assms(2), of consistent] by (auto simp: a_def dest: broadcast_elem)
  with s min show "agree (prim_wrapping_mod_scalar_lhs consistent w s b) (prim_wrapping_mod consistent w a b)"
    unfolding prim_wrapping_mod_scalar_lhs_def Let_def
    by (simp, intro scalar_lhs_agree [OF assms(1) scalar_lhs_opt [OF assms(1)]])
      (auto simp: eq z rust_rem_def)
next
  assume "s = 0"
  then show "\<exists>r. prim_wrapping_floor_div_scalar_lhs w s b = Inr r \<and>
        prim_wrapping_trunc_div_scalar_lhs w s b = Inr r \<and>
        prim_wrapping_mod_scalar_lhs consistent w s b = Inr r \<and>
        pa_opt r = map (map_option (\<lambda>_. 0)) (pa_opt b)"
    using assms(1) by (simp add: prim_wrapping_floor_div_scalar_lhs_def prim_wrapping_trunc_div_scalar_lhs_def
        prim_wrapping_mod_scalar_lhs_def)
qed

theorem signed_scalar_lhs_kernels_witness:
  "(\<exists>r. prim_wrapping_trunc_div_scalar_lhs 8 0 (from_vec [0, 3]) = Inr r \<and> pa_opt r = [Some 0, Some 0]) \<and>
   agree (prim_wrapping_floor_div_scalar_lhs 8 5 (from_vec [0, 3]))
     (prim_wrapping_floor_div 8 (broadcast 2 5) (from_vec [0, 3]))"
  using signed_scalar_lhs_kernels [of "from_vec [0, 3]" 8 0]
    signed_scalar_lhs_kernels [of "from_vec [0, 3]" 8 5]
  by (auto simp: elems_in_def srange_def numeral_2_eq_2)

text \<open>
  C39. With the \<^verbatim>\<open>consistent_arithmetic\<close> feature the modulo kernel for two arrays panics as
  soon as one position holds the minimum over minus one, even where the result would be
  null, while the kernel for the scalar minus one returns zeros.
\<close>

theorem consistent_mod_overflow_panics:
  assumes "pa_inv a" and "pa_inv b" and "pa_len a = pa_len b"
    and "i < pa_len a" and "pa_values a ! i = - (2 ^ (w - 1))" and "pa_values b ! i = -1"
  shows "prim_wrapping_mod True w a b = Inl Panic \<and>
    (\<exists>r. prim_wrapping_mod_scalar sr True w a (-1) = Inr r \<and> pa_opt r = map (map_option (\<lambda>_. 0)) (pa_opt a))"
proof -
  let ?f = "\<lambda>(x, y). if y \<noteq> 0 then rust_rem w x y else Inr 0"
  let ?ps = "zip (pa_values a) (pa_values b)"
  have "(- (2 ^ (w - 1)), -1) \<in> set ?ps"
    using assms(3-6) by (auto simp: in_set_zip pa_len_def)
  then have "mapR ?f ?ps = Inl Panic"
    by (rule mapR_panic) (auto simp: rust_rem_def split: if_splits)
  then have "prim_wrapping_mod True w a b = Inl Panic"
    using prim_binary_values_eq [of "a\<lparr>pa_validity := None\<rparr>" "b\<lparr>pa_validity := None\<rparr>"
        "\<lambda>x y. if y \<noteq> 0 then rust_rem w x y else Inr 0"] assms(3)
    by (simp add: prim_wrapping_mod_def div_masked_def take_validity_def pa_inv_def pa_len_def)
  with assms(1) show ?thesis by (simp add: prim_wrapping_mod_scalar_def)
qed

theorem consistent_mod_overflow_panics_witness:
  "prim_wrapping_mod True 8 (from_vec [5, -128]) (from_vec [3, -1]) = Inl Panic"
  using consistent_mod_overflow_panics [of "from_vec [5, -128]" "from_vec [3, -1]" 1 8 plain_division] by simp

end
