(* ===== verification/BitUtils.thy ===== *)
theory BitUtils
  imports Prelude
begin

section \<open>Bits in byte slices\<close>

text \<open>
  The bit utilities of \<^verbatim>\<open>crates/polars-arrow/src/bitmap/utils/mod.rs\<close>, the padded load of
  \<^verbatim>\<open>crates/polars-utils/src/slice.rs\<close> and the split of a bitmap into a prefix, an aligned bulk
  and a suffix of \<^verbatim>\<open>crates/polars-arrow/src/bitmap/aligned.rs\<close>. A byte slice holds its bits
  with the least significant bit first; \<open>bits_of\<close> reads them as a list of booleans. The
  lemmas show that counting zeros through 64-bit words gives the number of unset bits,
  whatever the address of the slice.

  Two things about memory are parameters: the address of the slice, on which the split
  depends, and the reinterpretation of aligned bytes as words (\<^verbatim>\<open>bytemuck::cast_slice\<close>), of
  which \<open>good_platform\<close> states the documented behaviour on a little-endian machine.
  Bit lengths are natural numbers: the code's saturating additions differ from additions
  only for lengths within eight of the largest \<open>usize\<close>.
\<close>

subsection \<open>Model\<close>

definition byte_bits :: "u8 \<Rightarrow> bool list" where
  "byte_bits b = map (bit b) [0..<8]"

definition bits_of :: "bytes \<Rightarrow> bool list" where
  "bits_of bs = concat (map byte_bits bs)"

definition is_set :: "u8 \<Rightarrow> nat \<Rightarrow> bool" where
  "is_set byte i \<longleftrightarrow> byte AND push_bit i 1 \<noteq> 0"

definition set_u8 :: "u8 \<Rightarrow> nat \<Rightarrow> bool \<Rightarrow> u8" where
  "set_u8 byte i value =
     (let mask = NOT (push_bit i 1); insert = push_bit i (of_bool value)
      in (byte AND mask) OR insert)"

definition set_bit_bytes :: "bytes \<Rightarrow> nat \<Rightarrow> bool \<Rightarrow> bytes res" where
  "set_bit_bytes bs i value =
     assert_that (i div 8 < length bs) (Inr (bs[i div 8 := set_u8 (bs ! (i div 8)) (i mod 8) value]))"

definition set_bit_unchecked :: "bytes \<Rightarrow> nat \<Rightarrow> bool \<Rightarrow> bytes res" where
  "set_bit_unchecked bs i value =
     (if i div 8 < length bs then Inr (bs[i div 8 := set_u8 (bs ! (i div 8)) (i mod 8) value])
      else Inl UB)"

definition get_bit :: "bytes \<Rightarrow> nat \<Rightarrow> bool res" where
  "get_bit bs i =
     assert_that (i div 8 < length bs)
       (let byte = bs ! (i div 8); b = drop_bit (i mod 8) byte AND 1 in Inr (b \<noteq> 0))"

definition get_bit_unchecked :: "bytes \<Rightarrow> nat \<Rightarrow> bool res" where
  "get_bit_unchecked bs i =
     (if i div 8 < length bs
      then (let byte = bs ! (i div 8); b = drop_bit (i mod 8) byte AND 1 in Inr (b \<noteq> 0))
      else Inl UB)"

definition bytes_for :: "nat \<Rightarrow> nat" where
  "bytes_for n = (n + 7) div 8"

definition from_le_bytes :: "bytes \<Rightarrow> 'a::len word" where
  "from_le_bytes bs = foldr (\<lambda>b acc. push_bit 8 acc OR ucast b) bs 0"

definition count_ones :: "'a::len word \<Rightarrow> nat" where
  "count_ones w = length (filter (bit w) [0..<LENGTH('a)])"

definition load_padded_le_u64 :: "bytes \<Rightarrow> u64" where
  "load_padded_le_u64 bs =
     (let n = length bs in
      if 8 \<le> n then from_le_bytes (take 8 bs)
      else if 4 \<le> n then
        (let lo = (from_le_bytes (take 4 bs) :: u32);
             hi = (from_le_bytes (take 4 (drop (n - 4) bs)) :: u32)
         in ucast lo OR push_bit (8 * (n - 4)) (ucast hi))
      else if n = 0 then 0
      else
        (let lo = ucast (bs ! 0);
             mid = push_bit (8 * (n div 2)) (ucast (bs ! (n div 2)));
             hi = push_bit (8 * (n - 1)) (ucast (bs ! (n - 1)))
         in lo OR mid OR hi))"

record platform =
  ptr_addr :: nat
  cast_slice :: "nat \<Rightarrow> bytes \<Rightarrow> u64 list res"

fun le_words :: "bytes \<Rightarrow> u64 list" where
  "le_words (a # b # c # d # e # f # g # h # bs) = from_le_bytes [a, b, c, d, e, f, g, h] # le_words bs"
| "le_words bs = []"

definition good_platform :: "platform \<Rightarrow> bool" where
  "good_platform p \<longleftrightarrow>
     (\<forall>a bs. a mod 8 = 0 \<longrightarrow> length bs mod 8 = 0 \<longrightarrow> cast_slice p a bs = Inr (le_words bs))"

definition load_chunk_le :: "bytes \<Rightarrow> u64" where
  "load_chunk_le src =
     (if length src = 8 then from_le_bytes src
      else (let n = min (length src) 8 in from_le_bytes (take n src @ replicate (8 - n) 0)))"

record aligned_slice =
  al_prefix :: u64
  al_prefix_len :: nat
  al_bulk :: "u64 list"
  al_suffix :: u64
  al_suffix_len :: nat

definition align_offset :: "nat \<Rightarrow> nat" where
  "align_offset a = (8 - a mod 8) mod 8"

definition low_mask :: "nat \<Rightarrow> u64" where
  "low_mask n = push_bit n 1 - 1"

definition split_at :: "'a list \<Rightarrow> nat \<Rightarrow> ('a list \<times> 'a list) res" where
  "split_at xs n = assert_that (n \<le> length xs) (Inr (take n xs, drop n xs))"

definition al_new_split :: "platform \<Rightarrow> nat \<Rightarrow> bytes \<Rightarrow> nat \<Rightarrow> nat \<Rightarrow> aligned_slice res" where
  "al_new_split p start bs offset len =
     (let align0 = align_offset (ptr_addr p + start);
          align = (if offset > 8 * align0 then align0 + 8 else align0);
          prefix_len = min (8 * align - offset) len;
          rest_len = len - prefix_len;
          suffix_len = rest_len mod 64;
          bulk_len = rest_len - suffix_len
      in rbind (split_at bs align) (\<lambda>(prefix_bytes, rest_bytes).
         rbind (split_at rest_bytes (bulk_len div 8)) (\<lambda>(bulk_bytes, suffix_bytes).
         rbind (cast_slice p (ptr_addr p + start + align) bulk_bytes) (\<lambda>bulk.
         Inr \<lparr>al_prefix = drop_bit offset (load_chunk_le prefix_bytes) AND low_mask prefix_len,
              al_prefix_len = prefix_len, al_bulk = bulk,
              al_suffix = load_chunk_le suffix_bytes AND low_mask suffix_len,
              al_suffix_len = suffix_len\<rparr>))))"

definition al_new :: "platform \<Rightarrow> bytes \<Rightarrow> nat \<Rightarrow> nat \<Rightarrow> aligned_slice res" where
  "al_new p bs offset len =
     (if len = 0
      then Inr \<lparr>al_prefix = 0, al_prefix_len = 0, al_bulk = [], al_suffix = 0, al_suffix_len = 0\<rparr>
      else assert_that (length bs * 8 \<ge> offset + len)
        (let start = offset div 8; bs' = drop start bs; offset' = offset mod 8 in
         if offset' + len \<le> 64
         then (let w = drop_bit offset' (load_chunk_le bs');
                   prefix = (if len < 64 then w AND low_mask len else w)
               in Inr \<lparr>al_prefix = prefix, al_prefix_len = len, al_bulk = [], al_suffix = 0,
                       al_suffix_len = 0\<rparr>)
         else al_new_split p start bs' offset' len))"

definition count_zeros :: "platform \<Rightarrow> bytes \<Rightarrow> nat \<Rightarrow> nat \<Rightarrow> nat res" where
  "count_zeros p bs offset len =
     (if len = 0 then Inr 0
      else assert_that (8 * length bs \<ge> offset + len)
        (let first_byte_idx = offset div 8; offset_in_byte = offset mod 8 in
         if offset_in_byte + len \<le> 64
         then (let w0 = load_padded_le_u64 (drop first_byte_idx bs);
                   w1 = drop_bit offset_in_byte w0;
                   w2 = push_bit (64 - len) w1
               in Inr (len - count_ones w2))
         else rbind (al_new p bs offset len) (\<lambda>al.
           Inr (len - count_ones (al_prefix al) - sum_list (map count_ones (al_bulk al))
                - count_ones (al_suffix al)))))"

subsection \<open>Bit lists\<close>

definition bit_at :: "bytes \<Rightarrow> nat \<Rightarrow> bool" where
  "bit_at bs i \<longleftrightarrow> i div 8 < length bs \<and> bit (bs ! (i div 8)) (i mod 8)"

named_theorems bit_list_simps "bit lists of byte slices"

lemma length_byte_bits [simp]: "length (byte_bits b) = 8"
  by (simp add: byte_bits_def)

lemma byte_bits_not_Nil [simp]: "byte_bits b \<noteq> []"
  by (simp add: byte_bits_def)

lemma nth_byte_bits [simp]: "i < 8 \<Longrightarrow> byte_bits b ! i = bit b i"
  by (simp add: byte_bits_def)

lemma bits_of_Nil [simp]: "bits_of [] = []"
  and bits_of_Cons: "bits_of (b # bs) = byte_bits b @ bits_of bs"
  and bits_of_append [simp]: "bits_of (bs @ cs) = bits_of bs @ bits_of cs"
  and bits_of_single [simp]: "bits_of [b] = byte_bits b"
  by (simp_all add: bits_of_def)

lemma length_bits_of [simp]: "length (bits_of bs) = 8 * length bs"
  by (induction bs) (simp_all add: bits_of_Cons)

lemma bits_of_nth: "i < 8 * length bs \<Longrightarrow> bits_of bs ! i = bit (bs ! (i div 8)) (i mod 8)"
proof (induction bs arbitrary: i)
  case (Cons b bs)
  show ?case
  proof (cases "i < 8")
    case False
    then have "i div 8 = Suc ((i - 8) div 8)" "i mod 8 = (i - 8) mod 8"
      by (simp_all add: le_div_geq le_mod_geq)
    with Cons False show ?thesis by (simp add: bits_of_Cons nth_append)
  qed (simp add: bits_of_Cons nth_append)
qed simp

lemma bit_at_bits_of: "bit_at bs i \<longleftrightarrow> i < 8 * length bs \<and> bits_of bs ! i"
  by (auto simp: bit_at_def bits_of_nth less_mult_imp_div_less mult.commute)

lemma bit_at_Nil [simp]: "\<not> bit_at [] i"
  by (simp add: bit_at_def)

lemma bit_at_drop: "bit_at (drop n bs) i \<longleftrightarrow> bit_at bs (8 * n + i)"
  by (auto simp: bit_at_def add.commute less_diff_conv)

lemma bit_at_take: "bit_at (take n bs) i \<longleftrightarrow> i < 8 * n \<and> bit_at bs i"
  by (auto simp: bit_at_def div_less_iff_less_mult mult.commute)

lemma bit_at_append:
  "bit_at (bs @ cs) i \<longleftrightarrow> (if i < 8 * length bs then bit_at bs i else bit_at cs (i - 8 * length bs))"
  by (auto simp: bit_at_bits_of nth_append)

lemma bit_at_zeros [simp]: "\<not> bit_at (replicate n 0) i"
  by (simp add: bit_at_def)

lemma bit_at_single [simp]: "bit_at [b] i \<longleftrightarrow> bit b i"
proof
  assume "bit b i"
  then have "i < LENGTH(8)" by (rule bit_imp_le_length)
  with \<open>bit b i\<close> show "bit_at [b] i" by (simp add: bit_at_def)
qed (auto simp: bit_at_def)

lemma from_le_bytes_Nil [simp]: "from_le_bytes [] = 0"
  and from_le_bytes_Cons: "from_le_bytes (b # bs) = push_bit 8 (from_le_bytes bs) OR ucast b"
  by (simp_all add: from_le_bytes_def)

lemma bit_u8_less: "bit (b :: u8) i \<Longrightarrow> i < 8"
  using bit_imp_le_length [of b i] by simp

lemma bit_u64_less: "bit (b :: u64) i \<Longrightarrow> i < 64"
  using bit_imp_le_length [of b i] by simp

lemma bit_from_le_bytes:
  "bit (from_le_bytes bs :: 'a::len word) i \<longleftrightarrow> i < LENGTH('a) \<and> bit_at bs i"
proof (induction bs arbitrary: i)
  case (Cons b bs)
  have "bit_at (b # bs) i \<longleftrightarrow> (if i < 8 then bit b i else bit_at bs (i - 8))"
    using bit_at_append [of "[b]" bs i] by simp
  moreover have "bit (from_le_bytes (b # bs) :: 'a word) i \<longleftrightarrow>
      i < LENGTH('a) \<and> (8 \<le> i \<and> bit_at bs (i - 8) \<or> bit b i)"
    by (simp add: from_le_bytes_Cons bit_or_iff bit_push_bit_iff bit_ucast_iff Cons) auto
  ultimately show ?case
    using bit_u8_less [of b i] by auto
qed simp

lemma bit_at_Cons: "bit_at (b # bs) i \<longleftrightarrow> (if i < 8 then bit b i else bit_at bs (i - 8))"
  using bit_at_append [of "[b]" bs i] by simp

lemma bit_at_less: "bit_at bs i \<Longrightarrow> i < 8 * length bs"
  by (simp add: bit_at_bits_of)

lemma bit_load_padded_le_u64: "bit (load_padded_le_u64 bs) i \<longleftrightarrow> i < 64 \<and> bit_at bs i"
proof -
  let ?n = "length bs"
  consider "8 \<le> ?n" | "4 \<le> ?n" "?n < 8" | "bs = []" | a where "bs = [a]"
    | a b where "bs = [a, b]" | a b c where "bs = [a, b, c]"
  proof (cases "4 \<le> ?n")
    case False
    then have "?n = 0 \<or> ?n = Suc 0 \<or> ?n = Suc (Suc 0) \<or> ?n = Suc (Suc (Suc 0))" by linarith
    with that show ?thesis by (auto simp: length_Suc_conv)
  qed (use that in linarith)
  then show ?thesis
  proof cases
    case 1
    then show ?thesis by (auto simp: load_padded_le_u64_def bit_from_le_bytes bit_at_take)
  next
    case 2
    have "bit_at bs i \<Longrightarrow> i < 32 \<or> 8 * (?n - 4) \<le> i \<and> i - 8 * (?n - 4) < 32"
      using bit_at_less [of bs i] 2 by linarith
    with 2 show ?thesis
      by (auto simp: load_padded_le_u64_def Let_def bit_or_iff bit_push_bit_iff bit_ucast_iff
          bit_from_le_bytes bit_at_take bit_at_drop)
  qed (auto simp: load_padded_le_u64_def Let_def bit_or_iff bit_push_bit_iff bit_ucast_iff bit_at_Cons
      dest: bit_u8_less)
qed

lemma bit_load_chunk_le: "bit (load_chunk_le bs) i \<longleftrightarrow> i < 64 \<and> bit_at bs i"
  using bit_at_less [of bs i]
  by (auto simp: load_chunk_le_def Let_def bit_from_le_bytes bit_at_append bit_at_take min_def)

lemma bit_low_mask: "n < 64 \<Longrightarrow> bit (low_mask n) i \<longleftrightarrow> i < n"
  by (auto simp: low_mask_def push_bit_of_1 mask_eq_exp_minus_1 [symmetric] bit_mask_iff)

subsection \<open>Counting\<close>

definition word_bits :: "'a::len word \<Rightarrow> nat \<Rightarrow> bool list" where
  "word_bits w n = map (bit w) [0..<n]"

definition al_bits :: "aligned_slice \<Rightarrow> bool list" where
  "al_bits al = word_bits (al_prefix al) (al_prefix_len al)
     @ concat (map (\<lambda>w. word_bits w 64) (al_bulk al)) @ word_bits (al_suffix al) (al_suffix_len al)"

definition window :: "bytes \<Rightarrow> nat \<Rightarrow> nat \<Rightarrow> bool list" where
  "window bs off len = take len (drop off (bits_of bs))"

lemma length_word_bits [simp]: "length (word_bits w n) = n"
  by (simp add: word_bits_def)

lemma length_window [simp]: "off + len \<le> 8 * length bs \<Longrightarrow> length (window bs off len) = len"
  by (simp add: window_def)

lemma window_nth: "off + len \<le> 8 * length bs \<Longrightarrow> i < len \<Longrightarrow> window bs off len ! i = bit_at bs (off + i)"
  by (simp add: window_def bit_at_bits_of)

lemma word_bits_window:
  assumes "off + n \<le> 8 * length bs" and "\<And>i. i < n \<Longrightarrow> bit w i \<longleftrightarrow> bit_at bs (off + i)"
  shows "word_bits w n = window bs off n"
  using assms by (intro nth_equalityI) (simp_all add: word_bits_def window_nth)

lemma window_split: "window bs off (m + n) = window bs off m @ window bs (off + m) n"
  by (simp add: window_def take_add add.commute)

lemma bits_of_take: "bits_of (take n bs) = take (8 * n) (bits_of bs)"
proof (induction bs arbitrary: n)
  case (Cons b bs)
  then show ?case by (cases n) (simp_all add: bits_of_Cons)
qed simp

lemma bits_of_drop: "bits_of (drop n bs) = drop (8 * n) (bits_of bs)"
proof (induction bs arbitrary: n)
  case (Cons b bs)
  then show ?case by (cases n) (simp_all add: bits_of_Cons)
qed simp

lemma le_words_bits: "length bs mod 8 = 0 \<Longrightarrow> concat (map (\<lambda>w. word_bits w 64) (le_words bs)) = bits_of bs"
proof (induction bs rule: le_words.induct)
  case (1 a b c d e f g h bs)
  have "word_bits (from_le_bytes [a, b, c, d, e, f, g, h] :: u64) 64
      = window [a, b, c, d, e, f, g, h] 0 64"
    by (rule word_bits_window) (simp_all add: bit_from_le_bytes)
  also have "\<dots> = bits_of [a, b, c, d, e, f, g, h]"
    by (simp add: window_def)
  finally have w: "word_bits (from_le_bytes [a, b, c, d, e, f, g, h] :: u64) 64
      = bits_of [a, b, c, d, e, f, g, h]" .
  have "length (a # b # c # d # e # f # g # h # bs) = length bs + 8" by simp
  with "1.prems" have "length bs mod 8 = 0" by (metis mod_add_self2)
  with "1.IH" w bits_of_append [of "[a, b, c, d, e, f, g, h]" bs] show ?case by simp
qed (simp_all add: mod_Suc)

lemma count_ones_word_bits:
  assumes "\<And>i. bit (w :: 'a::len word) i \<Longrightarrow> i < n"
  shows "count_ones w = length (filter id (word_bits w n))"
proof -
  have "count_ones w = card (set (filter (bit w) [0..<LENGTH('a)]))"
    unfolding count_ones_def by (subst distinct_card) auto
  also have "set (filter (bit w) [0..<LENGTH('a)]) = set (filter (bit w) [0..<n])"
    using assms by (auto dest: bit_imp_le_length)
  also have "card \<dots> = length (filter (bit w) [0..<n])"
    by (subst distinct_card) auto
  also have "\<dots> = length (filter id (word_bits w n))"
    by (simp add: word_bits_def filter_map comp_def id_def)
  finally show ?thesis .
qed

lemma filter_Not_length: "length (filter Not xs) = length xs - length (filter id xs)"
  using sum_length_filter_compl [of id xs] by (simp add: id_def)

subsection \<open>The split into words\<close>

definition al_ok :: "aligned_slice \<Rightarrow> bool" where
  "al_ok al \<longleftrightarrow> (\<forall>i. bit (al_prefix al) i \<longrightarrow> i < al_prefix_len al) \<and>
     (\<forall>i. bit (al_suffix al) i \<longrightarrow> i < al_suffix_len al)"

lemma align_offset_le: "align_offset a \<le> 7"
  using mod_less_divisor [of 8 "8 - a mod 8"] by (simp add: align_offset_def)

lemma align_offset_dvd: "8 dvd a + align_offset a"
proof -
  define d m where "d = a div 8" and "m = a mod 8"
  have a: "a = 8 * d + m" "m < 8" by (simp_all add: d_def m_def)
  have "align_offset a = (8 - m) mod 8" by (simp add: align_offset_def m_def)
  with a(2) have "a + align_offset a = 8 * (if m = 0 then d else d + 1)"
    by (simp add: a(1))
  then show ?thesis by simp
qed

lemma al_new_split_correct:
  assumes gp: "good_platform p" and off: "offset < 8" and big: "64 < offset + len"
    and fits: "offset + len \<le> 8 * length bs"
  shows "\<exists>al. al_new_split p start bs offset len = Inr al \<and> al_bits al = window bs offset len \<and> al_ok al"
proof -
  define addr where "addr = ptr_addr p + start"
  define a where "a = (if offset > 8 * align_offset addr then align_offset addr + 8 else align_offset addr)"
  define P where "P = 8 * a - offset"
  define k where "k = (len - P) div 64"
  define s where "s = (len - P) mod 64"
  have "8 dvd addr + a"
    using align_offset_dvd [of addr] by (simp add: a_def add.assoc [symmetric])
  then have a: "a \<le> 8" "offset \<le> 8 * a" "(addr + a) mod 8 = 0" "a = 8 \<Longrightarrow> 0 < offset"
    using align_offset_le [of addr] off by (auto simp: a_def split: if_splits)
  have "P < 64"
    using a(1,4) by (cases "a = 8") (auto simp: P_def)
  then have P: "min (8 * a - offset) len = P" "P < 64" "P \<le> len" "offset + P = 8 * a"
    using a(1,2) big by (auto simp: P_def)
  have rest: "len - P = 64 * k + s" "s < 64" "len = P + (64 * k + s)"
    using P(3) by (simp_all add: k_def s_def)
  then have bulk: "(len - (P + s)) div 8 = 8 * k" by simp
  have fits': "8 * a + (64 * k + s) \<le> 8 * length bs"
    using fits rest(3) P(4) by linarith
  define bb where "bb = take (8 * k) (drop a bs)"
  have bb: "length bb = 8 * k" using fits' by (simp add: bb_def)
  have cast: "cast_slice p (addr + a) bb = Inr (le_words bb)"
    using gp a(3) bb by (simp add: good_platform_def)
  let ?pre = "drop_bit offset (load_chunk_le (take a bs)) AND low_mask P"
  let ?suf = "load_chunk_le (drop (8 * k + a) bs) AND low_mask s"
  have pre: "bit ?pre i \<longleftrightarrow> i < P \<and> bit_at bs (offset + i)" for i
    using P(2,4) a(1)
    by (auto simp: bit_and_iff bit_drop_bit_eq bit_load_chunk_le bit_low_mask bit_at_take)
  have suf: "bit ?suf i \<longleftrightarrow> i < s \<and> bit_at bs (8 * a + 64 * k + i)" for i
    using rest(2)
    by (auto simp: bit_and_iff bit_load_chunk_le bit_low_mask bit_at_drop algebra_simps)
  let ?al = "\<lparr>al_prefix = ?pre, al_prefix_len = P, al_bulk = le_words bb, al_suffix = ?suf, al_suffix_len = s\<rparr>"
  have "al_new_split p start bs offset len = Inr ?al"
    using fits' a(1) cast
    by (simp add: al_new_split_def Let_def addr_def [symmetric] a_def [symmetric] P(1) s_def [symmetric]
        bulk split_at_def bb_def [symmetric])
  moreover have "word_bits ?pre P = window bs offset P"
    using fits P(3) by (intro word_bits_window) (simp_all add: pre)
  moreover have "concat (map (\<lambda>w. word_bits w 64) (le_words bb)) = window bs (8 * a) (64 * k)"
    using bb by (simp add: le_words_bits bb_def bits_of_take bits_of_drop window_def)
  moreover have "word_bits ?suf s = window bs (8 * a + 64 * k) s"
    using fits' by (intro word_bits_window) (simp_all add: suf)
  ultimately show ?thesis
    using P(4) rest(3) window_split [of bs offset P "64 * k + s"] window_split [of bs "8 * a" "64 * k" s]
    by (simp add: al_bits_def al_ok_def pre suf)
qed

lemma window_drop: "window (drop n bs) off len = window bs (8 * n + off) len"
  by (simp add: window_def bits_of_drop add.commute)

lemma offset_split: "8 * (n div 8) + n mod 8 = (n :: nat)"
  by simp

lemma window_fits:
  assumes "offset + len \<le> 8 * length bs"
  shows "offset mod 8 + len \<le> 8 * length (drop (offset div 8) bs)"
proof -
  define d m where "d = offset div 8" and "m = offset mod 8"
  have "offset = 8 * d + m" by (simp add: d_def m_def)
  with assms have "m + len \<le> 8 * (length bs - d)" by simp
  then show ?thesis by (simp add: d_def m_def)
qed

lemma al_new_correct:
  assumes "good_platform p" and "offset + len \<le> 8 * length bs"
  shows "\<exists>al. al_new p bs offset len = Inr al \<and> al_bits al = window bs offset len \<and> al_ok al"
proof (cases "len = 0")
  case True
  then show ?thesis by (simp add: al_new_def al_bits_def al_ok_def window_def word_bits_def)
next
  case False
  define o8 bs' where "o8 = offset mod 8" and "bs' = drop (offset div 8) bs"
  have fits: "o8 + len \<le> 8 * length bs'"
    using window_fits [OF assms(2)] by (simp add: o8_def bs'_def)
  have win: "window bs' o8 len = window bs offset len"
    by (simp add: bs'_def o8_def window_drop)
  show ?thesis
  proof (cases "o8 + len \<le> 64")
    case True
    let ?w = "drop_bit o8 (load_chunk_le bs')"
    define pre where "pre = (if len < 64 then ?w AND low_mask len else ?w)"
    have pre: "bit pre i \<longleftrightarrow> i < len \<and> bit_at bs' (o8 + i)" for i
      using True
      by (auto simp: pre_def bit_and_iff bit_drop_bit_eq bit_load_chunk_le bit_low_mask)
    have "word_bits pre len = window bs' o8 len"
      using fits by (intro word_bits_window) (simp_all add: pre)
    moreover have "al_new p bs offset len = Inr \<lparr>al_prefix = pre, al_prefix_len = len, al_bulk = [],
        al_suffix = 0, al_suffix_len = 0\<rparr>"
      using assms(2) False True by (simp add: al_new_def Let_def o8_def bs'_def pre_def)
    ultimately show ?thesis
      by (simp add: al_bits_def al_ok_def win pre) (simp add: word_bits_def)
  next
    case big: False
    have "al_new p bs offset len = al_new_split p (offset div 8) bs' o8 len"
      using assms(2) False big by (simp add: al_new_def Let_def o8_def bs'_def)
    with al_new_split_correct [OF assms(1) _ _ fits, of "offset div 8"] big win show ?thesis
      by (simp add: o8_def)
  qed
qed

lemma al_ok_counts:
  assumes "al_ok al"
  shows "count_ones (al_prefix al) + sum_list (map count_ones (al_bulk al)) + count_ones (al_suffix al)
    = length (filter id (al_bits al))"
proof -
  have "map count_ones (al_bulk al) = map (\<lambda>w. length (filter id (word_bits w 64))) (al_bulk al)"
    by (simp add: count_ones_word_bits [OF bit_u64_less])
  then have "sum_list (map count_ones (al_bulk al))
      = length (filter id (concat (map (\<lambda>w. word_bits w 64) (al_bulk al))))"
    by (simp only: filter_concat length_concat map_map comp_def)
  moreover have "count_ones (al_prefix al) = length (filter id (word_bits (al_prefix al) (al_prefix_len al)))"
      "count_ones (al_suffix al) = length (filter id (word_bits (al_suffix al) (al_suffix_len al)))"
    using assms by (auto simp: al_ok_def intro!: count_ones_word_bits)
  ultimately show ?thesis
    by (simp only: al_bits_def filter_append length_append)
qed

lemma count_zeros_correct:
  assumes "good_platform p" and "offset + len \<le> 8 * length bs"
  shows "count_zeros p bs offset len = Inr (length (filter Not (window bs offset len)))"
proof (cases "len = 0")
  case True
  then show ?thesis by (simp add: count_zeros_def window_def)
next
  case False
  define o8 bs' where "o8 = offset mod 8" and "bs' = drop (offset div 8) bs"
  have fits: "o8 + len \<le> 8 * length bs'"
    using window_fits [OF assms(2)] by (simp add: o8_def bs'_def)
  have win: "window bs' o8 len = window bs offset len"
    by (simp add: bs'_def o8_def window_drop)
  have len: "length (window bs offset len) = len" using assms(2) by simp
  show ?thesis
  proof (cases "o8 + len \<le> 64")
    case True
    let ?w1 = "drop_bit o8 (load_padded_le_u64 bs')"
    let ?w2 = "push_bit (64 - len) ?w1"
    have "word_bits ?w2 64 = replicate (64 - len) False @ window bs' o8 len"
      using True fits
      by (intro nth_equalityI)
        (auto simp: word_bits_def nth_append window_nth bit_push_bit_iff bit_drop_bit_eq
          bit_load_padded_le_u64)
    then have "count_ones ?w2 = length (filter id (window bs' o8 len))"
      using count_ones_word_bits [of ?w2 64, OF bit_u64_less] by simp
    then show ?thesis
      using assms(2) False True
      by (simp add: count_zeros_def Let_def o8_def [symmetric] bs'_def [symmetric] win
          filter_Not_length len)
  next
    case big: False
    obtain al where al: "al_new p bs offset len = Inr al" "al_bits al = window bs offset len" "al_ok al"
      using al_new_correct [OF assms] by blast
    with al_ok_counts [OF al(3)] show ?thesis
      using assms(2) False big
      by (simp add: count_zeros_def Let_def o8_def [symmetric] filter_Not_length len)
  qed
qed

subsection \<open>Reading and writing one bit\<close>

lemma bit_of_masked: "(drop_bit k b AND 1 \<noteq> 0) \<longleftrightarrow> bit (b :: 'a::len word) k"
  by (simp add: and_one_eq bit_iff_odd_drop_bit odd_iff_mod_2_eq_one)

lemma is_set_iff: "i < 8 \<Longrightarrow> is_set b i \<longleftrightarrow> bit b i"
proof -
  assume i: "i < 8"
  have "bit (b AND push_bit i 1) j \<longleftrightarrow> j = i \<and> bit b i" for j
    using i by (auto simp: bit_and_iff bit_exp_iff push_bit_of_1 dest: bit_u8_less)
  then have "(b AND push_bit i 1 = 0) \<longleftrightarrow> \<not> bit b i"
    by (metis bit_0_eq bit_eqI bot_apply bot_bool_def)
  then show ?thesis by (simp add: is_set_def)
qed

lemma bit_set_u8: "i < 8 \<Longrightarrow> bit (set_u8 b i v) j \<longleftrightarrow> (if j = i then v else bit b j)"
  by (auto simp: set_u8_def bit_or_iff bit_and_iff bit_not_iff bit_push_bit_iff bit_1_iff bit_exp_iff push_bit_of_1
      dest: bit_u8_less)

lemma byte_bits_set: "i < 8 \<Longrightarrow> byte_bits (set_u8 b i v) = (byte_bits b)[i := v]"
  by (intro nth_equalityI) (auto simp: bit_set_u8 nth_list_update)

lemma bits_of_update:
  assumes "k < length bs"
  shows "bits_of (bs[k := b]) = take (8 * k) (bits_of bs) @ byte_bits b @ drop (8 + 8 * k) (bits_of bs)"
  using assms
  by (simp add: upd_conv_take_nth_drop bits_of_take bits_of_drop bits_of_Cons)

lemma bits_of_set_bit:
  assumes "i < 8 * length bs"
  shows "bits_of (bs[i div 8 := set_u8 (bs ! (i div 8)) (i mod 8) v]) = (bits_of bs)[i := v]"
proof (rule nth_equalityI)
  fix j assume "j < length (bits_of (bs[i div 8 := set_u8 (bs ! (i div 8)) (i mod 8) v]))"
  moreover have "j = i \<longleftrightarrow> j div 8 = i div 8 \<and> j mod 8 = i mod 8"
    by (metis mult_div_mod_eq)
  moreover have "i div 8 < length bs" using assms by (simp add: less_mult_imp_div_less mult.commute)
  ultimately show "bits_of (bs[i div 8 := set_u8 (bs ! (i div 8)) (i mod 8) v]) ! j = (bits_of bs)[i := v] ! j"
    using assms by (auto simp: bits_of_nth nth_list_update bit_set_u8)
qed simp

lemma get_bit_ok: "i < 8 * length bs \<Longrightarrow> get_bit bs i = Inr (bits_of bs ! i)"
  by (simp add: get_bit_def bit_of_masked bits_of_nth less_mult_imp_div_less mult.commute)

lemma get_bit_unchecked_ok: "i < 8 * length bs \<Longrightarrow> get_bit_unchecked bs i = Inr (bits_of bs ! i)"
  by (simp add: get_bit_unchecked_def bit_of_masked bits_of_nth less_mult_imp_div_less mult.commute)

subsection \<open>Properties\<close>

text \<open>
  C4. At every address of the storage and for every range of bits in it, the split into a
  prefix, an aligned bulk of 64-bit words and a suffix lists exactly the bits of the range,
  with nothing but zeros above the prefix and the suffix, and counting the zeros of the range
  through words gives the number of unset bits, without reading out of bounds.
\<close>

theorem bit_range_words_exact:
  assumes "good_platform p" and "offset + len \<le> 8 * length bs"
  shows "(\<exists>al. al_new p bs offset len = Inr al \<and> al_bits al = window bs offset len \<and> al_ok al) \<and>
    count_zeros p bs offset len = Inr (length (filter Not (window bs offset len)))"
  using al_new_correct [OF assms] count_zeros_correct [OF assms] by blast

theorem bit_range_words_exact_witness:
  "count_zeros \<lparr>ptr_addr = 7, cast_slice = (\<lambda>_ bs. Inr (le_words bs))\<rparr> [255, 1, 0] 4 9 = Inr 4"
proof -
  have "good_platform \<lparr>ptr_addr = 7, cast_slice = (\<lambda>_ bs. Inr (le_words bs))\<rparr>"
    by (simp add: good_platform_def)
  moreover have "window [255, 1, 0] 4 9 = [True, True, True, True, True, False, False, False, False]"
    by (simp add: window_def bits_of_Cons byte_bits_def upt_rec)
  ultimately show ?thesis
    using bit_range_words_exact [of _ 4 9 "[255, 1, 0]"] by simp
qed

end
