(* ===== verification/MutBitmap.thy ===== *)
theory MutBitmap
  imports BitUtils
begin

section \<open>Mutable bitmaps\<close>

text \<open>
  \<^verbatim>\<open>MutableBitmap\<close> of \<^verbatim>\<open>crates/polars-arrow/src/bitmap/mutable.rs\<close>: a growable vector of
  booleans packed in bytes, whose invariant is that the buffer holds exactly the bytes
  its length needs. An iterator of booleans is the list of what it yields. The lemmas
  show that it behaves as a vector of booleans under every sequence of operations, except
  that extending a bitmap that ends on a byte boundary with an empty iterator breaks the
  invariant.
\<close>

subsection \<open>Model\<close>

record mbitmap =
  mb_buffer :: bytes
  mb_length :: nat

definition mb_new :: mbitmap where
  "mb_new = \<lparr>mb_buffer = [], mb_length = 0\<rparr>"

definition mb_try_new :: "bytes \<Rightarrow> nat \<Rightarrow> mbitmap res" where
  "mb_try_new bs len =
     (if len > length bs * 8 then Inl (Err ''InvalidOperation'')
      else Inr \<lparr>mb_buffer = take ((len + 7) div 8) bs, mb_length = len\<rparr>)"

definition mb_from_vec :: "bytes \<Rightarrow> nat \<Rightarrow> mbitmap res" where
  "mb_from_vec bs len =
     (case mb_try_new bs len of Inl e \<Rightarrow> Inl Panic | Inr m \<Rightarrow> Inr m)"

definition mb_push :: "bool \<Rightarrow> mbitmap \<Rightarrow> mbitmap res" where
  "mb_push value m =
     (let buffer = (if mb_length m mod 8 = 0 then mb_buffer m @ [0] else mb_buffer m) in
      if buffer = [] then Inl UB
      else Inr \<lparr>mb_buffer = butlast buffer @ [set_u8 (last buffer) (mb_length m mod 8) value],
                mb_length = mb_length m + 1\<rparr>)"

definition mb_push_unchecked :: "bool \<Rightarrow> mbitmap \<Rightarrow> mbitmap res" where
  "mb_push_unchecked value m =
     (let buffer = (if mb_length m mod 8 = 0 then mb_buffer m @ [0] else mb_buffer m) in
      if buffer = [] then Inl Panic
      else Inr \<lparr>mb_buffer = butlast buffer @ [set_u8 (last buffer) (mb_length m mod 8) value],
                mb_length = mb_length m + 1\<rparr>)"

definition mb_pop :: "mbitmap \<Rightarrow> (bool option \<times> mbitmap) res" where
  "mb_pop m =
     (if mb_length m = 0 then Inr (None, m)
      else (let len = mb_length m - 1 in
        rbind (get_bit_unchecked (mb_buffer m) len) (\<lambda>value.
        let buffer = (if len mod 8 = 0 then butlast (mb_buffer m) else mb_buffer m)
        in Inr (Some value, \<lparr>mb_buffer = buffer, mb_length = len\<rparr>))))"

definition mb_get :: "mbitmap \<Rightarrow> nat \<Rightarrow> bool res" where
  "mb_get m index = get_bit (mb_buffer m) index"

definition mb_get_unchecked :: "mbitmap \<Rightarrow> nat \<Rightarrow> bool res" where
  "mb_get_unchecked m index = get_bit_unchecked (mb_buffer m) index"

definition mb_set :: "nat \<Rightarrow> bool \<Rightarrow> mbitmap \<Rightarrow> mbitmap res" where
  "mb_set index value m =
     rbind (set_bit_bytes (mb_buffer m) index value) (\<lambda>buffer. Inr (m\<lparr>mb_buffer := buffer\<rparr>))"

definition mb_set_unchecked :: "nat \<Rightarrow> bool \<Rightarrow> mbitmap \<Rightarrow> mbitmap res" where
  "mb_set_unchecked index value m =
     rbind (set_bit_unchecked (mb_buffer m) index value) (\<lambda>buffer. Inr (m\<lparr>mb_buffer := buffer\<rparr>))"

definition mb_clear :: "mbitmap \<Rightarrow> mbitmap" where
  "mb_clear m = m\<lparr>mb_length := 0, mb_buffer := []\<rparr>"

definition mb_extend_set :: "nat \<Rightarrow> mbitmap \<Rightarrow> mbitmap res" where
  "mb_extend_set additional m =
     (let offset = mb_length m mod 8; buf = mb_buffer m in
      if offset \<noteq> 0 \<and> buf = [] then Inl Panic
      else
        (let (buf1, added) =
           (if offset \<noteq> 0
            then (let remaining = push_bit offset (drop_bit (8 - additional) (255 :: u8))
                  in (butlast buf @ [last buf OR remaining], min additional (8 - offset)))
            else (buf, 0));
           len1 = mb_length m + added;
           additional1 = additional - added
         in if additional1 > 0
            then (let existing = (len1 + 7) div 8; required = (len1 + additional1 + 7) div 8
                  in Inr \<lparr>mb_buffer = buf1 @ replicate (required - existing) 255,
                          mb_length = len1 + additional1\<rparr>)
            else Inr \<lparr>mb_buffer = buf1, mb_length = len1\<rparr>))"

definition resize :: "'a list \<Rightarrow> nat \<Rightarrow> 'a \<Rightarrow> 'a list" where
  "resize xs n x = take n xs @ replicate (n - length xs) x"

definition mb_extend_unset :: "nat \<Rightarrow> mbitmap \<Rightarrow> mbitmap res" where
  "mb_extend_unset additional m =
     (let offset = mb_length m mod 8; buf = mb_buffer m in
      if offset \<noteq> 0 \<and> buf = [] then Inl Panic
      else
        (let (buf1, added) =
           (if offset \<noteq> 0
            then (butlast buf @ [last buf AND drop_bit (8 - offset) (255 :: u8)],
                  min additional (8 - offset))
            else (buf, 0));
           len1 = mb_length m + added;
           additional1 = additional - added
         in if additional1 > 0
            then Inr \<lparr>mb_buffer = resize buf1 ((len1 + additional1 + 7) div 8) 0,
                      mb_length = len1 + additional1\<rparr>
            else Inr \<lparr>mb_buffer = buf1, mb_length = len1\<rparr>))"

definition mb_extend_constant :: "nat \<Rightarrow> bool \<Rightarrow> mbitmap \<Rightarrow> mbitmap res" where
  "mb_extend_constant additional value m =
     (if additional = 0 then Inr m
      else if value then mb_extend_set additional m
      else mb_extend_unset additional m)"

definition mb_from_len_zeroed :: "nat \<Rightarrow> mbitmap" where
  "mb_from_len_zeroed len = \<lparr>mb_buffer = replicate ((len + 7) div 8) 0, mb_length = len\<rparr>"

definition mb_from_len_set :: "nat \<Rightarrow> mbitmap" where
  "mb_from_len_set len = \<lparr>mb_buffer = replicate ((len + 7) div 8) 255, mb_length = len\<rparr>"

definition mb_unset_bits :: "platform \<Rightarrow> mbitmap \<Rightarrow> nat res" where
  "mb_unset_bits p m = count_zeros p (mb_buffer m) 0 (mb_length m)"

definition mb_set_bits :: "platform \<Rightarrow> mbitmap \<Rightarrow> nat res" where
  "mb_set_bits p m = rbind (mb_unset_bits p m) (\<lambda>n. Inr (mb_length m - n))"

fun collect_byte :: "u8 \<Rightarrow> u8 \<Rightarrow> nat \<Rightarrow> bool list \<Rightarrow> u8 \<times> u8 \<times> nat \<times> bool list \<times> bool" where
  "collect_byte msk acc n [] = (acc, msk, n, [], msk \<noteq> 0)"
| "collect_byte msk acc n (v # vs) =
     (if msk = 0 then (acc, msk, n, v # vs, False)
      else collect_byte (push_bit 1 msk) (acc OR (if v then msk else 0)) (n + 1) vs)"

lemma collect_byte_shrinks:
  "collect_byte msk acc n it = (acc', msk', n', it', e) \<Longrightarrow> length it' \<le> length it"
  by (induction msk acc n it rule: collect_byte.induct) (auto split: if_splits)

lemma collect_byte_consumes:
  "collect_byte 1 0 n it = (acc', msk', n', it', False) \<Longrightarrow> length it' < length it"
  by (cases it) (auto dest!: collect_byte_shrinks split: if_splits)

function mb_from_iter_loop :: "bytes \<Rightarrow> nat \<Rightarrow> bool list \<Rightarrow> mbitmap" where
  "mb_from_iter_loop buffer n it =
     (case collect_byte 1 0 n it of (byte, msk, n', it', exhausted) \<Rightarrow>
        if exhausted \<and> msk = 1 then \<lparr>mb_buffer = buffer, mb_length = n'\<rparr>
        else if exhausted then \<lparr>mb_buffer = buffer @ [byte], mb_length = n'\<rparr>
        else mb_from_iter_loop (buffer @ [byte]) n' it')"
  by auto
termination
  by (relation "measure (\<lambda>(b, n, it). length it)") (auto dest: sym [THEN collect_byte_consumes])

definition mb_from_iter :: "bool list \<Rightarrow> mbitmap" where
  "mb_from_iter it = mb_from_iter_loop [] 0 it"

fun take_bits :: "nat \<Rightarrow> 'a::len word \<Rightarrow> 'a word \<Rightarrow> bool list \<Rightarrow> ('a word \<times> 'a word \<times> bool list) res" where
  "take_bits 0 msk acc it = Inr (acc, msk, it)"
| "take_bits (Suc k) msk acc [] = Inl UB"
| "take_bits (Suc k) msk acc (v # vs) =
     take_bits k (push_bit 1 msk) (acc OR (if v then msk else 0)) vs"

definition get_byte_unchecked :: "nat \<Rightarrow> bool list \<Rightarrow> (u8 \<times> bool list) res" where
  "get_byte_unchecked len it = rbind (take_bits len 1 0 it) (\<lambda>(acc, _, it'). Inr (acc, it'))"

fun get_chunk_loop :: "nat list \<Rightarrow> u64 \<Rightarrow> bool list \<Rightarrow> (u64 \<times> bool list) res" where
  "get_chunk_loop [] acc it = Inr (acc, it)"
| "get_chunk_loop (i # is) acc it =
     rbind (take_bits 8 (push_bit (8 * i) 1) acc it) (\<lambda>(acc', _, it'). get_chunk_loop is acc' it')"

definition get_chunk_unchecked :: "bool list \<Rightarrow> (u64 \<times> bool list) res" where
  "get_chunk_unchecked it = get_chunk_loop [0..<8] 0 it"

definition to_le_bytes :: "u64 \<Rightarrow> bytes" where
  "to_le_bytes w = map (\<lambda>k. ucast (drop_bit (8 * k) w)) [0..<8]"

fun extend_chunks :: "nat \<Rightarrow> bytes \<Rightarrow> bool list \<Rightarrow> (bytes \<times> bool list) res" where
  "extend_chunks 0 buffer it = Inr (buffer, it)"
| "extend_chunks (Suc k) buffer it =
     rbind (get_chunk_unchecked it) (\<lambda>(chunk, it'). extend_chunks k (buffer @ to_le_bytes chunk) it')"

fun extend_bytes :: "nat \<Rightarrow> bytes \<Rightarrow> bool list \<Rightarrow> (bytes \<times> bool list) res" where
  "extend_bytes 0 buffer it = Inr (buffer, it)"
| "extend_bytes (Suc k) buffer it =
     rbind (get_byte_unchecked 8 it) (\<lambda>(byte, it'). extend_bytes k (buffer @ [byte]) it')"

definition extend_aligned_trusted_iter_unchecked :: "bytes \<Rightarrow> bool list \<Rightarrow> (bytes \<times> nat) res" where
  "extend_aligned_trusted_iter_unchecked buffer it =
     (let additional_bits = length it;
          chunks = additional_bits div 64;
          remainder = additional_bits mod 64;
          additional = (additional_bits + 7) div 8
      in assert_that (additional = chunks * 8 + remainder div 8 + of_bool (remainder mod 8 > 0))
         (rbind (extend_chunks chunks buffer it) (\<lambda>(buffer1, it1).
          rbind (extend_bytes (remainder div 8) buffer1 it1) (\<lambda>(buffer2, it2).
          if remainder mod 8 > 0
          then rbind (get_byte_unchecked (remainder mod 8) it2) (\<lambda>(byte, _).
               Inr (buffer2 @ [byte], additional_bits))
          else Inr (buffer2, additional_bits)))))"

fun set_run :: "u8 \<Rightarrow> nat \<Rightarrow> bool list \<Rightarrow> u8" where
  "set_run byte i [] = byte"
| "set_run byte i (v # vs) = set_run (set_u8 byte i v) (i + 1) vs"

definition mb_extend_from_trusted_len_iter :: "bool list \<Rightarrow> mbitmap \<Rightarrow> mbitmap res" where
  "mb_extend_from_trusted_len_iter it m =
     (let length0 = length it; bit_offset = mb_length m mod 8 in
      if length0 < 8 - bit_offset
      then (let buffer = (if bit_offset = 0 then mb_buffer m @ [0] else mb_buffer m) in
        if buffer = [] then Inl Panic
        else Inr \<lparr>mb_buffer = butlast buffer @ [set_run (last buffer) bit_offset it],
                  mb_length = mb_length m + length0\<rparr>)
      else if bit_offset \<noteq> 0
      then (if mb_buffer m = [] then Inl Panic
        else (let buffer = butlast (mb_buffer m)
                    @ [set_run (last (mb_buffer m)) bit_offset (take (8 - bit_offset) it)];
                  length1 = length0 - (8 - bit_offset)
          in rbind (extend_aligned_trusted_iter_unchecked buffer (drop (8 - bit_offset) it))
               (\<lambda>(buffer', _). Inr \<lparr>mb_buffer = buffer',
                 mb_length = mb_length m + (8 - bit_offset) + length1\<rparr>)))
      else rbind (extend_aligned_trusted_iter_unchecked (mb_buffer m) it)
             (\<lambda>(buffer', _). Inr \<lparr>mb_buffer = buffer', mb_length = mb_length m + length0\<rparr>))"

definition mb_from_trusted_len_iter :: "bool list \<Rightarrow> mbitmap res" where
  "mb_from_trusted_len_iter it =
     rbind (extend_aligned_trusted_iter_unchecked [] it)
       (\<lambda>(buffer, len). Inr \<lparr>mb_buffer = buffer, mb_length = len\<rparr>)"

definition merge_reversed :: "u8 \<Rightarrow> u8 \<Rightarrow> nat \<Rightarrow> u8" where
  "merge_reversed current next offset =
     (let inverse_offset = 8 - offset in drop_bit offset current OR push_bit inverse_offset next)"

definition subslice :: "'a list \<Rightarrow> nat \<Rightarrow> nat \<Rightarrow> 'a list res" where
  "subslice xs a n = assert_that (a + n \<le> length xs) (Inr (take n (drop a xs)))"

definition mb_extend_unaligned :: "bytes \<Rightarrow> nat \<Rightarrow> nat \<Rightarrow> mbitmap \<Rightarrow> mbitmap res" where
  "mb_extend_unaligned src offset len m =
     (let aligned_offset = offset div 8; own_offset = mb_length m mod 8;
          bytes_len = (len + 7) div 8; buf = mb_buffer m
      in rbind (subslice src aligned_offset bytes_len) (\<lambda>items.
         if buf = [] \<or> items = [] then Inl Panic
         else
           (let l = (last buf AND drop_bit (8 - own_offset) 255) OR push_bit own_offset (hd items);
                buffer = butlast buf @ [l]
            in if len + own_offset \<le> 8
               then Inr \<lparr>mb_buffer = buffer, mb_length = mb_length m + len\<rparr>
               else
                 (let additional = len - (8 - own_offset);
                      merged = map2 (\<lambda>c n. merge_reversed c n (8 - own_offset)) items (tl items @ [0])
                  in Inr \<lparr>mb_buffer = buffer @ take ((additional + 7) div 8) merged,
                          mb_length = mb_length m + len\<rparr>))))"

definition mb_extend_aligned :: "bytes \<Rightarrow> nat \<Rightarrow> nat \<Rightarrow> mbitmap \<Rightarrow> mbitmap res" where
  "mb_extend_aligned src offset len m =
     (let aligned_offset = offset div 8; bytes_len = (len + 7) div 8
      in rbind (subslice src aligned_offset bytes_len) (\<lambda>items.
         Inr \<lparr>mb_buffer = mb_buffer m @ items, mb_length = mb_length m + len\<rparr>))"

definition mb_extend_from_slice_unchecked :: "bytes \<Rightarrow> nat \<Rightarrow> nat \<Rightarrow> mbitmap \<Rightarrow> mbitmap res" where
  "mb_extend_from_slice_unchecked src offset len m =
     (if len = 0 then Inr m
      else if offset + len > 8 * length src then Inl UB
      else (case (mb_length m mod 8 = 0, offset mod 8 = 0) of
          (True, True) \<Rightarrow> mb_extend_aligned src offset len m
        | (False, True) \<Rightarrow> mb_extend_unaligned src offset len m
        | _ \<Rightarrow> mb_extend_from_trusted_len_iter (window src offset len) m))"

definition mb_extend_from_slice :: "bytes \<Rightarrow> nat \<Rightarrow> nat \<Rightarrow> mbitmap \<Rightarrow> mbitmap res" where
  "mb_extend_from_slice src offset len m =
     assert_that (offset + len \<le> length src * 8)
       (mb_extend_from_slice_unchecked src offset len m)"

subsection \<open>The vector of booleans a bitmap stands for\<close>

definition mb_inv :: "mbitmap \<Rightarrow> bool" where
  "mb_inv m \<longleftrightarrow> length (mb_buffer m) = (mb_length m + 7) div 8"

definition mb_bits :: "mbitmap \<Rightarrow> bool list" where
  "mb_bits m = window (mb_buffer m) 0 (mb_length m)"

lemma mb_inv_fits: "mb_inv m \<Longrightarrow> mb_length m \<le> 8 * length (mb_buffer m)"
  by (simp add: mb_inv_def)

lemma length_mb_bits [simp]: "mb_inv m \<Longrightarrow> length (mb_bits m) = mb_length m"
  using mb_inv_fits [of m] by (simp add: mb_bits_def)

lemma mb_aligned:
  "mb_inv \<lparr>mb_buffer = bs, mb_length = 8 * length bs\<rparr>"
  "mb_bits \<lparr>mb_buffer = bs, mb_length = 8 * length bs\<rparr> = bits_of bs"
  by (simp_all add: mb_inv_def mb_bits_def window_def)

lemma mb_partial:
  assumes "0 < k" and "k \<le> 8"
  shows "mb_inv \<lparr>mb_buffer = bs @ [b], mb_length = 8 * length bs + k\<rparr>"
    and "mb_bits \<lparr>mb_buffer = bs @ [b], mb_length = 8 * length bs + k\<rparr> = bits_of bs @ take k (byte_bits b)"
  using assms by (simp_all add: mb_inv_def mb_bits_def window_def)

lemma mb_cases [consumes 1, case_names aligned partial]:
  assumes "mb_inv m"
  obtains bs where "m = \<lparr>mb_buffer = bs, mb_length = 8 * length bs\<rparr>" "mb_length m mod 8 = 0"
      "mb_bits m = bits_of bs"
    | bs b k where "m = \<lparr>mb_buffer = bs @ [b], mb_length = 8 * length bs + k\<rparr>" "0 < k" "k < 8"
      "mb_length m mod 8 = k" "mb_bits m = bits_of bs @ take k (byte_bits b)"
proof (cases "mb_length m mod 8 = 0")
  case True
  then obtain q where q: "mb_length m = 8 * q" by auto
  with assms have "length (mb_buffer m) = q" by (simp add: mb_inv_def)
  with q have m: "m = \<lparr>mb_buffer = mb_buffer m, mb_length = 8 * length (mb_buffer m)\<rparr>" by simp
  have "mb_bits m = bits_of (mb_buffer m)"
    using q \<open>length (mb_buffer m) = q\<close> by (simp add: mb_bits_def window_def)
  from that(1) [OF m True this] show ?thesis .
next
  case False
  define q k where "q = mb_length m div 8" and "k = mb_length m mod 8"
  then have qk: "mb_length m = 8 * q + k" "0 < k" "k < 8" using False by simp_all
  with assms have "length (mb_buffer m) = Suc q" by (simp add: mb_inv_def)
  then obtain bs b where bs: "mb_buffer m = bs @ [b]" "length bs = q"
    by (cases "mb_buffer m" rule: rev_cases) auto
  with qk have m: "m = \<lparr>mb_buffer = bs @ [b], mb_length = 8 * length bs + k\<rparr>" by simp
  have "mb_bits m = bits_of bs @ take k (byte_bits b)"
    using bs qk by (simp add: mb_bits_def window_def)
  from that(2) [OF m qk(2,3) k_def [symmetric] this] show ?thesis .
qed

lemma take_byte_set:
  assumes "k < 8"
  shows "take (Suc k) (byte_bits (set_u8 b k v)) = take k (byte_bits b) @ [v]"
  using assms by (simp add: byte_bits_set take_Suc_conv_app_nth)

lemma mb_push_correct:
  assumes "mb_inv m"
  shows "\<exists>m'. mb_push v m = Inr m' \<and> mb_inv m' \<and> mb_bits m' = mb_bits m @ [v]"
  using assms
proof (cases rule: mb_cases)
  case (aligned bs)
  then have "mb_push v m = Inr \<lparr>mb_buffer = bs @ [set_u8 0 0 v], mb_length = 8 * length bs + Suc 0\<rparr>"
    by (simp add: mb_push_def)
  with aligned(3) mb_partial [of "Suc 0" bs "set_u8 0 0 v"] show ?thesis
    using take_byte_set [of 0 0 v] by simp
next
  case (partial bs b k)
  then have "mb_push v m = Inr \<lparr>mb_buffer = bs @ [set_u8 b k v], mb_length = 8 * length bs + Suc k\<rparr>"
    by (simp add: mb_push_def)
  with partial(3,5) mb_partial [of "Suc k" bs "set_u8 b k v"] show ?thesis
    by (simp add: take_byte_set)
qed

lemma mb_push_unchecked_eq: "mb_inv m \<Longrightarrow> mb_push_unchecked v m = mb_push v m"
  using mb_push_correct [of m v] by (auto simp: mb_push_def mb_push_unchecked_def Let_def)

lemma mb_bits_nth: "mb_inv m \<Longrightarrow> i < mb_length m \<Longrightarrow> mb_bits m ! i = bits_of (mb_buffer m) ! i"
  by (simp add: mb_bits_def window_def)

lemma mb_get_correct: "mb_inv m \<Longrightarrow> i < mb_length m \<Longrightarrow> mb_get m i = Inr (mb_bits m ! i)"
  using mb_inv_fits [of m] by (simp add: mb_get_def get_bit_ok mb_bits_nth)

lemma mb_get_unchecked_correct:
  "mb_inv m \<Longrightarrow> i < mb_length m \<Longrightarrow> mb_get_unchecked m i = Inr (mb_bits m ! i)"
  using mb_inv_fits [of m] by (simp add: mb_get_unchecked_def get_bit_unchecked_ok mb_bits_nth)

lemma mb_set_correct:
  assumes "mb_inv m" and "i < mb_length m"
  shows "\<exists>m'. mb_set i v m = Inr m' \<and> mb_set_unchecked i v m = Inr m' \<and> mb_inv m' \<and>
    mb_bits m' = (mb_bits m)[i := v]"
proof -
  have "i < 8 * length (mb_buffer m)" using mb_inv_fits [OF assms(1)] assms(2) by simp
  then have "i div 8 < length (mb_buffer m)" by (simp add: less_mult_imp_div_less mult.commute)
  with assms bits_of_set_bit [OF \<open>i < 8 * length (mb_buffer m)\<close>, of v] show ?thesis
    by (simp add: mb_set_def mb_set_unchecked_def set_bit_bytes_def set_bit_unchecked_def mb_inv_def
        mb_bits_def window_def take_update_swap)
qed

lemma mb_pop_correct:
  assumes "mb_inv m"
  shows "\<exists>m'. mb_pop m = Inr (if mb_bits m = [] then None else Some (last (mb_bits m)), m') \<and>
    mb_inv m' \<and> mb_bits m' = butlast (mb_bits m)"
proof (cases "mb_length m = 0")
  case True
  then have "mb_bits m = []" by (simp add: mb_bits_def window_def)
  with True assms show ?thesis by (simp add: mb_pop_def)
next
  case False
  define n where "n = mb_length m - 1"
  with False have n: "mb_length m = Suc n" by simp
  have len: "length (mb_bits m) = Suc n" using assms n by simp
  then have "last (mb_bits m) = mb_bits m ! n"
    by (metis diff_Suc_1 last_conv_nth length_0_conv nat.distinct(1))
  then have val: "get_bit_unchecked (mb_buffer m) n = Inr (last (mb_bits m))"
    using mb_get_unchecked_correct [OF assms, of n] n by (simp add: mb_get_unchecked_def)
  define m' where "m' = \<lparr>mb_buffer = (if n mod 8 = 0 then butlast (mb_buffer m) else mb_buffer m), mb_length = n\<rparr>"
  have pop: "mb_pop m = Inr (Some (last (mb_bits m)), m')"
    using n val by (simp add: mb_pop_def m'_def)
  have "mb_inv m' \<and> mb_bits m' = butlast (mb_bits m)"
    using assms
  proof (cases rule: mb_cases)
    case (aligned bs)
    have "Suc n mod 8 = 0" using aligned(2) unfolding n .
    then have "n mod 8 \<noteq> 0" by (auto simp: mod_Suc split: if_splits)
    then show ?thesis
      using aligned n by (auto simp: m'_def mb_inv_def mb_bits_def window_def butlast_conv_take)
  next
    case (partial bs b k)
    show ?thesis
    proof (cases "k = Suc 0")
      case True
      with partial(1) n have "n = 8 * length bs" by simp
      with partial(1) have "m' = \<lparr>mb_buffer = bs, mb_length = 8 * length bs\<rparr>" by (simp add: m'_def)
      with partial True show ?thesis by (simp add: mb_aligned butlast_append take_Suc_conv_app_nth)
    next
      case k: False
      have "n = 8 * length bs + (k - Suc 0)" using partial(1,2) n by simp
      moreover from this have "n mod 8 = k - Suc 0" using partial(3) by simp
      ultimately have n8: "n = 8 * length bs + (k - Suc 0)" "n mod 8 \<noteq> 0" using k partial(2) by auto
      with partial have "m' = \<lparr>mb_buffer = bs @ [b], mb_length = 8 * length bs + (k - Suc 0)\<rparr>"
        by (simp add: m'_def)
      with partial k mb_partial [of "k - Suc 0" bs b] show ?thesis
        by (simp add: butlast_append butlast_take)
    qed
  qed
  with pop len show ?thesis by (metis length_0_conv nat.distinct(1))
qed

subsection \<open>Extending\<close>

lemma bit_255_int: "bit (255 :: int) i \<longleftrightarrow> i < 8"
proof -
  have m: "(255 :: int) = mask 8" by (simp add: mask_eq_exp_minus_1)
  show ?thesis by (simp only: m bit_mask_iff) auto
qed

lemma byte_bits_255 [simp]: "byte_bits 255 = replicate 8 True"
  by (intro nth_equalityI) (auto simp: bit_255_int)

lemma byte_bits_0 [simp]: "byte_bits 0 = replicate 8 False"
  by (intro nth_equalityI) auto

lemma bits_of_replicate: "byte_bits b = replicate 8 v \<Longrightarrow> bits_of (replicate n b) = replicate (8 * n) v"
  by (induction n) (simp_all add: bits_of_Cons replicate_add)

lemma window_grow:
  assumes "n = 8 * length bs + k" and "k \<le> 8 * length cs"
  shows "window (bs @ cs) 0 n = bits_of bs @ take k (bits_of cs)"
  using assms by (simp add: window_def)

lemma mb_append_bytes:
  assumes "n = 8 * length bs + k" and "length cs = (k + 7) div 8"
  shows "mb_inv \<lparr>mb_buffer = bs @ cs, mb_length = n\<rparr>"
    and "mb_bits \<lparr>mb_buffer = bs @ cs, mb_length = n\<rparr> = bits_of bs @ take k (bits_of cs)"
  using assms by (simp_all add: mb_inv_def mb_bits_def window_grow)

lemma last_byte_set:
  assumes "0 < k" and "k < 8"
  shows "take (k + min n (8 - k)) (byte_bits (b OR push_bit k (drop_bit (8 - n) 255)))
       = take k (byte_bits b) @ replicate (min n (8 - k)) True"
proof -
  define q where "q = min n (8 - k)"
  then have "q \<le> n" "q \<le> 8 - k" by simp_all
  then have "take (k + q) (byte_bits (b OR push_bit k (drop_bit (8 - n) 255)))
       = take k (byte_bits b) @ replicate q True"
    using assms
    by (intro nth_equalityI)
      (auto simp: nth_append bit_or_iff bit_push_bit_iff bit_drop_bit_eq bit_255_int)
  then show ?thesis by (simp add: q_def)
qed

lemma last_byte_unset:
  assumes "0 < k" and "k < 8"
  shows "take (k + min n (8 - k)) (byte_bits (b AND drop_bit (8 - k) 255))
       = take k (byte_bits b) @ replicate (min n (8 - k)) False"
proof -
  define q where "q = min n (8 - k)"
  then have "q \<le> 8 - k" by simp
  then have "take (k + q) (byte_bits (b AND drop_bit (8 - k) 255))
       = take k (byte_bits b) @ replicate q False"
    using assms
    by (intro nth_equalityI) (auto simp: nth_append bit_and_iff bit_drop_bit_eq bit_255_int)
  then show ?thesis by (simp add: q_def)
qed

lemma div_ceil_add: "(8 * q + n + 7) div 8 = q + (n + 7) div (8 :: nat)"
  by simp

lemma mb_extend_set_correct:
  assumes "mb_inv m" and "0 < n"
  shows "\<exists>m'. mb_extend_set n m = Inr m' \<and> mb_inv m' \<and> mb_bits m' = mb_bits m @ replicate n True"
  using assms(1)
proof (cases rule: mb_cases)
  case (aligned bs)
  then have "mb_extend_set n m = Inr \<lparr>mb_buffer = bs @ replicate ((n + 7) div 8) 255, mb_length = 8 * length bs + n\<rparr>"
    using assms(2) by (simp add: mb_extend_set_def Let_def)
  with aligned(3) mb_append_bytes [of "8 * length bs + n" bs n "replicate ((n + 7) div 8) 255"]
  show ?thesis by (simp add: bits_of_replicate min_absorb1)
next
  case (partial bs b k)
  let ?b = "b OR push_bit k (drop_bit (8 - n) 255)"
  show ?thesis
  proof (cases "n \<le> 8 - k")
    case True
    then have "mb_extend_set n m = Inr \<lparr>mb_buffer = bs @ [?b], mb_length = 8 * length bs + (k + n)\<rparr>"
      using partial by (simp add: mb_extend_set_def min_absorb1)
    with True partial mb_partial [of "k + n" bs ?b] last_byte_set [of k n b] show ?thesis
      by (simp add: min_absorb1)
  next
    case False
    define r where "r = n - (8 - k)"
    have r: "n = (8 - k) + r" "0 < r" using False by (simp_all add: r_def)
    have "mb_extend_set n m = Inr \<lparr>mb_buffer = (bs @ [?b]) @ replicate ((r + 7) div 8) 255,
        mb_length = 8 * length (bs @ [?b]) + r\<rparr>"
      using partial False r div_ceil_add [of "length bs + 1" r]
      by (simp add: mb_extend_set_def min_absorb2 algebra_simps)
    with False partial r mb_append_bytes [of "8 * length (bs @ [?b]) + r" "bs @ [?b]" r "replicate ((r + 7) div 8) 255"]
      last_byte_set [of k n b] show ?thesis
      by (simp add: min_absorb2 min_absorb1 bits_of_replicate replicate_add [symmetric])
  qed
qed

lemma mb_extend_unset_correct:
  assumes "mb_inv m" and "0 < n"
  shows "\<exists>m'. mb_extend_unset n m = Inr m' \<and> mb_inv m' \<and> mb_bits m' = mb_bits m @ replicate n False"
  using assms(1)
proof (cases rule: mb_cases)
  case (aligned bs)
  then have "mb_extend_unset n m = Inr \<lparr>mb_buffer = bs @ replicate ((n + 7) div 8) 0, mb_length = 8 * length bs + n\<rparr>"
    using assms(2) by (simp add: mb_extend_unset_def resize_def Let_def)
  with aligned(3) mb_append_bytes [of "8 * length bs + n" bs n "replicate ((n + 7) div 8) 0"]
    bits_of_replicate [OF byte_bits_0, of "(n + 7) div 8"]
  show ?thesis by (simp add: min_absorb1)
next
  case (partial bs b k)
  let ?b = "b AND drop_bit (8 - k) 255"
  show ?thesis
  proof (cases "n \<le> 8 - k")
    case True
    then have "mb_extend_unset n m = Inr \<lparr>mb_buffer = bs @ [?b], mb_length = 8 * length bs + (k + n)\<rparr>"
      using partial by (simp add: mb_extend_unset_def min_absorb1)
    with True partial mb_partial [of "k + n" bs ?b] last_byte_unset [of k n b] show ?thesis
      by (simp add: min_absorb1)
  next
    case False
    define r where "r = n - (8 - k)"
    have r: "n = (8 - k) + r" "0 < r" using False by (simp_all add: r_def)
    have "mb_extend_unset n m = Inr \<lparr>mb_buffer = (bs @ [?b]) @ replicate ((r + 7) div 8) 0,
        mb_length = 8 * length (bs @ [?b]) + r\<rparr>"
      using partial False r div_ceil_add [of "length bs + 1" r]
      by (simp add: mb_extend_unset_def resize_def min_absorb2 algebra_simps)
    with False partial r mb_append_bytes [of "8 * length (bs @ [?b]) + r" "bs @ [?b]" r "replicate ((r + 7) div 8) 0"]
      bits_of_replicate [OF byte_bits_0, of "(r + 7) div 8"] last_byte_unset [of k n b] show ?thesis
      by (simp add: min_absorb2 min_absorb1 replicate_add [symmetric])
  qed
qed

lemma mb_extend_constant_correct:
  assumes "mb_inv m"
  shows "\<exists>m'. mb_extend_constant n v m = Inr m' \<and> mb_inv m' \<and> mb_bits m' = mb_bits m @ replicate n v"
  using mb_extend_set_correct [OF assms, of n] mb_extend_unset_correct [OF assms, of n] assms
  by (auto simp: mb_extend_constant_def)

subsection \<open>Extending from an iterator\<close>

lemma take_bits_ok:
  assumes "n \<le> length it" and "j + n \<le> LENGTH('a)"
  shows "\<exists>acc' msk'. take_bits n (push_bit j 1) (acc :: 'a::len word) it = Inr (acc', msk', drop n it) \<and>
    (\<forall>i. bit acc' i \<longleftrightarrow> bit acc i \<or> j \<le> i \<and> i < j + n \<and> it ! (i - j))"
  using assms
proof (induction n arbitrary: it acc j)
  case (Suc n)
  then obtain v vs where it: "it = v # vs" by (cases it) auto
  let ?acc = "acc OR (if v then push_bit j 1 else 0)"
  have msk: "push_bit 1 (push_bit j 1) = (push_bit (Suc j) 1 :: 'a word)" by (simp add: push_bit_push_bit)
  have acc: "bit ?acc i \<longleftrightarrow> bit acc i \<or> i = j \<and> v" for i
    using Suc.prems(2) by (auto simp: bit_or_iff bit_exp_iff push_bit_of_1)
  obtain acc' msk' where r: "take_bits n (push_bit (Suc j) 1) ?acc vs = Inr (acc', msk', drop n vs)"
    "\<forall>i. bit acc' i \<longleftrightarrow> bit ?acc i \<or> Suc j \<le> i \<and> i < Suc j + n \<and> vs ! (i - Suc j)"
    using Suc.IH [of vs "Suc j" ?acc] Suc.prems it by auto
  have "bit acc' i \<longleftrightarrow> bit acc i \<or> j \<le> i \<and> i < j + Suc n \<and> it ! (i - j)" for i
    using r(2) by (cases "i = j") (auto simp: acc it nth_Cons' simp flip: Suc_diff_le)
  moreover have "take_bits (Suc n) (push_bit j 1) acc it = Inr (acc', msk', drop (Suc n) it)"
    using r(1) by (simp only: it take_bits.simps msk drop_Suc_Cons)
  ultimately show ?case by blast
qed auto

lemma get_byte_ok:
  assumes "n \<le> length it" and "n \<le> 8"
  shows "\<exists>b. get_byte_unchecked n it = Inr (b, drop n it) \<and> take n (byte_bits b) = take n it"
proof -
  obtain b msk where "take_bits n (push_bit 0 1) (0 :: u8) it = Inr (b, msk, drop n it)"
    "\<forall>i. bit b i \<longleftrightarrow> i < n \<and> it ! i"
    using take_bits_ok [of n it 0 "0 :: u8"] assms by auto
  moreover from this(2) have "take n (byte_bits b) = take n it"
    using assms by (intro nth_equalityI) auto
  ultimately show ?thesis by (simp add: get_byte_unchecked_def)
qed

lemma get_chunk_loop_ok:
  assumes "8 * length is \<le> length it" and "is = [j..<8]" and "j \<le> 8"
  shows "\<exists>w. get_chunk_loop is acc it = Inr (w, drop (8 * (8 - j)) it) \<and>
    (\<forall>i. bit w i \<longleftrightarrow> bit acc i \<or> 8 * j \<le> i \<and> i < 64 \<and> it ! (i - 8 * j))"
  using assms
proof (induction "is" arbitrary: acc it j)
  case Nil
  then have "j = 8" by (cases "j < 8") (auto simp: upt_conv_Cons)
  then show ?case by auto
next
  case (Cons k ks)
  then have j8: "j < 8" by (cases "j < 8") auto
  with Cons.prems(2) have j: "k = j" "ks = [Suc j..<8]" "j < 8" by (simp_all add: upt_conv_Cons)
  obtain acc' msk' where a: "take_bits 8 (push_bit (8 * j) 1) acc it = Inr (acc', msk', drop 8 it)"
    "\<forall>i. bit acc' i \<longleftrightarrow> bit acc i \<or> 8 * j \<le> i \<and> i < 8 * j + 8 \<and> it ! (i - 8 * j)"
    using take_bits_ok [of 8 it "8 * j" acc] Cons.prems(1) j(3) by auto
  have "8 * length ks \<le> length (drop 8 it)" "Suc j \<le> 8" using Cons.prems(1) j(3) by simp_all
  then obtain w where w: "get_chunk_loop ks acc' (drop 8 it) = Inr (w, drop (8 * (8 - Suc j)) (drop 8 it))"
    "\<forall>i. bit w i \<longleftrightarrow> bit acc' i \<or> 8 * Suc j \<le> i \<and> i < 64 \<and> drop 8 it ! (i - 8 * Suc j)"
    using Cons.IH [OF _ j(2), of "drop 8 it" acc'] by blast
  have "bit w i \<longleftrightarrow> bit acc i \<or> 8 * j \<le> i \<and> i < 64 \<and> it ! (i - 8 * j)" for i
    using w(2) a(2) j(3) Cons.prems(1) by (cases "i < 8 * j + 8") auto
  moreover have "8 * (8 - Suc j) + 8 = 8 * (8 - j)" using j(3) by simp
  ultimately show ?case
    using a(1) w(1) j(1) by (simp add: add.commute)
qed

lemma to_le_bytes_bits: "bits_of (to_le_bytes w) = word_bits w 64"
proof (rule nth_equalityI)
  fix i assume "i < length (bits_of (to_le_bytes w))"
  then have i: "i < 64" by (simp add: to_le_bytes_def)
  then have "i div 8 < 8" by (simp add: less_mult_imp_div_less)
  then show "bits_of (to_le_bytes w) ! i = word_bits w 64 ! i"
    using i by (simp add: bits_of_nth to_le_bytes_def word_bits_def bit_ucast_iff bit_drop_bit_eq)
qed (simp add: to_le_bytes_def)

lemma get_chunk_ok:
  assumes "64 \<le> length it"
  shows "\<exists>w. get_chunk_unchecked it = Inr (w, drop 64 it) \<and> bits_of (to_le_bytes w) = take 64 it"
proof -
  obtain w where "get_chunk_loop [0..<8] 0 it = Inr (w, drop 64 it)" "\<forall>i. bit w i \<longleftrightarrow> i < 64 \<and> it ! i"
    using get_chunk_loop_ok [of "[0..<8]" it 0 0] assms by auto
  moreover from this(2) assms have "bits_of (to_le_bytes w) = take 64 it"
    by (intro nth_equalityI) (simp_all add: to_le_bytes_bits word_bits_def)
  ultimately show ?thesis by (simp add: get_chunk_unchecked_def)
qed

lemma extend_chunks_ok:
  "64 * k \<le> length it \<Longrightarrow> \<exists>buf'. extend_chunks k buf it = Inr (buf @ buf', drop (64 * k) it) \<and>
     bits_of buf' = take (64 * k) it"
proof (induction k arbitrary: buf it)
  case (Suc k)
  then obtain w where w: "get_chunk_unchecked it = Inr (w, drop 64 it)" "bits_of (to_le_bytes w) = take 64 it"
    using get_chunk_ok [of it] by auto
  have "64 * k \<le> length (drop 64 it)" using Suc.prems by simp
  from Suc.IH [OF this, of "buf @ to_le_bytes w"] obtain buf' where
    "extend_chunks k (buf @ to_le_bytes w) (drop 64 it) = Inr (buf @ to_le_bytes w @ buf', drop (64 * k) (drop 64 it))"
    "bits_of buf' = take (64 * k) (drop 64 it)" by auto
  with w show ?case
    by (intro exI [of _ "to_le_bytes w @ buf'"]) (simp add: take_add [symmetric] add.commute)
qed simp

lemma extend_bytes_ok:
  "8 * k \<le> length it \<Longrightarrow> \<exists>buf'. extend_bytes k buf it = Inr (buf @ buf', drop (8 * k) it) \<and>
     bits_of buf' = take (8 * k) it"
proof (induction k arbitrary: buf it)
  case (Suc k)
  then obtain b where b: "get_byte_unchecked 8 it = Inr (b, drop 8 it)" "byte_bits b = take 8 it"
    using get_byte_ok [of 8 it] by auto
  have "8 * k \<le> length (drop 8 it)" using Suc.prems by simp
  from Suc.IH [OF this, of "buf @ [b]"] obtain buf' where
    "extend_bytes k (buf @ [b]) (drop 8 it) = Inr (buf @ b # buf', drop (8 * k) (drop 8 it))"
    "bits_of buf' = take (8 * k) (drop 8 it)" by auto
  with b show ?case
    by (intro exI [of _ "b # buf'"]) (simp add: bits_of_Cons take_add [symmetric] add.commute)
qed simp

lemma extend_aligned_trusted_ok:
  "\<exists>buf'. extend_aligned_trusted_iter_unchecked buf it = Inr (buf @ buf', length it) \<and>
     length buf' = (length it + 7) div 8 \<and> take (length it) (bits_of buf') = it"
proof -
  define c q s where "c = length it div 64" and "q = length it mod 64 div 8" and "s = length it mod 64 mod 8"
  have n: "length it = 64 * c + (8 * q + s)" and s8: "s < 8" by (simp_all add: c_def q_def s_def)
  then have "(length it + 7) div 8 = 8 * c + q + (s + 7) div 8" by simp
  also have "(s + 7) div 8 = of_bool (s > 0)" using s8 by (cases "s = 0") auto
  finally have total: "(length it + 7) div 8 = c * 8 + q + of_bool (s > 0)" by simp
  obtain b1 where b1: "extend_chunks c buf it = Inr (buf @ b1, drop (64 * c) it)" "bits_of b1 = take (64 * c) it"
    using extend_chunks_ok [of c it buf] n by auto
  have "8 * q \<le> length (drop (64 * c) it)" using n by simp
  then obtain b2 where b2: "extend_bytes q (buf @ b1) (drop (64 * c) it)
      = Inr ((buf @ b1) @ b2, drop (8 * q) (drop (64 * c) it))" "bits_of b2 = take (8 * q) (drop (64 * c) it)"
    using extend_bytes_ok by blast
  have l1: "length b1 = 8 * c" using arg_cong [OF b1(2), of length] n by simp
  have l2: "length b2 = q" using arg_cong [OF b2(2), of length] n by simp
  let ?it2 = "drop (8 * q) (drop (64 * c) it)"
  have split: "it = take (64 * c) it @ take (8 * q) (drop (64 * c) it) @ ?it2"
    by (simp only: append_take_drop_id)
  have it2: "length ?it2 = s" using n by simp
  note defs = extend_aligned_trusted_iter_unchecked_def Let_def c_def [symmetric] q_def [symmetric] s_def [symmetric]
  show ?thesis
  proof (cases "s = 0")
    case True
    have "extend_aligned_trusted_iter_unchecked buf it = Inr (buf @ (b1 @ b2), length it)"
      using total True b1(1) b2(1) by (simp add: defs)
    moreover have "take (length it) (bits_of (b1 @ b2)) = it"
      using split it2 True b1(2) b2(2) n l1 l2 by simp
    moreover have "length (b1 @ b2) = (length it + 7) div 8" using total True l1 l2 by simp
    ultimately show ?thesis by blast
  next
    case False
    obtain b where b: "get_byte_unchecked s ?it2 = Inr (b, drop s ?it2)" "take s (byte_bits b) = take s ?it2"
      using get_byte_ok [of s ?it2] it2 s8 by auto
    have "extend_aligned_trusted_iter_unchecked buf it = Inr (buf @ (b1 @ b2 @ [b]), length it)"
      using total False b1(1) b2(1) b(1) by (simp add: defs)
    moreover have "take (length it) (bits_of (b1 @ b2 @ [b])) = it"
      using split it2 b(2) b1(2) b2(2) n l1 l2 by simp
    moreover have "length (b1 @ b2 @ [b]) = (length it + 7) div 8" using total False l1 l2 by simp
    ultimately show ?thesis by blast
  qed
qed

lemma set_run_ok:
  "k + length vs \<le> 8 \<Longrightarrow> take (k + length vs) (byte_bits (set_run b k vs)) = take k (byte_bits b) @ vs"
proof (induction vs arbitrary: b k)
  case (Cons v vs)
  then show ?case
    using Cons.IH [of "Suc k" "set_u8 b k v"] take_byte_set [of k b v] by simp
qed simp

lemma mb_extend_iter_correct:
  assumes "mb_inv m" and "it \<noteq> [] \<or> mb_length m mod 8 \<noteq> 0"
  shows "\<exists>m'. mb_extend_from_trusted_len_iter it m = Inr m' \<and> mb_inv m' \<and> mb_bits m' = mb_bits m @ it"
  using assms(1)
proof (cases rule: mb_cases)
  case (aligned bs)
  show ?thesis
  proof (cases "length it < 8")
    case True
    let ?b = "set_run 0 0 it"
    have "mb_extend_from_trusted_len_iter it m = Inr \<lparr>mb_buffer = bs @ [?b], mb_length = 8 * length bs + length it\<rparr>"
      using aligned True by (simp add: mb_extend_from_trusted_len_iter_def)
    with True aligned(2,3) assms(2) mb_partial [of "length it" bs ?b] set_run_ok [of 0 it 0] show ?thesis by simp
  next
    case False
    obtain buf where buf: "extend_aligned_trusted_iter_unchecked bs it = Inr (bs @ buf, length it)"
      "length buf = (length it + 7) div 8" "take (length it) (bits_of buf) = it"
      using extend_aligned_trusted_ok by blast
    with False aligned mb_append_bytes [of "8 * length bs + length it" bs "length it" buf] show ?thesis
      by (simp add: mb_extend_from_trusted_len_iter_def)
  qed
next
  case (partial bs b k)
  show ?thesis
  proof (cases "length it < 8 - k")
    case True
    let ?b = "set_run b k it"
    have "mb_extend_from_trusted_len_iter it m = Inr \<lparr>mb_buffer = bs @ [?b], mb_length = 8 * length bs + (k + length it)\<rparr>"
      using partial True by (simp add: mb_extend_from_trusted_len_iter_def)
    with True partial mb_partial [of "k + length it" bs ?b] set_run_ok [of k it b] show ?thesis by simp
  next
    case False
    let ?b = "set_run b k (take (8 - k) it)"
    let ?it = "drop (8 - k) it"
    obtain buf where buf: "extend_aligned_trusted_iter_unchecked (bs @ [?b]) ?it = Inr ((bs @ [?b]) @ buf, length ?it)"
      "length buf = (length ?it + 7) div 8" "take (length ?it) (bits_of buf) = ?it"
      using extend_aligned_trusted_ok by blast
    have b: "byte_bits ?b = take k (byte_bits b) @ take (8 - k) it"
      using set_run_ok [of k "take (8 - k) it" b] partial(3) False by simp
    have "mb_extend_from_trusted_len_iter it m
        = Inr \<lparr>mb_buffer = (bs @ [?b]) @ buf, mb_length = 8 * length (bs @ [?b]) + length ?it\<rparr>"
      using partial False buf(1) by (simp add: mb_extend_from_trusted_len_iter_def Let_def)
    with partial(5) b buf(2,3) mb_append_bytes [of "8 * length (bs @ [?b]) + length ?it" "bs @ [?b]" "length ?it" buf]
    show ?thesis by simp
  qed
qed

lemma mb_from_trusted_len_iter_correct:
  "\<exists>m. mb_from_trusted_len_iter it = Inr m \<and> mb_inv m \<and> mb_bits m = it"
  using extend_aligned_trusted_ok [of "[]" it] mb_append_bytes [of "length it" "[]" "length it"]
  by (force simp: mb_from_trusted_len_iter_def)

subsection \<open>Collecting an iterator byte by byte\<close>

lemma push_bit_u8_zero_iff: "push_bit j (1 :: u8) = 0 \<longleftrightarrow> 8 \<le> j"
proof
  assume z: "push_bit j (1 :: u8) = 0"
  show "8 \<le> j"
  proof (rule ccontr)
    assume "\<not> 8 \<le> j"
    then have "bit (push_bit j (1 :: u8)) j" by (simp only: bit_push_bit_iff) auto
    with z show False by (simp only: bit_0_eq bot_apply bot_bool_def)
  qed
next
  assume "8 \<le> j"
  then show "push_bit j (1 :: u8) = 0" by (intro bit_word_eqI) (simp only: bit_push_bit_iff, auto)
qed

lemma collect_byte_ok:
  assumes "j \<le> 8"
  shows "\<exists>acc'. collect_byte (push_bit j 1) acc n it =
      (acc', push_bit (j + min (8 - j) (length it)) 1, n + min (8 - j) (length it),
       drop (8 - j) it, length it < 8 - j) \<and>
    (\<forall>i. bit acc' i \<longleftrightarrow> bit acc i \<or> j \<le> i \<and> i < j + min (8 - j) (length it) \<and> it ! (i - j))"
  using assms
proof (induction it arbitrary: j acc n)
  case Nil
  then show ?case by (auto simp: push_bit_u8_zero_iff)
next
  case (Cons v vs)
  show ?case
  proof (cases "j = 8")
    case True
    then show ?thesis by (auto simp: push_bit_u8_zero_iff)
  next
    case False
    with Cons.prems have j: "j < 8" by simp
    let ?acc = "acc OR (if v then push_bit j 1 else 0)"
    have msk: "push_bit 1 (push_bit j 1) = (push_bit (Suc j) 1 :: u8)" by (simp add: push_bit_push_bit)
    have acc: "bit ?acc i \<longleftrightarrow> bit acc i \<or> i = j \<and> v" for i
      using j by (auto simp: bit_or_iff bit_exp_iff push_bit_of_1)
    define k where "k = min (8 - Suc j) (length vs)"
    have k: "min (8 - j) (length (v # vs)) = Suc k" 
      using Suc_diff_Suc [OF j] by (simp only: k_def) (metis length_Cons min_Suc_Suc)
    obtain acc' where r: "collect_byte (push_bit (Suc j) 1) ?acc (n + 1) vs =
        (acc', push_bit (Suc j + k) 1, n + 1 + k, drop (8 - Suc j) vs, length vs < 8 - Suc j)"
      "\<forall>i. bit acc' i \<longleftrightarrow> bit ?acc i \<or> Suc j \<le> i \<and> i < Suc j + k \<and> vs ! (i - Suc j)"
      using Cons.IH [of "Suc j" ?acc "n + 1"] j unfolding k_def by auto
    have step: "collect_byte (push_bit j 1) acc n (v # vs) = collect_byte (push_bit (Suc j) 1) ?acc (n + 1) vs"
      using j by (simp only: collect_byte.simps push_bit_u8_zero_iff msk) simp
    have "bit acc' i \<longleftrightarrow> bit acc i \<or> j \<le> i \<and> i < j + Suc k \<and> (v # vs) ! (i - j)" for i
      using r(2) by (cases "i = j") (auto simp: acc nth_Cons' simp flip: Suc_diff_le)
    moreover have "drop (8 - Suc j) vs = drop (8 - j) (v # vs)" "length vs < 8 - Suc j \<longleftrightarrow> length (v # vs) < 8 - j"
      using j by (auto simp: drop_Cons' less_diff_conv)
    ultimately show ?thesis
      unfolding step k r(1) by (intro exI [of _ acc']) auto
  qed
qed

lemma mb_from_iter_loop_ok:
  "n = 8 * length buf \<Longrightarrow>
   mb_inv (mb_from_iter_loop buf n it) \<and> mb_bits (mb_from_iter_loop buf n it) = bits_of buf @ it"
proof (induction "length it" arbitrary: buf n it rule: less_induct)
  case less
  define k where "k = min 8 (length it)"
  obtain b where b: "collect_byte 1 0 n it = (b, push_bit k 1, n + k, drop 8 it, length it < 8)"
    "\<forall>i. bit b i \<longleftrightarrow> i < k \<and> it ! i"
    using collect_byte_ok [of 0 0 n it] by (auto simp: k_def)
  have bits: "take k (byte_bits b) = take k it"
    using b(2) by (intro nth_equalityI) (auto simp: k_def)
  show ?case
  proof (cases "length it < 8")
    case True
    then have k: "k = length it" by (simp add: k_def)
    show ?thesis
    proof (cases "it = []")
      case empty: True
      have "mb_from_iter_loop buf n it = \<lparr>mb_buffer = buf, mb_length = 8 * length buf\<rparr>"
        using b(1) k less.prems empty by (subst mb_from_iter_loop.simps) simp
      with empty show ?thesis by (simp add: mb_aligned)
    next
      case False
      have "push_bit k (1 :: u8) \<noteq> 1"
      proof
        assume "push_bit k (1 :: u8) = 1"
        then have "bit (push_bit k (1 :: u8)) 0" by (simp only: bit_1_0)
        from this [unfolded bit_push_bit_iff] show False using k False by simp
      qed
      then have "mb_from_iter_loop buf n it = \<lparr>mb_buffer = buf @ [b], mb_length = 8 * length buf + k\<rparr>"
        using b(1) True less.prems by (subst mb_from_iter_loop.simps) simp
      with True k False bits mb_partial [of k buf b] show ?thesis by simp
    qed
  next
    case False
    then have k: "k = 8" by (simp add: k_def)
    have "mb_from_iter_loop buf n it = mb_from_iter_loop (buf @ [b]) (n + 8) (drop 8 it)"
      using b(1) False k by (subst mb_from_iter_loop.simps) simp
    moreover have "byte_bits b @ drop 8 it = it" using bits k by simp
    ultimately show ?thesis
      using less.hyps [of "drop 8 it" "n + 8" "buf @ [b]"] less.prems False by simp
  qed
qed

lemma mb_from_iter_correct: "mb_inv (mb_from_iter it)" "mb_bits (mb_from_iter it) = it"
  using mb_from_iter_loop_ok [of 0 "[]" it] by (simp_all add: mb_from_iter_def)

subsection \<open>Extending from packed bits\<close>

lemma byte_low: "k \<le> 8 \<Longrightarrow> take k (byte_bits (drop_bit (8 - k) x)) = drop (8 - k) (byte_bits x)"
  by (intro nth_equalityI) (auto simp: bit_drop_bit_eq)

lemma byte_join:
  assumes "0 < k" and "k < 8"
  shows "byte_bits ((b AND drop_bit (8 - k) 255) OR push_bit k x) = take k (byte_bits b) @ take (8 - k) (byte_bits x)"
  using assms
  by (intro nth_equalityI)
    (auto simp: nth_append bit_or_iff bit_and_iff bit_push_bit_iff bit_drop_bit_eq bit_255_int)

lemma merge_reversed_join:
  assumes "0 < k" and "k < 8"
  shows "merge_reversed x y (8 - k) = (drop_bit (8 - k) x AND drop_bit (8 - k) 255) OR push_bit k y"
proof (rule bit_word_eqI)
  fix i assume "i < LENGTH(8)"
  then show "bit (merge_reversed x y (8 - k)) i
      = bit ((drop_bit (8 - k) x AND drop_bit (8 - k) 255) OR push_bit k y) i"
    using assms
    by (auto simp: merge_reversed_def bit_or_iff bit_and_iff bit_push_bit_iff bit_drop_bit_eq bit_255_int
        dest: bit_u8_less)
qed

lemma shifted_bits:
  assumes "0 < k" and "k < 8" and "items \<noteq> []"
  shows "bits_of (((b AND drop_bit (8 - k) 255) OR push_bit k (hd items))
      # map2 (\<lambda>c n. merge_reversed c n (8 - k)) items (tl items @ [0]))
    = take k (byte_bits b) @ bits_of items @ replicate (8 - k) False"
  using assms(3)
proof (induction items arbitrary: b)
  case (Cons x xs)
  have low: "take k (byte_bits (drop_bit (8 - k) x)) = drop (8 - k) (byte_bits x)"
    using assms(2) by (simp add: byte_low)
  have x: "take (8 - k) (byte_bits x) @ drop (8 - k) (byte_bits x) @ zs = byte_bits x @ zs" for zs
    by (simp only: append.assoc [symmetric] append_take_drop_id)
  show ?case
  proof (cases xs)
    case Nil
    with assms(1,2) x [of "replicate (8 - k) False"] low byte_join [of k "drop_bit (8 - k) x" 0] show ?thesis
      by (simp add: bits_of_Cons byte_join merge_reversed_join)
  next
    case (Cons y ys)
    with Cons.IH [of "drop_bit (8 - k) x"] assms(1,2) x low show ?thesis
      by (simp add: bits_of_Cons byte_join merge_reversed_join)
  qed
qed simp

lemma subslice_window:
  assumes "offset mod 8 = 0" and "offset + len \<le> 8 * length src"
  shows "\<exists>items. subslice src (offset div 8) ((len + 7) div 8) = Inr items \<and>
    length items = (len + 7) div 8 \<and> take len (bits_of items) = window src offset len"
proof -
  obtain a where a: "offset = 8 * a" using assms(1) by auto
  have "a + (len + 7) div 8 \<le> length src"
    using assms(2) div_le_mono [of "offset + len + 7" "8 * length src + 7" 8] by (simp add: a)
  moreover have "take len (bits_of (take ((len + 7) div 8) (drop a src))) = window src offset len"
    by (simp add: bits_of_take bits_of_drop window_def a min_absorb1)
  ultimately show ?thesis by (simp add: subslice_def a)
qed

lemma mb_extend_aligned_correct:
  assumes "mb_inv m" and "mb_length m mod 8 = 0" and "offset mod 8 = 0" and "offset + len \<le> 8 * length src"
  shows "\<exists>m'. mb_extend_aligned src offset len m = Inr m' \<and> mb_inv m' \<and>
    mb_bits m' = mb_bits m @ window src offset len"
  using assms(1)
proof (cases rule: mb_cases)
  case (aligned bs)
  obtain items where "subslice src (offset div 8) ((len + 7) div 8) = Inr items"
    "length items = (len + 7) div 8" "take len (bits_of items) = window src offset len"
    using subslice_window [OF assms(3,4)] by blast
  with aligned mb_append_bytes [of "8 * length bs + len" bs len items] show ?thesis
    by (simp add: mb_extend_aligned_def)
qed (use assms(2) in simp)

lemma mb_extend_unaligned_correct:
  assumes "mb_inv m" and "mb_length m mod 8 \<noteq> 0" and "offset mod 8 = 0" and "offset + len \<le> 8 * length src"
    and "0 < len"
  shows "\<exists>m'. mb_extend_unaligned src offset len m = Inr m' \<and> mb_inv m' \<and>
    mb_bits m' = mb_bits m @ window src offset len"
  using assms(1)
proof (cases rule: mb_cases)
  case (partial bs b k)
  obtain items where items: "subslice src (offset div 8) ((len + 7) div 8) = Inr items"
    "length items = (len + 7) div 8" "take len (bits_of items) = window src offset len"
    using subslice_window [OF assms(3,4)] by blast
  have ne: "items \<noteq> []" using items(2) assms(5) by auto
  have fits: "len \<le> 8 * length items" using items(2) by simp
  define l where "l = (b AND drop_bit (8 - k) 255) OR push_bit k (hd items)"
  define mg where "mg = map2 (\<lambda>c n. merge_reversed c n (8 - k)) items (tl items @ [0])"
  have len_mg: "length mg = length items" using ne by (simp add: mg_def)
  have "bits_of (l # mg) = take k (byte_bits b) @ bits_of items @ replicate (8 - k) False"
    using shifted_bits [OF partial(2,3) ne] by (simp only: l_def mg_def)
  then have joined: "take (k + len) (bits_of (l # mg)) = take k (byte_bits b) @ window src offset len"
    using partial(3) fits items(3) by simp
  show ?thesis
  proof (cases "len + k \<le> 8")
    case True
    then have "mb_extend_unaligned src offset len m = Inr \<lparr>mb_buffer = bs @ [l], mb_length = 8 * length bs + (k + len)\<rparr>"
      using partial items(1) ne by (simp add: mb_extend_unaligned_def l_def)
    moreover have "take (k + len) (byte_bits l) = take (k + len) (bits_of (l # mg))"
      using True by (simp add: bits_of_Cons)
    ultimately show ?thesis
      using True partial joined assms(5) mb_partial [of "k + len" bs l] by simp
  next
    case False
    define q where "q = (len - (8 - k) + 7) div 8"
    have q: "(k + len + 7) div 8 = Suc q" "Suc q \<le> Suc (length mg)"
      using False partial(3) len_mg items(2) div_le_mono [of "len - (8 - k) + 7" "len + 7" 8]
      by (auto simp: q_def)
    have "mb_extend_unaligned src offset len m = Inr \<lparr>mb_buffer = bs @ take (Suc q) (l # mg), mb_length = 8 * length bs + (k + len)\<rparr>"
      using partial items(1) ne False by (simp add: mb_extend_unaligned_def l_def mg_def q_def)
    moreover have "k + len \<le> 8 * Suc q" using q(1) [symmetric] by simp
    ultimately show ?thesis
      using partial(5) joined q mb_append_bytes [of "8 * length bs + (k + len)" bs "k + len" "take (Suc q) (l # mg)"]
      by (simp del: take_Suc_Cons add: bits_of_take min_absorb1)
  qed
qed (use assms(2) in simp)

lemma mb_extend_from_slice_correct:
  assumes "mb_inv m" and "offset + len \<le> 8 * length src"
  shows "\<exists>m'. mb_extend_from_slice src offset len m = Inr m' \<and> mb_inv m' \<and>
    mb_bits m' = mb_bits m @ window src offset len"
proof (cases "len = 0")
  case True
  then show ?thesis
    using assms by (simp add: mb_extend_from_slice_def mb_extend_from_slice_unchecked_def window_def)
next
  case False
  have "length (window src offset len) = len" using assms(2) by simp
  with False have "window src offset len \<noteq> []" by (metis list.size(3))
  with False show ?thesis
    using assms mb_extend_aligned_correct [OF assms(1) _ _ assms(2)]
      mb_extend_unaligned_correct [OF assms(1) _ _ assms(2)]
      mb_extend_iter_correct [OF assms(1), of "window src offset len"]
    by (simp add: mb_extend_from_slice_def mb_extend_from_slice_unchecked_def split: bool.split)
qed

lemma mb_unset_bits_correct:
  assumes "good_platform p" and "mb_inv m"
  shows "mb_unset_bits p m = Inr (length (filter Not (mb_bits m)))"
  using count_zeros_correct [OF assms(1), of 0 "mb_length m" "mb_buffer m"] mb_inv_fits [OF assms(2)]
  by (simp add: mb_unset_bits_def mb_bits_def)

lemma mb_try_new_correct:
  "mb_try_new bs n = (if n \<le> 8 * length bs then Inr \<lparr>mb_buffer = take ((n + 7) div 8) bs, mb_length = n\<rparr>
     else Inl (Err ''InvalidOperation''))"
  "n \<le> 8 * length bs \<Longrightarrow> mb_inv \<lparr>mb_buffer = take ((n + 7) div 8) bs, mb_length = n\<rparr>"
  "n \<le> 8 * length bs \<Longrightarrow> mb_bits \<lparr>mb_buffer = take ((n + 7) div 8) bs, mb_length = n\<rparr> = window bs 0 n"
proof -
  assume "n \<le> 8 * length bs"
  then have "(n + 7) div 8 \<le> length bs" by linarith
  then show "mb_inv \<lparr>mb_buffer = take ((n + 7) div 8) bs, mb_length = n\<rparr>"
    by (simp add: mb_inv_def)
  show "mb_bits \<lparr>mb_buffer = take ((n + 7) div 8) bs, mb_length = n\<rparr> = window bs 0 n"
    by (simp add: mb_bits_def window_def bits_of_take min_absorb1)
qed (simp add: mb_try_new_def mult.commute)

subsection \<open>Every sequence of operations behaves as on a vector of booleans\<close>

datatype mb_op =
    Push bool | Pop | Get nat | Set nat bool | Clear | ExtendConstant nat bool
  | ExtendIter "bool list" | ExtendSlice bytes nat nat | UnsetBits

datatype mb_ret = RUnit | RBool bool | ROpt "bool option" | RNat nat

definition returning_unit :: "'s res \<Rightarrow> (mb_ret \<times> 's) res" where
  "returning_unit r = rbind r (\<lambda>s. Inr (RUnit, s))"

fun mb_step :: "platform \<Rightarrow> mb_op \<Rightarrow> mbitmap \<Rightarrow> (mb_ret \<times> mbitmap) res" where
  "mb_step p (Push v) m = returning_unit (mb_push v m)"
| "mb_step p Pop m = rbind (mb_pop m) (\<lambda>(v, m'). Inr (ROpt v, m'))"
| "mb_step p (Get i) m = rbind (mb_get m i) (\<lambda>v. Inr (RBool v, m))"
| "mb_step p (Set i v) m = returning_unit (mb_set i v m)"
| "mb_step p Clear m = Inr (RUnit, mb_clear m)"
| "mb_step p (ExtendConstant n v) m = returning_unit (mb_extend_constant n v m)"
| "mb_step p (ExtendIter it) m = returning_unit (mb_extend_from_trusted_len_iter it m)"
| "mb_step p (ExtendSlice bs off len) m = returning_unit (mb_extend_from_slice bs off len m)"
| "mb_step p UnsetBits m = rbind (mb_unset_bits p m) (\<lambda>n. Inr (RNat n, m))"

fun vec_step :: "mb_op \<Rightarrow> bool list \<Rightarrow> mb_ret \<times> bool list" where
  "vec_step (Push v) xs = (RUnit, xs @ [v])"
| "vec_step Pop xs = (ROpt (if xs = [] then None else Some (last xs)), butlast xs)"
| "vec_step (Get i) xs = (RBool (xs ! i), xs)"
| "vec_step (Set i v) xs = (RUnit, xs[i := v])"
| "vec_step Clear xs = (RUnit, [])"
| "vec_step (ExtendConstant n v) xs = (RUnit, xs @ replicate n v)"
| "vec_step (ExtendIter it) xs = (RUnit, xs @ it)"
| "vec_step (ExtendSlice bs off len) xs = (RUnit, xs @ window bs off len)"
| "vec_step UnsetBits xs = (RNat (length (filter Not xs)), xs)"

fun mb_pre :: "mb_op \<Rightarrow> bool list \<Rightarrow> bool" where
  "mb_pre (Get i) xs \<longleftrightarrow> i < length xs"
| "mb_pre (Set i v) xs \<longleftrightarrow> i < length xs"
| "mb_pre (ExtendIter it) xs \<longleftrightarrow> it \<noteq> [] \<or> length xs mod 8 \<noteq> 0"
| "mb_pre (ExtendSlice bs off len) xs \<longleftrightarrow> off + len \<le> 8 * length bs"
| "mb_pre _ xs \<longleftrightarrow> True"

lemma returning_unit_Inr [simp]: "returning_unit (Inr m) = Inr (RUnit, m)"
  by (simp add: returning_unit_def)

lemma mb_step_simulates:
  assumes "good_platform p" and "mb_inv m" and "mb_pre x (mb_bits m)"
  shows "\<exists>m'. mb_step p x m = Inr (fst (vec_step x (mb_bits m)), m') \<and> mb_inv m' \<and>
    mb_bits m' = snd (vec_step x (mb_bits m))"
proof (cases x)
  case (Push v)
  with mb_push_correct [OF assms(2), of v] show ?thesis by auto
next
  case Pop
  with mb_pop_correct [OF assms(2)] show ?thesis by auto
next
  case (Get i)
  with mb_get_correct [OF assms(2), of i] assms(2,3) show ?thesis by simp
next
  case (Set i v)
  with mb_set_correct [OF assms(2), of i v] assms(2,3) show ?thesis by auto
next
  case Clear
  then show ?thesis by (simp add: mb_clear_def mb_inv_def mb_bits_def window_def)
next
  case (ExtendConstant n v)
  with mb_extend_constant_correct [OF assms(2), of n v] show ?thesis by auto
next
  case (ExtendIter it)
  with mb_extend_iter_correct [OF assms(2), of it] assms(2,3) show ?thesis by auto
next
  case (ExtendSlice bs off len)
  with mb_extend_from_slice_correct [OF assms(2), of off len bs] assms(3) show ?thesis by auto
next
  case UnsetBits
  with mb_unset_bits_correct [OF assms(1,2)] assms(2) show ?thesis by simp
qed

definition le_platform :: "nat \<Rightarrow> platform" where
  "le_platform a = \<lparr>ptr_addr = a, cast_slice = (\<lambda>_ bs. Inr (le_words bs))\<rparr>"

lemma good_le_platform: "good_platform (le_platform a)"
  by (simp add: le_platform_def good_platform_def)

lemma mb_simulates: "good_platform p \<Longrightarrow> simulates (mb_step p) vec_step mb_pre mb_bits mb_inv"
  by unfold_locales (rule mb_step_simulates)

interpretation mb_sim: simulates "mb_step (le_platform a)" vec_step mb_pre mb_bits mb_inv
  by (rule mb_simulates [OF good_le_platform])

lemma mb_new_ok [simp]: "mb_inv mb_new" "mb_bits mb_new = []"
  by (simp_all add: mb_new_def mb_inv_def mb_bits_def window_def)

subsection \<open>Properties\<close>

text \<open>
  C1. Starting from an empty bitmap, every sequence of pushes, pops, reads, writes, clears,
  constant extensions, extensions from an iterator or from packed bits at any offset, and
  counts of unset bits returns what the same operations return on a vector of booleans,
  without a panic or an access out of bounds, and keeps the buffer at the size the length
  needs. Reads and writes are in range, bit ranges lie in their slice, and an iterator is
  not empty when the bitmap ends on a byte boundary.
\<close>

theorem mutable_bitmap_is_vec_bool:
  assumes "good_platform p" and "admissible mb_pre vec_step ops []"
  shows "\<exists>m. run (mb_step p) ops mb_new = Inr (fst (run_spec vec_step ops []), m) \<and> mb_inv m \<and>
    mb_bits m = snd (run_spec vec_step ops [])"
  using simulates.run_sim [OF mb_simulates [OF assms(1)], of mb_new ops] assms(2) by simp

theorem mutable_bitmap_is_vec_bool_witness:
  "\<exists>m. run (mb_step (le_platform 3)) [Push True, ExtendConstant 2 False, ExtendSlice [5] 1 3, Pop, UnsetBits] mb_new
    = Inr ([RUnit, RUnit, RUnit, ROpt (Some False), RNat 3], m)"
proof -
  let ?ops = "[Push True, ExtendConstant 2 False, ExtendSlice [5] 1 3, Pop, UnsetBits]"
  have w: "window [5] (Suc 0) 3 = [False, True, False]"
    by (simp add: window_def byte_bits_def upt_rec)
  have spec: "fst (run_spec vec_step ?ops []) = [RUnit, RUnit, RUnit, ROpt (Some False), RNat 3]"
    by (simp add: w numeral_2_eq_2)
  have "admissible mb_pre vec_step ?ops []" by simp
  from mutable_bitmap_is_vec_bool [OF good_le_platform this, of 3] show ?thesis
    unfolding spec by blast
qed

text \<open>
  Collecting an iterator of booleans, byte by byte or through 64-bit chunks when its
  length is trusted, gives a well-formed bitmap that holds exactly the booleans.
\<close>

theorem mutable_bitmap_collects:
  "mb_inv (mb_from_iter it) \<and> mb_bits (mb_from_iter it) = it \<and>
   (\<exists>m. mb_from_trusted_len_iter it = Inr m \<and> mb_inv m \<and> mb_bits m = it)"
  using mb_from_iter_correct mb_from_trusted_len_iter_correct by blast

text \<open>
  C37. Extending a bitmap that ends on a byte boundary with an empty iterator appends a byte
  that the length does not account for: the size invariant is lost, and a \<open>True\<close> pushed next
  is read back as \<open>False\<close>.
\<close>

theorem extend_empty_iterator_corrupts:
  assumes "mb_inv m" and "mb_length m mod 8 = 0"
  shows "\<exists>m1 m2. mb_extend_from_trusted_len_iter [] m = Inr m1 \<and> \<not> mb_inv m1 \<and>
    mb_push True m1 = Inr m2 \<and> mb_length m2 = Suc (mb_length m) \<and> mb_get m2 (mb_length m) = Inr False"
  using assms(1)
proof (cases rule: mb_cases)
  case (aligned bs)
  let ?m1 = "\<lparr>mb_buffer = bs @ [0], mb_length = 8 * length bs\<rparr>"
  let ?m2 = "\<lparr>mb_buffer = (bs @ [0]) @ [set_u8 0 0 True], mb_length = Suc (8 * length bs)\<rparr>"
  have "mb_extend_from_trusted_len_iter [] m = Inr ?m1" "\<not> mb_inv ?m1" "mb_push True ?m1 = Inr ?m2"
    using aligned by (simp_all add: mb_extend_from_trusted_len_iter_def mb_inv_def mb_push_def butlast_append)
  moreover have "mb_get ?m2 (8 * length bs) = Inr False"
    by (simp add: mb_get_def get_bit_ok nth_append bits_of_Cons)
  ultimately show ?thesis using aligned(1) by auto
qed (use assms(2) in simp)

theorem extend_empty_iterator_corrupts_witness:
  "\<exists>m1 m2. mb_extend_from_trusted_len_iter [] mb_new = Inr m1 \<and> mb_push True m1 = Inr m2 \<and>
    mb_get m2 0 = Inr False"
proof -
  have "mb_length mb_new = 0" by (simp add: mb_new_def)
  with extend_empty_iterator_corrupts [of mb_new] show ?thesis by auto
qed

text \<open>
  C38. Reading or writing a bit panics exactly from the first position after the last byte
  on: the positions of the last byte that lie beyond the length are accepted.
\<close>

theorem mutable_bitmap_panic_boundary:
  assumes "mb_inv m"
  shows "(mb_get m i = Inl Panic \<longleftrightarrow> 8 * ((mb_length m + 7) div 8) \<le> i) \<and>
    (mb_set i v m = Inl Panic \<longleftrightarrow> 8 * ((mb_length m + 7) div 8) \<le> i)"
proof -
  have "i div 8 < length (mb_buffer m) \<longleftrightarrow> i < 8 * length (mb_buffer m)"
    by (simp add: div_less_iff_less_mult mult.commute)
  with assms show ?thesis
    by (auto simp: mb_get_def get_bit_def mb_set_def set_bit_bytes_def assert_that_def mb_inv_def Let_def)
qed

theorem mutable_bitmap_panic_boundary_witness:
  "mb_get (mb_from_iter [True]) 7 \<noteq> Inl Panic \<and> mb_get (mb_from_iter [True]) 8 = Inl Panic"
proof -
  have "mb_length (mb_from_iter [True]) = 1"
    using mb_from_iter_correct [of "[True]"] length_mb_bits [of "mb_from_iter [True]"] by simp
  with mutable_bitmap_panic_boundary [of "mb_from_iter [True]" 7]
    mutable_bitmap_panic_boundary [of "mb_from_iter [True]" 8] mb_from_iter_correct(1) [of "[True]"]
  show ?thesis by simp
qed

end
