(* ===== verification/ImmBitmap.thy ===== *)
theory ImmBitmap
  imports MutBitmap
begin

section \<open>Immutable bitmaps and their cached null counts\<close>

text \<open>
  \<^verbatim>\<open>Bitmap\<close> of \<^verbatim>\<open>crates/polars-arrow/src/bitmap/immutable.rs\<close>: a window of bits in a shared
  storage together with a cache of the number of unset bits, which slicing and splitting
  update instead of recounting. The cache is the value of the atomic field; its reads and
  writes are relaxed and idempotent, so a sequential model suffices. The lemmas show that
  the cache is always either unknown or exact, so the null counts on which the query engine
  bases its fast paths are right after any sequence of slices, splits and counts.
\<close>

subsection \<open>Model\<close>

record bitmap =
  bm_storage :: bytes
  bm_offset :: nat
  bm_length :: nat
  bm_cache :: nat

definition UNKNOWN_BIT_COUNT :: nat where
  "UNKNOWN_BIT_COUNT = 2 ^ 64 - 1"

definition has_cached_unset_bit_count :: "nat \<Rightarrow> bool" where
  "has_cached_unset_bit_count ubcc \<longleftrightarrow> ubcc div 2 ^ 63 = 0"

definition bm_check :: "bytes \<Rightarrow> nat \<Rightarrow> nat \<Rightarrow> unit res" where
  "bm_check bs offset len =
     (if offset + len > length bs * 8 then Inl (Err ''InvalidOperation'') else Inr ())"

definition bm_try_new :: "bytes \<Rightarrow> nat \<Rightarrow> bitmap res" where
  "bm_try_new bs len =
     rbind (bm_check bs 0 len) (\<lambda>_.
     Inr \<lparr>bm_storage = bs, bm_offset = 0, bm_length = len,
          bm_cache = (if len = 0 then 0 else UNKNOWN_BIT_COUNT)\<rparr>)"

definition bm_new :: bitmap where
  "bm_new = \<lparr>bm_storage = [], bm_offset = 0, bm_length = 0, bm_cache = 0\<rparr>"

definition bm_as_slice :: "bitmap \<Rightarrow> (bytes \<times> nat \<times> nat) res" where
  "bm_as_slice b =
     (let start = bm_offset b div 8;
          len = (bm_offset b mod 8 + bm_length b + 7) div 8
      in rbind (subslice (bm_storage b) start len) (\<lambda>bs. Inr (bs, bm_offset b mod 8, bm_length b)))"

definition bm_lazy_unset_bits :: "bitmap \<Rightarrow> nat option" where
  "bm_lazy_unset_bits b =
     (let cache = bm_cache b in if has_cached_unset_bit_count cache then Some cache else None)"

definition bm_unset_bits :: "platform \<Rightarrow> bitmap \<Rightarrow> (nat \<times> bitmap) res" where
  "bm_unset_bits p b =
     (case bm_lazy_unset_bits b of
        Some n \<Rightarrow> Inr (n, b)
      | None \<Rightarrow>
          rbind (count_zeros p (bm_storage b) (bm_offset b) (bm_length b)) (\<lambda>zeros.
          Inr (zeros, b\<lparr>bm_cache := zeros\<rparr>)))"

definition bm_set_bits :: "platform \<Rightarrow> bitmap \<Rightarrow> (nat \<times> bitmap) res" where
  "bm_set_bits p b = rbind (bm_unset_bits p b) (\<lambda>(n, b'). Inr (bm_length b - n, b'))"

definition bm_lazy_set_bits :: "bitmap \<Rightarrow> nat option" where
  "bm_lazy_set_bits b =
     (case bm_lazy_unset_bits b of None \<Rightarrow> None | Some n \<Rightarrow> Some (bm_length b - n))"

definition bm_update_bit_count :: "nat \<Rightarrow> bitmap \<Rightarrow> bitmap res" where
  "bm_update_bit_count bits_set b =
     assert_that (bits_set \<le> bm_length b) (Inr (b\<lparr>bm_cache := bm_length b - bits_set\<rparr>))"

definition bm_slice_unchecked :: "platform \<Rightarrow> nat \<Rightarrow> nat \<Rightarrow> bitmap \<Rightarrow> bitmap res" where
  "bm_slice_unchecked p offset len b =
     (if offset = 0 \<and> len = bm_length b then Inr b
      else (let cache = bm_cache b in
        if cache = 0 \<or> cache = bm_length b
        then Inr (b\<lparr>bm_cache := (if cache > 0 then len else 0),
                    bm_offset := bm_offset b + offset, bm_length := len\<rparr>)
        else
          rbind
            (if has_cached_unset_bit_count cache
             then (let small_portion = max (bm_length b div 5) 32 in
               if len + small_portion \<ge> bm_length b
               then (let slice_end = bm_offset b + offset + len in
                 rbind (count_zeros p (bm_storage b) (bm_offset b) offset) (\<lambda>head_count.
                 rbind (count_zeros p (bm_storage b) slice_end (bm_length b - len - offset)) (\<lambda>tail_count.
                 Inr (cache - head_count - tail_count))))
               else Inr UNKNOWN_BIT_COUNT)
             else Inr cache)
            (\<lambda>new_cache. Inr (b\<lparr>bm_cache := new_cache, bm_offset := bm_offset b + offset,
                                 bm_length := len\<rparr>))))"

definition bm_slice :: "platform \<Rightarrow> nat \<Rightarrow> nat \<Rightarrow> bitmap \<Rightarrow> bitmap res" where
  "bm_slice p offset len b =
     assert_that (offset + len \<le> bm_length b) (bm_slice_unchecked p offset len b)"

definition bm_sliced :: "platform \<Rightarrow> nat \<Rightarrow> nat \<Rightarrow> bitmap \<Rightarrow> bitmap res" where
  "bm_sliced p offset len b =
     assert_that (offset + len \<le> bm_length b) (bm_slice_unchecked p offset len b)"

definition bm_get_bit :: "bitmap \<Rightarrow> nat \<Rightarrow> bool res" where
  "bm_get_bit b i = get_bit (bm_storage b) (bm_offset b + i)"

definition bm_get_bit_unchecked :: "bitmap \<Rightarrow> nat \<Rightarrow> bool res" where
  "bm_get_bit_unchecked b i = get_bit_unchecked (bm_storage b) (bm_offset b + i)"

definition bm_get :: "bitmap \<Rightarrow> nat \<Rightarrow> bool option res" where
  "bm_get b i =
     (if i < bm_length b then rbind (bm_get_bit_unchecked b i) (\<lambda>v. Inr (Some v)) else Inr None)"

definition GLOBAL_ZERO_SIZE :: nat where
  "GLOBAL_ZERO_SIZE = 1024 * 1024"

definition bm_new_zeroed :: "nat \<Rightarrow> bitmap" where
  "bm_new_zeroed len =
     (let bytes_needed = (len + 7) div 8;
          storage = (if bytes_needed \<le> GLOBAL_ZERO_SIZE then replicate GLOBAL_ZERO_SIZE 0
                     else replicate bytes_needed 0)
      in \<lparr>bm_storage = storage, bm_offset = 0, bm_length = len, bm_cache = len\<rparr>)"

definition bm_from_inner_unchecked :: "bytes \<Rightarrow> nat \<Rightarrow> nat \<Rightarrow> nat option \<Rightarrow> bitmap" where
  "bm_from_inner_unchecked storage offset len unset_bits =
     \<lparr>bm_storage = storage, bm_offset = offset, bm_length = len,
      bm_cache = (case unset_bits of Some n \<Rightarrow> n | None \<Rightarrow> UNKNOWN_BIT_COUNT)\<rparr>"

definition bm_new_with_value :: "bool \<Rightarrow> nat \<Rightarrow> bitmap" where
  "bm_new_with_value value len =
     (let bs = (if value then replicate ((len + 7) div 8) 255 else replicate ((len + 7) div 8) 0);
          unset_bits = (if value then 0 else len)
      in bm_from_inner_unchecked bs 0 len (Some unset_bits))"

definition bm_null_count_range :: "platform \<Rightarrow> bitmap \<Rightarrow> nat \<Rightarrow> nat \<Rightarrow> nat res" where
  "bm_null_count_range p b offset len = count_zeros p (bm_storage b) (bm_offset b + offset) len"

definition bm_from_u8_slice :: "bytes \<Rightarrow> nat \<Rightarrow> bitmap res" where
  "bm_from_u8_slice bs len = (case bm_try_new bs len of Inl e \<Rightarrow> Inl Panic | Inr b \<Rightarrow> Inr b)"

definition bm_from_mutable :: "mbitmap \<Rightarrow> bitmap res" where
  "bm_from_mutable m =
     (case bm_try_new (mb_buffer m) (mb_length m) of Inl e \<Rightarrow> Inl Panic | Inr b \<Rightarrow> Inr b)"

definition bm_opt_from_mutable :: "platform \<Rightarrow> mbitmap \<Rightarrow> bitmap option res" where
  "bm_opt_from_mutable p m =
     rbind (mb_unset_bits p m) (\<lambda>unset_bits.
     if unset_bits > 0
     then Inr (Some (bm_from_inner_unchecked (mb_buffer m) 0 (mb_length m) (Some unset_bits)))
     else Inr None)"

definition bm_split_at_unchecked :: "platform \<Rightarrow> nat \<Rightarrow> bitmap \<Rightarrow> (bitmap \<times> bitmap) res" where
  "bm_split_at_unchecked p offset b =
     (if offset = 0 then Inr (bm_new, b)
      else if offset = bm_length b then Inr (b, bm_new)
      else
        (let ubcc = bm_cache b; lhs_length = offset; rhs_length = bm_length b - offset in
         rbind
           (if has_cached_unset_bit_count ubcc
            then
              (if ubcc = 0 then Inr (0, 0)
               else if ubcc = bm_length b then Inr (offset, bm_length b - offset)
               else
                 (let small_portion = max (bm_length b div 4) 32 in
                  if lhs_length \<le> rhs_length
                  then (if rhs_length + small_portion \<ge> bm_length b
                        then rbind (count_zeros p (bm_storage b) (bm_offset b) lhs_length)
                               (\<lambda>count. Inr (count, ubcc - count))
                        else Inr (UNKNOWN_BIT_COUNT, UNKNOWN_BIT_COUNT))
                  else (if lhs_length + small_portion \<ge> bm_length b
                        then rbind (count_zeros p (bm_storage b) (bm_offset b + offset) rhs_length)
                               (\<lambda>count. Inr (ubcc - count, count))
                        else Inr (UNKNOWN_BIT_COUNT, UNKNOWN_BIT_COUNT))))
            else Inr (UNKNOWN_BIT_COUNT, UNKNOWN_BIT_COUNT))
           (\<lambda>(lhs_ubcc, rhs_ubcc).
              Inr (b\<lparr>bm_length := lhs_length, bm_cache := lhs_ubcc\<rparr>,
                   b\<lparr>bm_offset := bm_offset b + offset, bm_length := rhs_length,
                     bm_cache := rhs_ubcc\<rparr>))))"

definition mb_extend_from_bitmap :: "bitmap \<Rightarrow> mbitmap \<Rightarrow> mbitmap res" where
  "mb_extend_from_bitmap b m =
     rbind (bm_as_slice b) (\<lambda>(bs, offset, len). mb_extend_from_slice_unchecked bs offset len m)"

subsection \<open>The invariant of the cache\<close>

definition bm_bits :: "bitmap \<Rightarrow> bool list" where
  "bm_bits b = window (bm_storage b) (bm_offset b) (bm_length b)"

definition zeros :: "bool list \<Rightarrow> nat" where
  "zeros xs = length (filter Not xs)"

definition bm_inv :: "bitmap \<Rightarrow> bool" where
  "bm_inv b \<longleftrightarrow> bm_offset b + bm_length b \<le> 8 * length (bm_storage b) \<and> bm_length b < 2 ^ 63 \<and>
     (bm_cache b = UNKNOWN_BIT_COUNT \<or> bm_cache b = zeros (bm_bits b))"

lemma zeros_append [simp]: "zeros (xs @ ys) = zeros xs + zeros ys"
  by (simp add: zeros_def)

lemma zeros_le: "zeros xs \<le> length xs"
  by (simp add: zeros_def)

lemma length_bm_bits [simp]: "bm_inv b \<Longrightarrow> length (bm_bits b) = bm_length b"
  by (simp add: bm_inv_def bm_bits_def)

lemma unknown_not_cached [simp]: "\<not> has_cached_unset_bit_count UNKNOWN_BIT_COUNT"
  by (simp add: has_cached_unset_bit_count_def UNKNOWN_BIT_COUNT_def)

lemma cached_iff: "n < 2 ^ 63 \<Longrightarrow> has_cached_unset_bit_count n"
  by (simp add: has_cached_unset_bit_count_def)

lemma bm_cache_cases [consumes 1, case_names unknown known]:
  assumes "bm_inv b"
  obtains "bm_cache b = UNKNOWN_BIT_COUNT" "\<not> has_cached_unset_bit_count (bm_cache b)"
      "bm_cache b \<noteq> 0" "bm_cache b \<noteq> bm_length b"
    | "bm_cache b = zeros (bm_bits b)" "has_cached_unset_bit_count (bm_cache b)"
      "bm_cache b \<le> bm_length b"
proof (cases "bm_cache b = UNKNOWN_BIT_COUNT")
  case True
  moreover have "UNKNOWN_BIT_COUNT \<noteq> 0" "UNKNOWN_BIT_COUNT \<noteq> bm_length b"
    using assms by (auto simp: UNKNOWN_BIT_COUNT_def bm_inv_def)
  ultimately show ?thesis using that(1) by simp
next
  case False
  then have c: "bm_cache b = zeros (bm_bits b)" using assms by (simp add: bm_inv_def)
  moreover have "zeros (bm_bits b) \<le> bm_length b"
    using zeros_le [of "bm_bits b"] assms by simp
  moreover from this have "has_cached_unset_bit_count (zeros (bm_bits b))"
    using assms by (intro cached_iff) (simp add: bm_inv_def)
  ultimately show ?thesis using that(2) by simp
qed

lemma bm_count_zeros:
  assumes "good_platform p" and "bm_inv b" and "off + n \<le> bm_length b"
  shows "count_zeros p (bm_storage b) (bm_offset b + off) n
    = Inr (zeros (window (bm_storage b) (bm_offset b + off) n))"
  using assms by (simp add: count_zeros_correct bm_inv_def zeros_def)

lemma bm_unset_bits_correct:
  assumes "good_platform p" and "bm_inv b"
  shows "\<exists>b'. bm_unset_bits p b = Inr (zeros (bm_bits b), b') \<and> bm_inv b' \<and> bm_bits b' = bm_bits b"
  using assms(2)
proof (cases rule: bm_cache_cases)
  case unknown
  then have "bm_unset_bits p b = Inr (zeros (bm_bits b), b\<lparr>bm_cache := zeros (bm_bits b)\<rparr>)"
    using bm_count_zeros [OF assms, of 0 "bm_length b"]
    by (simp add: bm_unset_bits_def bm_lazy_unset_bits_def bm_bits_def)
  with assms(2) show ?thesis by (simp add: bm_inv_def bm_bits_def)
next
  case known
  with assms(2) show ?thesis by (simp add: bm_unset_bits_def bm_lazy_unset_bits_def)
qed

definition bm_window :: "nat \<Rightarrow> nat \<Rightarrow> nat \<Rightarrow> bitmap \<Rightarrow> bitmap" where
  "bm_window off n c b = b\<lparr>bm_cache := c, bm_offset := bm_offset b + off, bm_length := n\<rparr>"

lemma bm_window_bits:
  "off + n \<le> bm_length b \<Longrightarrow> bm_bits (bm_window off n c b) = take n (drop off (bm_bits b))"
  by (simp add: bm_window_def bm_bits_def window_def drop_take min_absorb1 add.commute)

lemma bm_window_inv:
  assumes "bm_inv b" and "off + n \<le> bm_length b"
    and "c = UNKNOWN_BIT_COUNT \<or> c = zeros (take n (drop off (bm_bits b)))"
  shows "bm_inv (bm_window off n c b)"
  using assms bm_window_bits [OF assms(2), of c] by (auto simp: bm_inv_def bm_window_def)

lemma bm_three_parts:
  assumes "bm_inv b" and "off + n \<le> bm_length b"
  shows "zeros (bm_bits b) = zeros (window (bm_storage b) (bm_offset b) off)
    + zeros (take n (drop off (bm_bits b)))
    + zeros (window (bm_storage b) (bm_offset b + off + n) (bm_length b - n - off))"
proof -
  define rest where "rest = bm_length b - n - off"
  have len: "bm_length b = off + (n + rest)" using assms(2) by (simp add: rest_def)
  have eq: "bm_bits b = window (bm_storage b) (bm_offset b) off @ window (bm_storage b) (bm_offset b + off) n
      @ window (bm_storage b) (bm_offset b + off + n) rest"
    unfolding bm_bits_def len by (simp only: window_split add.assoc)
  have "window (bm_storage b) (bm_offset b + off) n = take n (drop off (bm_bits b))"
    using bm_window_bits [OF assms(2), of 0] by (simp add: bm_window_def bm_bits_def)
  with arg_cong [OF eq, of zeros] show ?thesis by (simp only: zeros_append rest_def add.assoc)
qed

lemma zeros_extremes:
  assumes "bm_inv b" and "off + n \<le> bm_length b"
  shows "zeros (bm_bits b) = 0 \<Longrightarrow> zeros (take n (drop off (bm_bits b))) = 0"
    and "zeros (bm_bits b) = bm_length b \<Longrightarrow> zeros (take n (drop off (bm_bits b))) = n"
proof -
  have fits: "bm_offset b + bm_length b \<le> 8 * length (bm_storage b)" using assms(1) by (simp add: bm_inv_def)
  have n: "length (take n (drop off (bm_bits b))) = n" using assms by simp
  have h: "length (window (bm_storage b) (bm_offset b) off) = off"
    and t: "length (window (bm_storage b) (bm_offset b + off + n) (bm_length b - n - off)) = bm_length b - n - off"
    using assms(2) fits by simp_all
  show "zeros (bm_bits b) = 0 \<Longrightarrow> zeros (take n (drop off (bm_bits b))) = 0"
    using bm_three_parts [OF assms] by simp
  show "zeros (bm_bits b) = bm_length b \<Longrightarrow> zeros (take n (drop off (bm_bits b))) = n"
    using bm_three_parts [OF assms] zeros_le [of "take n (drop off (bm_bits b))", unfolded n]
      zeros_le [of "window (bm_storage b) (bm_offset b) off", unfolded h]
      zeros_le [of "window (bm_storage b) (bm_offset b + off + n) (bm_length b - n - off)", unfolded t]
      assms(2)
    by linarith
qed

lemma bm_slice_unchecked_window:
  assumes "good_platform p" and "bm_inv b" and fits: "off + n \<le> bm_length b"
  shows "\<exists>c. bm_slice_unchecked p off n b = Inr (bm_window off n c b) \<and>
    (c = UNKNOWN_BIT_COUNT \<or> c = zeros (take n (drop off (bm_bits b))))"
proof (cases "off = 0 \<and> n = bm_length b")
  case True
  then have "bm_slice_unchecked p off n b = Inr (bm_window off n (bm_cache b) b)"
    by (simp add: bm_slice_unchecked_def bm_window_def)
  with True assms(2) show ?thesis by (auto simp: bm_inv_def bm_bits_def)
next
  case False
  from assms(2) show ?thesis
  proof (cases rule: bm_cache_cases)
    case unknown
    with False show ?thesis
      by (intro exI [of _ UNKNOWN_BIT_COUNT]) (auto simp: bm_slice_unchecked_def bm_window_def Let_def)
  next
    case known
    have head: "count_zeros p (bm_storage b) (bm_offset b) off = Inr (zeros (window (bm_storage b) (bm_offset b) off))"
      using bm_count_zeros [OF assms(1,2), of 0 off] fits by simp
    have tail: "count_zeros p (bm_storage b) (bm_offset b + off + n) (bm_length b - n - off)
        = Inr (zeros (window (bm_storage b) (bm_offset b + off + n) (bm_length b - n - off)))"
      using bm_count_zeros [OF assms(1,2), of "off + n" "bm_length b - n - off"] fits by (simp add: add.assoc)
    have rest: "zeros (bm_bits b) - zeros (window (bm_storage b) (bm_offset b) off)
        - zeros (window (bm_storage b) (bm_offset b + off + n) (bm_length b - n - off))
        = zeros (take n (drop off (bm_bits b)))"
      using bm_three_parts [OF assms(2) fits] by linarith
    show ?thesis
    proof (cases "bm_cache b = 0 \<or> bm_cache b = bm_length b")
      case True
      then have "bm_slice_unchecked p off n b = Inr (bm_window off n (if bm_cache b > 0 then n else 0) b)"
        using False by (auto simp: bm_slice_unchecked_def bm_window_def Let_def)
      moreover have "(if bm_cache b > 0 then n else 0) = zeros (take n (drop off (bm_bits b)))"
        using True known(1) zeros_extremes [OF assms(2) fits] by auto
      ultimately show ?thesis by metis
    next
      case mixed: False
      with False known(2) head tail rest known(1) show ?thesis
        by (auto simp: bm_slice_unchecked_def bm_window_def Let_def)
    qed
  qed
qed

lemma bm_slice_correct:
  assumes "good_platform p" and "bm_inv b" and "off + n \<le> bm_length b"
  shows "\<exists>b'. bm_slice p off n b = Inr b' \<and> bm_inv b' \<and> bm_bits b' = take n (drop off (bm_bits b))"
  using bm_slice_unchecked_window [OF assms] bm_window_inv [OF assms(2,3)] bm_window_bits [OF assms(3)]
    assms(3)
  by (auto simp: bm_slice_def)

lemma bm_split_counts:
  assumes "good_platform p" and "bm_inv b" and "off \<le> bm_length b"
  shows "count_zeros p (bm_storage b) (bm_offset b) off = Inr (zeros (take off (bm_bits b)))"
    and "count_zeros p (bm_storage b) (bm_offset b + off) (bm_length b - off) = Inr (zeros (drop off (bm_bits b)))"
    and "zeros (bm_bits b) = zeros (take off (bm_bits b)) + zeros (drop off (bm_bits b))"
proof -
  have l: "window (bm_storage b) (bm_offset b) off = take off (bm_bits b)"
    and r: "window (bm_storage b) (bm_offset b + off) (bm_length b - off) = drop off (bm_bits b)"
    using assms(3) by (simp_all add: bm_bits_def window_def min_absorb1 drop_take add.commute)
  show "count_zeros p (bm_storage b) (bm_offset b) off = Inr (zeros (take off (bm_bits b)))"
    using bm_count_zeros [OF assms(1,2), of 0 off] assms(3) by (simp add: l)
  show "count_zeros p (bm_storage b) (bm_offset b + off) (bm_length b - off) = Inr (zeros (drop off (bm_bits b)))"
    using bm_count_zeros [OF assms(1,2), of off "bm_length b - off"] assms(3) by (simp add: r)
  show "zeros (bm_bits b) = zeros (take off (bm_bits b)) + zeros (drop off (bm_bits b))"
    by (simp only: zeros_append [symmetric] append_take_drop_id)
qed

lemma bm_split_windows:
  assumes "good_platform p" and "bm_inv b" and off: "0 < off" "off < bm_length b"
  shows "\<exists>c d. bm_split_at_unchecked p off b = Inr (bm_window 0 off c b, bm_window off (bm_length b - off) d b) \<and>
    (c = UNKNOWN_BIT_COUNT \<or> c = zeros (take off (bm_bits b))) \<and>
    (d = UNKNOWN_BIT_COUNT \<or> d = zeros (drop off (bm_bits b)))"
    (is "\<exists>c d. ?split c d \<and> ?L c \<and> ?R d")
proof -
  have le: "off \<le> bm_length b" using off by simp
  note counts = bm_split_counts [OF assms(1,2) le]
  let ?u = UNKNOWN_BIT_COUNT and ?l = "zeros (take off (bm_bits b))" and ?r = "zeros (drop off (bm_bits b))"
  note defs = bm_split_at_unchecked_def bm_window_def Let_def
  from assms(2) have "?split ?u ?u \<or> ?split ?l ?r"
  proof (cases rule: bm_cache_cases)
    case unknown
    with off show ?thesis by (simp add: defs)
  next
    case known
    have all: "?l = off" "?r = bm_length b - off" if "zeros (bm_bits b) = bm_length b"
      using that counts(3) zeros_le [of "take off (bm_bits b)"] zeros_le [of "drop off (bm_bits b)"] assms(2) le
      by simp_all
    have none: "?l = 0" "?r = 0" if "zeros (bm_bits b) = 0"
      using that counts(3) by simp_all
    consider "bm_cache b = 0" | "bm_cache b = bm_length b" "bm_cache b \<noteq> 0"
      | "bm_cache b \<noteq> 0" "bm_cache b \<noteq> bm_length b" by blast
    then show ?thesis
    proof cases
      case 1
      then have "?split 0 0" using off known(2) by (simp add: defs)
      moreover have "?l = 0" "?r = 0" using 1 known(1) none by simp_all
      ultimately show ?thesis by metis
    next
      case 2
      then have "?split off (bm_length b - off)" using off known(2) by (simp add: defs)
      moreover have "?l = off" "?r = bm_length b - off" using 2 known(1) all by simp_all
      ultimately show ?thesis by metis
    next
      case 3
      have diff: "bm_cache b - ?l = ?r" "bm_cache b - ?r = ?l" unfolding known(1) counts(3) by simp_all
      have "off \<noteq> 0" "off \<noteq> bm_length b" using off by simp_all
      then show ?thesis by (simp add: defs 3 known(2) counts(1,2) diff)
    qed
  qed
  then show ?thesis by blast
qed

lemma bm_new_ok [simp]: "bm_inv bm_new" "bm_bits bm_new = []"
  by (simp_all add: bm_new_def bm_inv_def bm_bits_def window_def zeros_def)

lemma bm_split_correct:
  assumes "good_platform p" and "bm_inv b" and "off \<le> bm_length b"
  shows "\<exists>l r. bm_split_at_unchecked p off b = Inr (l, r) \<and> bm_inv l \<and> bm_inv r \<and>
    bm_bits l = take off (bm_bits b) \<and> bm_bits r = drop off (bm_bits b)"
proof (cases "off = 0 \<or> off = bm_length b")
  case True
  with assms(2) show ?thesis by (auto simp: bm_split_at_unchecked_def)
next
  case False
  with assms(3) have off: "0 < off" "off < bm_length b" by auto
  then have r: "take (bm_length b - off) (drop off (bm_bits b)) = drop off (bm_bits b)" using assms(2) by simp
  from off obtain c d where
    "bm_split_at_unchecked p off b = Inr (bm_window 0 off c b, bm_window off (bm_length b - off) d b)"
    "c = UNKNOWN_BIT_COUNT \<or> c = zeros (take off (bm_bits b))"
    "d = UNKNOWN_BIT_COUNT \<or> d = zeros (drop off (bm_bits b))"
    using bm_split_windows [OF assms(1,2) off] by blast
  with off r show ?thesis
    using bm_window_inv [OF assms(2), of 0 off c] bm_window_bits [of 0 off b c]
      bm_window_inv [OF assms(2), of off "bm_length b - off" d] bm_window_bits [of off "bm_length b - off" b d]
    by auto
qed

lemma bm_get_correct: "bm_inv b \<Longrightarrow> bm_get b i = Inr (if i < bm_length b then Some (bm_bits b ! i) else None)"
  by (auto simp: bm_get_def bm_get_bit_unchecked_def get_bit_unchecked_ok bm_inv_def bm_bits_def window_def)

lemma bm_as_slice_correct:
  assumes "bm_inv b"
  shows "\<exists>bs. bm_as_slice b = Inr (bs, bm_offset b mod 8, bm_length b) \<and>
    bm_offset b mod 8 + bm_length b \<le> 8 * length bs \<and>
    window bs (bm_offset b mod 8) (bm_length b) = bm_bits b"
proof -
  define a k where "a = bm_offset b div 8" and "k = bm_offset b mod 8"
  have off: "bm_offset b = 8 * a + k" by (simp add: a_def k_def)
  define n where "n = (k + bm_length b + 7) div 8"
  have n: "k + bm_length b \<le> 8 * n" by (simp add: n_def)
  have "a + n \<le> length (bm_storage b)"
    using assms off div_le_mono [of "8 * a + k + bm_length b + 7" "8 * length (bm_storage b) + 7" 8]
    by (simp add: bm_inv_def n_def add.assoc)
  then have "bm_as_slice b = Inr (take n (drop a (bm_storage b)), k, bm_length b)"
      "length (take n (drop a (bm_storage b))) = n"
    by (simp_all add: bm_as_slice_def subslice_def a_def k_def n_def)
  moreover have "window (take n (drop a (bm_storage b))) k (bm_length b) = bm_bits b"
    using n by (simp add: window_def bm_bits_def bits_of_take bits_of_drop drop_take off min_absorb1 add.commute)
  ultimately show ?thesis using n by (auto simp: k_def)
qed

lemma mb_extend_from_bitmap_correct:
  assumes "mb_inv m" and "bm_inv b"
  shows "\<exists>m'. mb_extend_from_bitmap b m = Inr m' \<and> mb_inv m' \<and> mb_bits m' = mb_bits m @ bm_bits b"
proof -
  obtain bs where bs: "bm_as_slice b = Inr (bs, bm_offset b mod 8, bm_length b)"
    "bm_offset b mod 8 + bm_length b \<le> 8 * length bs" "window bs (bm_offset b mod 8) (bm_length b) = bm_bits b"
    using bm_as_slice_correct [OF assms(2)] by blast
  with mb_extend_from_slice_correct [OF assms(1) bs(2)] show ?thesis
    by (simp add: mb_extend_from_bitmap_def mb_extend_from_slice_def mult.commute)
qed

lemma bm_from_mutable_correct:
  assumes "mb_inv m" and "mb_length m < 2 ^ 63"
  shows "\<exists>b. bm_from_mutable m = Inr b \<and> bm_inv b \<and> bm_bits b = mb_bits m"
  using assms mb_inv_fits [OF assms(1)]
  by (simp add: bm_from_mutable_def bm_try_new_def bm_check_def bm_inv_def bm_bits_def mb_bits_def
      mult.commute zeros_def window_def)

lemma bm_opt_from_mutable_correct:
  assumes "good_platform p" and "mb_inv m" and "mb_length m < 2 ^ 63"
  shows "(False \<in> set (mb_bits m) \<and> (\<exists>b. bm_opt_from_mutable p m = Inr (Some b) \<and> bm_inv b \<and> bm_bits b = mb_bits m))
    \<or> (False \<notin> set (mb_bits m) \<and> bm_opt_from_mutable p m = Inr None)"
  using assms mb_unset_bits_correct [OF assms(1,2)] mb_inv_fits [OF assms(2)]
  by (auto simp: bm_opt_from_mutable_def bm_from_inner_unchecked_def bm_inv_def bm_bits_def mb_bits_def
      zeros_def filter_empty_conv)

subsection \<open>Every sequence of operations behaves as on a list of booleans\<close>

datatype bm_op = Slice nat nat | SplitLeft nat | SplitRight nat | CountUnset | CountSet | GetAt nat

fun bm_step :: "platform \<Rightarrow> bm_op \<Rightarrow> bitmap \<Rightarrow> (mb_ret \<times> bitmap) res" where
  "bm_step p (Slice off n) b = returning_unit (bm_slice p off n b)"
| "bm_step p (SplitLeft off) b = rbind (bm_split_at_unchecked p off b) (\<lambda>(l, r). Inr (RUnit, l))"
| "bm_step p (SplitRight off) b = rbind (bm_split_at_unchecked p off b) (\<lambda>(l, r). Inr (RUnit, r))"
| "bm_step p CountUnset b = rbind (bm_unset_bits p b) (\<lambda>(n, b'). Inr (RNat n, b'))"
| "bm_step p CountSet b = rbind (bm_set_bits p b) (\<lambda>(n, b'). Inr (RNat n, b'))"
| "bm_step p (GetAt i) b = rbind (bm_get b i) (\<lambda>v. Inr (ROpt v, b))"

fun bits_step :: "bm_op \<Rightarrow> bool list \<Rightarrow> mb_ret \<times> bool list" where
  "bits_step (Slice off n) xs = (RUnit, take n (drop off xs))"
| "bits_step (SplitLeft off) xs = (RUnit, take off xs)"
| "bits_step (SplitRight off) xs = (RUnit, drop off xs)"
| "bits_step CountUnset xs = (RNat (zeros xs), xs)"
| "bits_step CountSet xs = (RNat (length xs - zeros xs), xs)"
| "bits_step (GetAt i) xs = (ROpt (if i < length xs then Some (xs ! i) else None), xs)"

fun bm_pre :: "bm_op \<Rightarrow> bool list \<Rightarrow> bool" where
  "bm_pre (Slice off n) xs \<longleftrightarrow> off + n \<le> length xs"
| "bm_pre (SplitLeft off) xs \<longleftrightarrow> off \<le> length xs"
| "bm_pre (SplitRight off) xs \<longleftrightarrow> off \<le> length xs"
| "bm_pre _ xs \<longleftrightarrow> True"

lemma bm_step_simulates:
  assumes "good_platform p" and "bm_inv b" and "bm_pre x (bm_bits b)"
  shows "\<exists>b'. bm_step p x b = Inr (fst (bits_step x (bm_bits b)), b') \<and> bm_inv b' \<and>
    bm_bits b' = snd (bits_step x (bm_bits b))"
proof (cases x)
  case (Slice off n)
  with bm_slice_correct [OF assms(1,2), of off n] assms(2,3) show ?thesis by auto
next
  case (SplitLeft off)
  with bm_split_correct [OF assms(1,2), of off] assms(2,3) show ?thesis by auto
next
  case (SplitRight off)
  with bm_split_correct [OF assms(1,2), of off] assms(2,3) show ?thesis by auto
next
  case CountUnset
  with bm_unset_bits_correct [OF assms(1,2)] show ?thesis by auto
next
  case CountSet
  with bm_unset_bits_correct [OF assms(1,2)] assms(2) show ?thesis by (auto simp: bm_set_bits_def)
next
  case (GetAt i)
  with bm_get_correct [OF assms(2), of i] assms(2) show ?thesis by simp
qed

lemma bm_simulates: "good_platform p \<Longrightarrow> simulates (bm_step p) bits_step bm_pre bm_bits bm_inv"
  by unfold_locales (rule bm_step_simulates)

interpretation bm_sim: simulates "bm_step (le_platform a)" bits_step bm_pre bm_bits bm_inv
  by (rule bm_simulates [OF good_le_platform])

subsection \<open>Properties\<close>

text \<open>
  C2. After any sequence of slices, splits and counts, a bitmap returns the bits and the
  numbers of set and unset bits of the window it stands for: the cached count, updated by
  inclusion and exclusion, is never stale, at every address and alignment of the storage.
\<close>

theorem bitmap_counts_exact:
  assumes "good_platform p" and "bm_inv b" and "admissible bm_pre bits_step ops (bm_bits b)"
  shows "\<exists>b'. run (bm_step p) ops b = Inr (fst (run_spec bits_step ops (bm_bits b)), b') \<and> bm_inv b' \<and>
    bm_bits b' = snd (run_spec bits_step ops (bm_bits b))"
  using simulates.run_sim [OF bm_simulates [OF assms(1)] assms(2,3)] .

theorem bitmap_counts_exact_witness:
  "\<exists>b'. run (bm_step (le_platform 5)) [CountUnset, Slice 1 4, CountUnset, SplitRight 2, CountSet]
      \<lparr>bm_storage = [13], bm_offset = 0, bm_length = 6, bm_cache = UNKNOWN_BIT_COUNT\<rparr>
    = Inr ([RNat 3, RUnit, RNat 2, RUnit, RNat 1], b')"
proof -
  let ?b = "\<lparr>bm_storage = [13], bm_offset = 0, bm_length = 6, bm_cache = UNKNOWN_BIT_COUNT\<rparr>"
  let ?ops = "[CountUnset, Slice 1 4, CountUnset, SplitRight 2, CountSet]"
  have bits: "bm_bits ?b = [True, False, True, True, False, False]"
    by (simp add: bm_bits_def window_def byte_bits_def upt_rec)
  have inv: "bm_inv ?b" by (simp add: bm_inv_def)
  have "admissible bm_pre bits_step ?ops (bm_bits ?b)" by (simp add: bits)
  moreover have "fst (run_spec bits_step ?ops (bm_bits ?b)) = [RNat 3, RUnit, RNat 2, RUnit, RNat 1]"
    by (simp add: bits zeros_def)
  ultimately show ?thesis
    using bitmap_counts_exact [OF good_le_platform inv, of ?ops 5] by auto
qed

text \<open>
  Freezing a mutable bitmap keeps its bits, as an optional bitmap it is absent exactly
  when no bit is unset, and extending another mutable bitmap from the frozen one appends the
  same bits.
\<close>

theorem bitmap_freeze_extend:
  assumes "good_platform p" and "mb_inv m" and "mb_length m < 2 ^ 63" and "mb_inv m0"
  shows "\<exists>b m'. bm_from_mutable m = Inr b \<and> bm_inv b \<and> bm_bits b = mb_bits m \<and>
    mb_extend_from_bitmap b m0 = Inr m' \<and> mb_inv m' \<and> mb_bits m' = mb_bits m0 @ mb_bits m \<and>
    (bm_opt_from_mutable p m = Inr None \<longleftrightarrow> False \<notin> set (mb_bits m))"
proof -
  obtain b where b: "bm_from_mutable m = Inr b" "bm_inv b" "bm_bits b = mb_bits m"
    using bm_from_mutable_correct [OF assms(2,3)] by blast
  with mb_extend_from_bitmap_correct [OF assms(4) b(2)] bm_opt_from_mutable_correct [OF assms(1-3)]
  show ?thesis by auto
qed

theorem bitmap_freeze_extend_witness:
  "\<exists>b m'. bm_from_mutable (mb_from_iter [True, False]) = Inr b \<and> bm_bits b = [True, False] \<and>
    mb_extend_from_bitmap b (mb_from_iter [True]) = Inr m' \<and> mb_bits m' = [True, True, False]"
proof -
  have "mb_length (mb_from_iter [True, False]) = 2"
    using length_mb_bits [OF mb_from_iter_correct(1), of "[True, False]"] by (simp add: mb_from_iter_correct)
  with bitmap_freeze_extend [OF good_le_platform [of 0] mb_from_iter_correct(1) [of "[True, False]"] _
      mb_from_iter_correct(1) [of "[True]"]]
  show ?thesis by (auto simp: mb_from_iter_correct)
qed

text \<open>
  The constructors of constant bitmaps give well-formed bitmaps of the wanted length with
  an exact cached count, also when the shared block of zeroes is used.
\<close>

theorem bitmap_constant_constructors:
  assumes "n < 2 ^ 63"
  shows "bm_inv (bm_new_zeroed n) \<and> bm_bits (bm_new_zeroed n) = replicate n False \<and>
    bm_inv (bm_new_with_value v n) \<and> bm_bits (bm_new_with_value v n) = replicate n v"
proof -
  define q where "q = (n + 7) div 8"
  have "n \<le> 8 * q" by (simp add: q_def)
  then have z: "n \<le> 8 * length (bm_storage (bm_new_zeroed n))"
    by (simp add: bm_new_zeroed_def Let_def q_def [symmetric])
  have "bm_storage (bm_new_zeroed n) = replicate (length (bm_storage (bm_new_zeroed n))) 0"
    by (simp add: bm_new_zeroed_def Let_def)
  then have "bits_of (bm_storage (bm_new_zeroed n)) = replicate (8 * length (bm_storage (bm_new_zeroed n))) False"
    by (metis bits_of_replicate byte_bits_0)
  with z have "bm_bits (bm_new_zeroed n) = replicate n False"
    by (simp add: bm_bits_def window_def min_absorb1) (simp add: bm_new_zeroed_def Let_def min_absorb1)
  moreover have "bm_bits (bm_new_with_value v n) = replicate n v"
    using bits_of_replicate [OF byte_bits_0] bits_of_replicate [OF byte_bits_255]
    by (simp add: bm_bits_def window_def bm_new_with_value_def bm_from_inner_unchecked_def min_absorb1)
  ultimately show ?thesis
    using assms z by (auto simp: bm_inv_def zeros_def) (auto simp: bm_new_zeroed_def bm_new_with_value_def
        bm_from_inner_unchecked_def Let_def)
qed

theorem bitmap_constant_constructors_witness:
  "bm_bits (bm_new_zeroed 3) = [False, False, False] \<and> bm_inv (bm_new_with_value True 3)"
  using bitmap_constant_constructors [of 3 True] by (simp add: numeral_3_eq_3)

end
