(* ===== verification/SortedJoin.thy ===== *)
theory SortedJoin
  imports Prelude
begin

section \<open>Joins of sorted columns\<close>

text \<open>
  The inner and left join kernels for sorted keys of
  \<^verbatim>\<open>crates/polars-arrow/src/legacy/kernels/sorted_join/\<close> (\<^verbatim>\<open>inner.rs\<close> and \<^verbatim>\<open>left.rs\<close>). A right
  cursor moves forward over the right keys and is reset to the start of a run of equal
  keys, so that repeated left keys meet the whole run again. The key type is any linear
  order (floating-point keys with NaN are outside it). \<open>partition_point\<close> is the length of the
  prefix that satisfies the predicate, which the binary search of the standard library finds
  when the keys are sorted.

  Row numbers are words, as \<^verbatim>\<open>IdxSize\<close> of \<^verbatim>\<open>crates/polars-utils/src/index.rs\<close>: \<open>32 word\<close>, or
  \<open>64 word\<close> with the feature \<^verbatim>\<open>bigidx\<close>; the definitions hold for every width. A length
  is cut to the width by the cast \<^verbatim>\<open>as IdxSize\<close>, and a sum of row numbers that does not fit
  is a panic, as in builds with overflow checks. A missing right row is the reserved word
  \<^verbatim>\<open>IdxSize::MAX\<close>, which is \<open>- 1\<close>, as in \<^verbatim>\<open>NullableIdxSize\<close>. The lemmas show that the kernels list exactly the
  matching pairs, in the order of the left rows and, for one left row, of the right rows,
  as long as the row numbers fit. There no sum overflows, so builds without overflow checks
  return the same, and no right row has the reserved number.
\<close>

subsection \<open>Row numbers\<close>

definition idx_add :: "'i::len word \<Rightarrow> 'i word \<Rightarrow> 'i word res" where
  "idx_add x y = (if unat x + unat y < 2 ^ LENGTH('i) then Inr (x + y) else Inl Panic)"

definition idx_range :: "'i::len word \<Rightarrow> 'i word \<Rightarrow> 'i word list" where
  "idx_range lo hi = map of_nat [unat lo..<unat hi]"

record 'w nullable_idx_size =
  inner :: 'w

definition is_null_idx :: "'i::len word nullable_idx_size \<Rightarrow> bool" where
  "is_null_idx x \<longleftrightarrow> inner x = - 1"

definition null_idx :: "'i::len word nullable_idx_size" where
  "null_idx = \<lparr>inner = - 1\<rparr>"

definition idx_to_opt :: "'i::len word nullable_idx_size \<Rightarrow> 'i word option" where
  "idx_to_opt x = (if is_null_idx x then None else Some (inner x))"

definition nullable_of_idx :: "'i::len word \<Rightarrow> 'i word nullable_idx_size" where
  "nullable_of_idx v = \<lparr>inner = v\<rparr>"

subsection \<open>Kernels\<close>

definition partition_point :: "('a \<Rightarrow> bool) \<Rightarrow> 'a list \<Rightarrow> nat" where
  "partition_point p xs = length (takeWhile p xs)"

lemma idx_add_eq_Inr: "idx_add x y = Inr z \<Longrightarrow> unat z = unat x + unat y"
  by (auto simp: idx_add_def unat_add_lem split: if_splits)

lemma idx_add_one_eq_Inr: "idx_add x 1 = Inr z \<Longrightarrow> unat z = Suc (unat x)"
  by (auto dest: idx_add_eq_Inr)

function push_run ::
    "'a list \<Rightarrow> 'a \<Rightarrow> 'i::len word \<Rightarrow> 'i word \<Rightarrow> 'i word \<Rightarrow> 'i word list \<times> 'i word list
       \<Rightarrow> ('i word list \<times> 'i word list) res" where
  "push_run right val_l left_idx left_offset right_idx out =
     rbind (idx_add right_idx 1) (\<lambda>right_idx'.
       if unat right_idx' < length right \<and> right ! unat right_idx' = val_l
       then rbind (idx_add left_idx left_offset) (\<lambda>row.
              push_run right val_l left_idx left_offset right_idx'
                (fst out @ [row], snd out @ [right_idx']))
       else Inr out)"
  by auto
termination
  by (relation "measure (\<lambda>(r, v, l, f, i, out). length r - unat i)") (auto dest!: idx_add_one_eq_Inr)

function inner_scan ::
    "'a::linorder list \<Rightarrow> 'a \<Rightarrow> 'i::len word \<Rightarrow> 'i word \<Rightarrow> 'i word \<Rightarrow> 'i word list \<times> 'i word list
       \<Rightarrow> ('i word \<times> 'i word list \<times> 'i word list) res" where
  "inner_scan right val_l left_idx left_offset right_idx out =
     (if unat right_idx < length right then
        (let val_r = right ! unat right_idx in
         if val_l = val_r
         then rbind (idx_add left_idx left_offset) (\<lambda>row.
              rbind (push_run right val_l left_idx left_offset right_idx
                       (fst out @ [row], snd out @ [right_idx])) (\<lambda>out'.
              Inr (right_idx, out')))
         else if val_r > val_l then Inr (right_idx, out)
         else rbind (idx_add right_idx 1) (\<lambda>right_idx'.
              inner_scan right val_l left_idx left_offset right_idx' out))
      else Inr (right_idx, out))"
  by auto
termination
  by (relation "measure (\<lambda>(r, v, l, f, i, out). length r - unat i)") (auto dest!: idx_add_one_eq_Inr)

fun inner_loop ::
    "'a::linorder list \<Rightarrow> 'a list \<Rightarrow> 'i::len word \<Rightarrow> 'i word \<Rightarrow> 'i word \<Rightarrow> 'i word list \<times> 'i word list
       \<Rightarrow> ('i word list \<times> 'i word list) res" where
  "inner_loop right [] left_idx left_offset right_idx out = Inr out"
| "inner_loop right (val_l # ls) left_idx left_offset right_idx out =
     rbind (inner_scan right val_l left_idx left_offset right_idx out) (\<lambda>(right_idx', out').
     rbind (idx_add left_idx 1) (\<lambda>left_idx'.
       inner_loop right ls left_idx' left_offset right_idx' out'))"

definition inner_join_sorted ::
    "'a::linorder list \<Rightarrow> 'a list \<Rightarrow> 'i::len word \<Rightarrow> ('i word list \<times> 'i word list) res" where
  "inner_join_sorted left right left_offset =
     (if left = [] \<or> right = [] then Inr ([], [])
      else (let left_idx = of_nat (partition_point (\<lambda>v. v < right ! 0) left)
            in inner_loop right (drop (unat left_idx) left) left_idx left_offset 0 ([], [])))"

function push_run_left ::
    "'a list \<Rightarrow> 'a \<Rightarrow> 'i::len word \<Rightarrow> 'i word \<Rightarrow> 'i word \<Rightarrow> 'i word list \<times> 'i word nullable_idx_size list
       \<Rightarrow> ('i word list \<times> 'i word nullable_idx_size list) res" where
  "push_run_left right val_l left_idx left_offset right_idx out =
     rbind (idx_add right_idx 1) (\<lambda>right_idx'.
       if unat right_idx' < length right \<and> right ! unat right_idx' = val_l
       then rbind (idx_add left_idx left_offset) (\<lambda>row.
              push_run_left right val_l left_idx left_offset right_idx'
                (fst out @ [row], snd out @ [nullable_of_idx right_idx']))
       else Inr out)"
  by auto
termination
  by (relation "measure (\<lambda>(r, v, l, f, i, out). length r - unat i)") (auto dest!: idx_add_one_eq_Inr)

function left_scan ::
    "'a::linorder list \<Rightarrow> 'a \<Rightarrow> 'i::len word \<Rightarrow> 'i word \<Rightarrow> 'i word \<Rightarrow> 'i word list \<times> 'i word nullable_idx_size list
       \<Rightarrow> ('i word \<times> 'i word list \<times> 'i word nullable_idx_size list) res" where
  "left_scan right val_l left_idx left_offset right_idx out =
     (if unat right_idx < length right then
        (let val_r = right ! unat right_idx in
         if val_l = val_r
         then rbind (idx_add left_idx left_offset) (\<lambda>row.
              rbind (push_run_left right val_l left_idx left_offset right_idx
                       (fst out @ [row], snd out @ [nullable_of_idx right_idx])) (\<lambda>out'.
              Inr (right_idx, out')))
         else if val_r > val_l
         then rbind (idx_add left_idx left_offset) (\<lambda>row.
              Inr (right_idx, fst out @ [row], snd out @ [null_idx]))
         else rbind (idx_add right_idx 1) (\<lambda>right_idx'.
              left_scan right val_l left_idx left_offset right_idx' out))
      else rbind (idx_add left_idx left_offset) (\<lambda>row.
           Inr (right_idx, fst out @ [row], snd out @ [null_idx])))"
  by auto
termination
  by (relation "measure (\<lambda>(r, v, l, f, i, out). length r - unat i)") (auto dest!: idx_add_one_eq_Inr)

fun left_loop ::
    "'a::linorder list \<Rightarrow> 'a list \<Rightarrow> 'i::len word \<Rightarrow> 'i word \<Rightarrow> 'i word \<Rightarrow> 'i word list \<times> 'i word nullable_idx_size list
       \<Rightarrow> ('i word list \<times> 'i word nullable_idx_size list) res" where
  "left_loop right [] left_idx left_offset right_idx out = Inr out"
| "left_loop right (val_l # ls) left_idx left_offset right_idx out =
     rbind (left_scan right val_l left_idx left_offset right_idx out) (\<lambda>(right_idx', out').
     rbind (idx_add left_idx 1) (\<lambda>left_idx'.
       left_loop right ls left_idx' left_offset right_idx' out'))"

definition left_join_sorted ::
    "'a::linorder list \<Rightarrow> 'a list \<Rightarrow> 'i::len word \<Rightarrow> ('i word list \<times> 'i word nullable_idx_size list) res" where
  "left_join_sorted left right left_offset =
     (if left = [] then Inr ([], [])
      else if right = []
      then rbind (idx_add (of_nat (length left)) left_offset) (\<lambda>row_end.
           Inr (idx_range left_offset row_end, replicate (length left) null_idx))
      else (let left_idx = of_nat (partition_point (\<lambda>v. v < right ! 0) left)
            in rbind (idx_add left_idx left_offset) (\<lambda>row_end.
               left_loop right (drop (unat left_idx) left) left_idx left_offset 0
                 (idx_range left_offset row_end, replicate (unat left_idx) null_idx))))"

declare push_run.simps [simp del] inner_scan.simps [simp del]
  push_run_left.simps [simp del] left_scan.simps [simp del]

subsection \<open>Specification\<close>

text \<open>
  \<open>matches right v\<close> are the right rows with key \<open>v\<close>, in order.
\<close>

definition matches :: "'a list \<Rightarrow> 'a \<Rightarrow> nat list" where
  "matches right v = filter (\<lambda>j. right ! j = v) [0..<length right]"

definition inner_pairs :: "'a list \<Rightarrow> nat \<Rightarrow> 'a list \<Rightarrow> (nat \<times> nat) list" where
  "inner_pairs right k ls = concat (map (\<lambda>(i, v). map (Pair (k + i)) (matches right v)) (enumerate 0 ls))"

definition left_pairs_of :: "'a list \<Rightarrow> nat \<Rightarrow> 'a \<Rightarrow> (nat \<times> nat option) list" where
  "left_pairs_of right row v =
     (if matches right v = [] then [(row, None)] else map (\<lambda>j. (row, Some j)) (matches right v))"

definition left_pairs :: "'a list \<Rightarrow> nat \<Rightarrow> 'a list \<Rightarrow> (nat \<times> nat option) list" where
  "left_pairs right k ls = concat (map (\<lambda>(i, v). left_pairs_of right (k + i) v) (enumerate 0 ls))"

lemma enumerate_Suc_shift: "enumerate (Suc n) xs = map (\<lambda>(i, v). (Suc i, v)) (enumerate n xs)"
  by (induction xs arbitrary: n) auto

lemma inner_pairs_simps [simp]:
  "inner_pairs right k [] = []"
  "inner_pairs right k (v # vs) = map (Pair k) (matches right v) @ inner_pairs right (Suc k) vs"
  by (simp_all add: inner_pairs_def enumerate_Suc_shift comp_def case_prod_unfold)

lemma left_pairs_simps [simp]:
  "left_pairs right k [] = []"
  "left_pairs right k (v # vs) = left_pairs_of right k v @ left_pairs right (Suc k) vs"
  by (simp_all add: left_pairs_def enumerate_Suc_shift comp_def case_prod_unfold)

subsection \<open>The scan of the right keys\<close>

lemma matches_from:
  assumes "\<And>j. j < i \<Longrightarrow> right ! j < v" and "i \<le> length (right :: 'a::linorder list)"
  shows "matches right v = filter (\<lambda>j. right ! j = v) [i..<length right]"
proof -
  have "[0..<length right] = [0..<i] @ [i..<length right]"
    using assms(2) upt_add_eq_append [of 0 i "length right - i"] by simp
  moreover have "right ! j \<noteq> v" if "j < i" for j
    using assms(1) [OF that] by simp
  then have "filter (\<lambda>j. right ! j = v) [0..<i] = []"
    by (auto simp: filter_empty_conv)
  ultimately show ?thesis by (simp add: matches_def)
qed

lemma run_end:
  assumes "sorted right" and "i < length right" and "right ! i \<noteq> v" and "v \<le> right ! i"
  shows "filter (\<lambda>j. right ! j = v) [i..<length right] = []"
  using assms by (auto simp: filter_empty_conv) (metis order.antisym sorted_nth_mono)

lemma idx_add_in: "unat x + unat y < 2 ^ LENGTH('i) \<Longrightarrow> idx_add x y = Inr (x + y :: 'i::len word)"
  by (simp add: idx_add_def)

lemma unat_add_in: "unat x + unat y < 2 ^ LENGTH('i) \<Longrightarrow> unat (x + y :: 'i::len word) = unat x + unat y"
  by (simp add: unat_add_lem)

lemma idx_add_one_in:
  assumes "unat (i :: 'i::len word) < n" and "n < 2 ^ LENGTH('i)"
  shows "idx_add i 1 = Inr (i + 1)" and "unat (i + 1) = Suc (unat i)"
proof -
  have "unat i + unat (1 :: 'i word) < 2 ^ LENGTH('i)" using assms by simp
  then show "idx_add i 1 = Inr (i + 1)" "unat (i + 1) = Suc (unat i)"
    by (simp_all only: idx_add_in unat_add_in) simp
qed

lemma push_run_eq:
  fixes i :: "'i::len word"
  assumes "sorted right" and "unat i < length right" and "right ! unat i = v"
    and "length right < 2 ^ LENGTH('i)" and "idx_add li off = Inr row"
  shows "push_run right v li off i out =
    (let ms = filter (\<lambda>j. right ! j = v) [Suc (unat i)..<length right]
     in Inr (fst out @ replicate (length ms) row, snd out @ map of_nat ms))"
  using assms
proof (induction right v li off i out rule: push_run.induct)
  case (1 right v li off i out)
  note step = idx_add_one_in [OF "1.prems"(2,4)]
  show ?case
  proof (cases "Suc (unat i) < length right \<and> right ! Suc (unat i) = v")
    case True
    then have "[Suc (unat i)..<length right] = Suc (unat i) # [Suc (Suc (unat i))..<length right]"
      by (simp add: upt_conv_Cons)
    moreover have "push_run right v li off (i + 1) (fst out @ [row], snd out @ [i + 1]) =
        (let ms = filter (\<lambda>j. right ! j = v) [Suc (unat (i + 1))..<length right]
         in Inr (fst (fst out @ [row], snd out @ [i + 1]) @ replicate (length ms) row,
           snd (fst out @ [row], snd out @ [i + 1]) @ map of_nat ms))"
      by (rule "1.IH") (use True step "1.prems" in auto)
    moreover have "i + 1 = of_nat (Suc (unat i))" by simp
    ultimately show ?thesis
      using True "1.prems"(5) step by (subst push_run.simps) (simp add: Let_def del: of_nat_Suc)
  next
    case False
    have "filter (\<lambda>j. right ! j = v) [Suc (unat i)..<length right] = []"
    proof (cases "Suc (unat i) < length right")
      case True
      moreover have "v \<le> right ! Suc (unat i)"
        using "1.prems" True sorted_nth_mono [of right "unat i" "Suc (unat i)"] by auto
      ultimately show ?thesis using False "1.prems"(1) run_end by blast
    qed simp
    with False step show ?thesis by (subst push_run.simps) auto
  qed
qed

lemma push_run_left_eq:
  "push_run_left right v li off i (a, c @ map nullable_of_idx b)
     = rbind (push_run right v li off i (a, b)) (\<lambda>out. Inr (fst out, c @ map nullable_of_idx (snd out)))"
proof (induction right v li off i "(a, b)" arbitrary: a b rule: push_run.induct)
  case (1 right v li off i)
  show ?case
  proof (cases "idx_add i 1")
    case (Inr i')
    have "push_run_left right v li off i' (a @ [row], c @ map nullable_of_idx b @ [nullable_of_idx i'])
        = rbind (push_run right v li off i' (a @ [row], b @ [i'])) (\<lambda>out. Inr (fst out, c @ map nullable_of_idx (snd out)))"
      if "unat i' < length right \<and> right ! unat i' = v" "idx_add li off = Inr row" for row
      using 1 [OF Inr that(1) that(2)] by simp
    with Inr show ?thesis
      by (subst push_run_left.simps, subst push_run.simps) (cases "idx_add li off"; simp)
  qed (subst push_run_left.simps, subst push_run.simps, simp)
qed

lemma matches_run:
  assumes "sorted right" and "\<And>j. j < i \<Longrightarrow> right ! j < v" and "i < length right" and "right ! i = v"
  shows "matches right v = i # filter (\<lambda>j. right ! j = v) [Suc i..<length right]"
  using assms matches_from [of i right v] by (simp add: upt_conv_Cons)

lemma matches_none:
  assumes "sorted right" and "\<And>j. j < i \<Longrightarrow> right ! j < v" and "i \<le> length right"
    and "i < length right \<Longrightarrow> v < right ! i"
  shows "matches right v = []"
proof (cases "i < length right")
  case True
  with assms(4) have "right ! i \<noteq> v" "v \<le> right ! i" by auto
  with True assms(1-3) show ?thesis using matches_from [of i right v] run_end [of right i v] by simp
qed (use assms(2,3) matches_from [of i right v] in simp)

lemma inner_scan_eq:
  fixes i :: "'i::len word"
  assumes "sorted right" and "\<And>j. j < unat i \<Longrightarrow> right ! j < v" and "unat i \<le> length right"
    and "length right < 2 ^ LENGTH('i)" and "idx_add li off = Inr row"
  shows "\<exists>i'. inner_scan right v li off i out
      = Inr (i', fst out @ replicate (length (matches right v)) row, snd out @ map of_nat (matches right v)) \<and>
    unat i' \<le> length right \<and> (\<forall>j < unat i'. right ! j < v)"
  using assms
proof (induction right v li off i out rule: inner_scan.induct)
  case (1 right v li off i out)
  consider "unat i < length right" "right ! unat i = v" | "unat i < length right" "v < right ! unat i"
    | "unat i < length right" "right ! unat i < v" | "unat i = length right"
    using "1.prems"(3) by force
  then show ?case
  proof cases
    case 1
    then show ?thesis
      using "1.prems" push_run_eq [of right i v li off row "(fst out @ [row], snd out @ [i])"]
        matches_run [of right "unat i" v]
      by (subst inner_scan.simps) (simp add: Let_def)
  next
    case 2
    then show ?thesis
      using "1.prems" matches_none [of right "unat i" v]
      by (subst inner_scan.simps) (auto simp: Let_def)
  next
    case 3
    note step = idx_add_one_in [OF 3(1) "1.prems"(4)]
    have "\<forall>j < unat (i + 1). right ! j < v" using "1.prems"(2) 3 step by (auto simp: less_Suc_eq)
    moreover have "inner_scan right v li off i out = inner_scan right v li off (i + 1) out"
      using 3 step by (subst inner_scan.simps) (auto simp: Let_def)
    moreover have "v \<noteq> right ! unat i" "\<not> v < right ! unat i" using 3(2) by auto
    ultimately show ?thesis
      using "1.IH" [OF 3(1) refl _ _ step(1)] "1.prems"(1,4,5) 3(1) step(2) by simp
  next
    case 4
    then show ?thesis
      using "1.prems" matches_none [of right "unat i" v]
      by (subst inner_scan.simps) auto
  qed
qed

text \<open>
  \<open>idx_of_opt\<close> is the nullable row number of an optional right row.
\<close>

definition idx_of_opt :: "nat option \<Rightarrow> 'i::len word nullable_idx_size" where
  "idx_of_opt r = (case r of None \<Rightarrow> null_idx | Some j \<Rightarrow> nullable_of_idx (of_nat j))"

lemma idx_of_opt_simps [simp]:
  "idx_of_opt None = null_idx" "idx_of_opt (Some j) = nullable_of_idx (of_nat j)"
  by (simp_all add: idx_of_opt_def)

lemma left_scan_eq:
  fixes i :: "'i::len word"
  assumes "sorted right" and "\<And>j. j < unat i \<Longrightarrow> right ! j < v" and "unat i \<le> length right"
    and "length right < 2 ^ LENGTH('i)" and "idx_add li off = Inr row"
  shows "\<exists>i'. left_scan right v li off i out
      = Inr (i', fst out @ map (\<lambda>p. row) (left_pairs_of right k v),
          snd out @ map (idx_of_opt \<circ> snd) (left_pairs_of right k v)) \<and>
    unat i' \<le> length right \<and> (\<forall>j < unat i'. right ! j < v)"
  using assms
proof (induction right v li off i out rule: left_scan.induct)
  case (1 right v li off i out)
  consider "unat i < length right" "right ! unat i = v" | "unat i < length right" "v < right ! unat i"
    | "unat i < length right" "right ! unat i < v" | "unat i = length right"
    using "1.prems"(3) by force
  then show ?case
  proof cases
    case 1
    then show ?thesis
      using "1.prems" push_run_eq [of right i v li off row "(fst out @ [row], [i])"]
        push_run_left_eq [of right v li off i "fst out @ [row]" "snd out" "[i]"] matches_run [of right "unat i" v]
      by (subst left_scan.simps) (simp add: Let_def left_pairs_of_def comp_def map_replicate_const)
  next
    case 2
    then show ?thesis
      using "1.prems" matches_none [of right "unat i" v]
      by (subst left_scan.simps) (auto simp: Let_def left_pairs_of_def)
  next
    case 3
    note step = idx_add_one_in [OF 3(1) "1.prems"(4)]
    have "\<forall>j < unat (i + 1). right ! j < v" using "1.prems"(2) 3 step by (auto simp: less_Suc_eq)
    moreover have "left_scan right v li off i out = left_scan right v li off (i + 1) out"
      using 3 step by (subst left_scan.simps) (auto simp: Let_def)
    moreover have "v \<noteq> right ! unat i" "\<not> v < right ! unat i" using 3(2) by auto
    ultimately show ?thesis
      using "1.IH" [OF 3(1) refl _ _ step(1)] "1.prems"(1,4,5) 3(1) step(2) by simp
  next
    case 4
    then show ?thesis
      using "1.prems" matches_none [of right "unat i" v]
      by (subst left_scan.simps) (auto simp: left_pairs_of_def)
  qed
qed

lemma left_idx_step:
  assumes "unat (k :: 'i::len word) + unat off + length (v # vs) < 2 ^ LENGTH('i)"
  shows "idx_add k off = Inr (k + off)" "idx_add k 1 = Inr (k + 1)"
    "unat (k + 1) = Suc (unat k)"
  using assms idx_add_one_in [of k "Suc (unat k)"] by (simp_all add: idx_add_in unat_add_in)

lemma inner_loop_eq:
  fixes i :: "'i::len word"
  assumes "sorted right" and "length right < 2 ^ LENGTH('i)" and "sorted ls" and "unat i \<le> length right"
    and "\<And>j v. j < unat i \<Longrightarrow> v \<in> set ls \<Longrightarrow> right ! j < v"
    and "unat k + unat off + length ls < 2 ^ LENGTH('i)"
  shows "inner_loop right ls k off i out =
    Inr (fst out @ map (of_nat \<circ> fst) (inner_pairs right (unat k + unat off) ls),
         snd out @ map (of_nat \<circ> snd) (inner_pairs right (unat k + unat off) ls))"
  using assms(3-)
proof (induction ls arbitrary: k i out)
  case (Cons v vs)
  note step = left_idx_step [OF Cons.prems(4)]
  obtain i' where i': "inner_scan right v k off i out
      = Inr (i', fst out @ replicate (length (matches right v)) (k + off), snd out @ map of_nat (matches right v))"
    "unat i' \<le> length right" "\<forall>j < unat i'. right ! j < v"
    using inner_scan_eq [OF assms(1) _ _ assms(2) step(1), of i v out] Cons.prems by auto
  have "right ! j < w" if "j < unat i'" "w \<in> set vs" for j w
    using that i'(3) Cons.prems(1) by (fastforce intro: less_le_trans)
  with Cons.IH [of i' "k + 1"] Cons.prems(1,4) i' show ?case
    by (simp add: comp_def map_replicate_const step)
qed simp

lemma left_loop_eq:
  fixes i :: "'i::len word"
  assumes "sorted right" and "length right < 2 ^ LENGTH('i)" and "sorted ls" and "unat i \<le> length right"
    and "\<And>j v. j < unat i \<Longrightarrow> v \<in> set ls \<Longrightarrow> right ! j < v"
    and "unat k + unat off + length ls < 2 ^ LENGTH('i)"
  shows "left_loop right ls k off i out =
    Inr (fst out @ map (of_nat \<circ> fst) (left_pairs right (unat k + unat off) ls),
         snd out @ map (idx_of_opt \<circ> snd) (left_pairs right (unat k + unat off) ls))"
  using assms(3-)
proof (induction ls arbitrary: k i out)
  case (Cons v vs)
  note step = left_idx_step [OF Cons.prems(4)]
  have rows: "fst p = n" if "p \<in> set (left_pairs_of right n v)" for p n
    using that by (auto simp: left_pairs_of_def split: if_splits)
  obtain i' where i': "left_scan right v k off i out = Inr (i', fst out @ map (\<lambda>p. k + off) (left_pairs_of right (unat k + unat off) v),
      snd out @ map (idx_of_opt \<circ> snd) (left_pairs_of right (unat k + unat off) v))"
      "unat i' \<le> length right" "\<forall>j < unat i'. right ! j < v"
    using left_scan_eq [OF assms(1) _ _ assms(2) step(1), of i v out "unat k + unat off"] Cons.prems by auto
  have "right ! j < w" if "j < unat i'" "w \<in> set vs" for j w
    using that i'(3) Cons.prems(1) by (fastforce intro: less_le_trans)
  with Cons.IH [of i' "k + 1"] Cons.prems(1,4) i' show ?case
    by (simp add: step rows)
qed simp

subsection \<open>The kernels list the matching rows\<close>

lemma inner_pairs_append: "inner_pairs right k (xs @ ys) = inner_pairs right k xs @ inner_pairs right (k + length xs) ys"
  by (induction xs arbitrary: k) simp_all

lemma left_pairs_append: "left_pairs right k (xs @ ys) = left_pairs right k xs @ left_pairs right (k + length xs) ys"
  by (induction xs arbitrary: k) simp_all

lemma inner_pairs_none: "(\<And>v. v \<in> set xs \<Longrightarrow> matches right v = []) \<Longrightarrow> inner_pairs right k xs = []"
  by (induction xs arbitrary: k) simp_all

lemma left_pairs_none:
  "(\<And>v. v \<in> set xs \<Longrightarrow> matches right v = []) \<Longrightarrow>
   left_pairs right k xs = map (\<lambda>i. (i, None)) [k..<k + length xs]"
proof (induction xs arbitrary: k)
  case (Cons v vs)
  have "[k..<k + length (v # vs)] = k # [Suc k..<Suc k + length vs]"
    by (simp add: upt_conv_Cons del: upt_Suc)
  with Cons show ?case by (simp add: left_pairs_of_def del: upt_Suc)
qed simp

lemma before_first_right:
  assumes "sorted right" and "right \<noteq> []" and "v \<in> set (takeWhile (\<lambda>v. v < right ! 0) left)"
  shows "matches right v = []"
  using assms matches_none [of right 0 v] by (auto dest: set_takeWhileD)

lemma take_drop_partition:
  "take (partition_point P xs) xs = takeWhile P xs" "drop (partition_point P xs) xs = dropWhile P xs"
  "partition_point P xs = length (takeWhile P xs)"
  by (simp_all add: partition_point_def takeWhile_eq_take [symmetric] dropWhile_eq_drop [symmetric])


lemma partition_bound: "partition_point P xs \<le> length xs"
  by (simp add: partition_point_def length_takeWhile_le)

lemma partition_idx:
  "length xs < 2 ^ LENGTH('i) \<Longrightarrow> unat (of_nat (partition_point P xs) :: 'i::len word) = partition_point P xs"
  using partition_bound [of P xs] by (simp add: unat_of_nat take_bit_nat_eq_self)

lemma dropWhile_length: "partition_point P xs + length (dropWhile P xs) = length xs"
  by (simp add: partition_point_def flip: length_append)

lemma inner_join_pairs:
  fixes off :: "'i::len word"
  assumes "sorted left" and "sorted right" and "unat off + length left < 2 ^ LENGTH('i)"
    and "length right < 2 ^ LENGTH('i)"
  shows "inner_join_sorted left right off
    = Inr (map (of_nat \<circ> fst) (inner_pairs right (unat off) left), map (of_nat \<circ> snd) (inner_pairs right (unat off) left))"
proof (cases "left = [] \<or> right = []")
  case True
  then show ?thesis
    by (cases "left = []") (simp_all add: inner_join_sorted_def inner_pairs_none matches_def)
next
  case False
  let ?P = "\<lambda>v. v < right ! 0"
  let ?k = "of_nat (partition_point ?P left) :: 'i word"
  let ?out = "([], []) :: 'i word list \<times> 'i word list"
  have k: "unat ?k = partition_point ?P left" using assms(3) by (simp add: partition_idx)
  have "inner_pairs right (unat off) left = inner_pairs right (unat off) (takeWhile ?P left @ dropWhile ?P left)" by simp
  also have "\<dots> = inner_pairs right (unat off + length (takeWhile ?P left)) (dropWhile ?P left)"
    using before_first_right [OF assms(2)] False
    by (simp only: inner_pairs_append) (simp add: inner_pairs_none)
  finally have "inner_pairs right (unat off) left = inner_pairs right (unat ?k + unat off) (dropWhile ?P left)"
    by (simp only: k) (simp add: take_drop_partition(3) add.commute)
  moreover have "inner_loop right (dropWhile ?P left) ?k off 0 ?out =
      Inr (fst ?out @ map (of_nat \<circ> fst) (inner_pairs right (unat ?k + unat off) (dropWhile ?P left)),
        snd ?out @ map (of_nat \<circ> snd) (inner_pairs right (unat ?k + unat off) (dropWhile ?P left)))"
    by (rule inner_loop_eq)
      (use assms dropWhile_length [of ?P left] in \<open>simp_all add: sorted_dropWhile k\<close>)
  ultimately show ?thesis
    using False by (simp add: inner_join_sorted_def Let_def k take_drop_partition(2))
qed

lemma idx_range_rows:
  fixes off :: "'i::len word"
  assumes "unat n + unat off < 2 ^ LENGTH('i)"
  shows "idx_range off (n + off) = map of_nat [unat off..<unat n + unat off]"
  using assms by (simp add: idx_range_def unat_add_in)

lemma left_join_pairs:
  fixes off :: "'i::len word"
  assumes "sorted left" and "sorted right" and "unat off + length left < 2 ^ LENGTH('i)"
    and "length right < 2 ^ LENGTH('i)"
  shows "left_join_sorted left right off
    = Inr (map (of_nat \<circ> fst) (left_pairs right (unat off) left), map (idx_of_opt \<circ> snd) (left_pairs right (unat off) left))"
proof -
  consider "left = []" | "left \<noteq> []" "right = []" | "left \<noteq> []" "right \<noteq> []" by blast
  then show ?thesis
  proof cases
    case 2
    let ?n = "of_nat (length left) :: 'i word"
    have n: "unat ?n = length left" using assms(3) by (simp add: unat_of_nat take_bit_nat_eq_self)
    then have sum: "unat ?n + unat off < 2 ^ LENGTH('i)" using assms(3) by simp
    have "left_pairs right (unat off) left = map (\<lambda>i. (i, None)) [unat off..<unat ?n + unat off]"
      using left_pairs_none [of left right "unat off"] 2 by (simp only: n) (simp add: matches_def add.commute)
    with 2 n show ?thesis
      by (simp add: left_join_sorted_def idx_add_in [OF sum] idx_range_rows [OF sum] comp_def map_replicate_const)
  next
    case 3
    let ?P = "\<lambda>v. v < right ! 0"
    let ?k = "of_nat (partition_point ?P left) :: 'i word"
    have k: "unat ?k = partition_point ?P left" using assms(3) by (simp add: partition_idx)
    have sum: "unat ?k + unat off < 2 ^ LENGTH('i)"
      using assms(3) partition_bound [of ?P left] k by linarith
    have "left_pairs right (unat off) left = left_pairs right (unat off) (takeWhile ?P left @ dropWhile ?P left)" by simp
    also have "\<dots> = map (\<lambda>i. (i, None)) [unat off..<unat off + length (takeWhile ?P left)]
        @ left_pairs right (unat off + length (takeWhile ?P left)) (dropWhile ?P left)"
      using before_first_right [OF assms(2) 3(2)]
      by (simp only: left_pairs_append) (simp add: left_pairs_none)
    finally have pairs: "left_pairs right (unat off) left = map (\<lambda>i. (i, None)) [unat off..<unat ?k + unat off]
        @ left_pairs right (unat ?k + unat off) (dropWhile ?P left)"
      by (simp only: k) (simp add: take_drop_partition(3) add.commute)
    let ?out = "(map of_nat [unat off..<unat ?k + unat off], replicate (unat ?k) null_idx)
      :: 'i word list \<times> 'i word nullable_idx_size list"
    have "left_loop right (dropWhile ?P left) ?k off 0 ?out =
      Inr (fst ?out @ map (of_nat \<circ> fst) (left_pairs right (unat ?k + unat off) (dropWhile ?P left)),
        snd ?out @ map (idx_of_opt \<circ> snd) (left_pairs right (unat ?k + unat off) (dropWhile ?P left)))"
      by (rule left_loop_eq)
        (use assms dropWhile_length [of ?P left] in \<open>simp_all add: sorted_dropWhile k\<close>)
    then show ?thesis
      using 3 by (simp add: left_join_sorted_def Let_def idx_add_in [OF sum] idx_range_rows [OF sum] pairs
          k take_drop_partition(2) comp_def map_replicate_const)
  qed (simp add: left_join_sorted_def)
qed

lemma enumerate_upt: "enumerate 0 xs = map (\<lambda>i. (i, xs ! i)) [0..<length xs]"
  by (intro nth_equalityI) (simp_all add: nth_enumerate_eq)

lemma inner_pairs_comprehension:
  "inner_pairs right off left
     = concat (map (\<lambda>i. map (Pair (off + i)) (filter (\<lambda>j. right ! j = left ! i) [0..<length right])) [0..<length left])"
  by (simp add: inner_pairs_def enumerate_upt matches_def comp_def)

lemma left_pairs_comprehension:
  "left_pairs right off left = concat (map (\<lambda>i. left_pairs_of right (off + i) (left ! i)) [0..<length left])"
  by (simp add: left_pairs_def enumerate_upt comp_def)

subsection \<open>Row numbers that fit\<close>

lemma inner_pairs_bounds:
  "p \<in> set (inner_pairs right off left) \<Longrightarrow> fst p < off + length left \<and> snd p < length right"
  by (auto simp: inner_pairs_comprehension)

lemma left_pairs_bounds:
  "p \<in> set (left_pairs right off left) \<Longrightarrow>
   fst p < off + length left \<and> (\<forall>j. snd p = Some j \<longrightarrow> j < length right)"
  by (auto simp: left_pairs_comprehension left_pairs_of_def matches_def split: if_splits)

lemma unat_of_nat_map:
  "(\<And>p. p \<in> set ps \<Longrightarrow> f p < 2 ^ LENGTH('i)) \<Longrightarrow>
   map unat (map ((of_nat :: nat \<Rightarrow> 'i::len word) \<circ> f) ps) = map f ps"
  by (simp add: unat_of_nat take_bit_nat_eq_self)

lemma idx_to_opt_of_opt:
  assumes "\<And>j. r = Some j \<Longrightarrow> Suc j < 2 ^ LENGTH('i)"
  shows "map_option unat (idx_to_opt (idx_of_opt r :: 'i::len word nullable_idx_size)) = r"
proof (cases r)
  case (Some j)
  have "unat (of_nat j :: 'i word) = j" using assms [OF Some] by (simp add: unat_of_nat take_bit_nat_eq_self)
  moreover have "unat (- 1 :: 'i word) = 2 ^ LENGTH('i) - 1" by (simp add: unsigned_minus_1_eq_mask mask_eq_exp_minus_1)
  ultimately have "(of_nat j :: 'i word) \<noteq> - 1" using assms [OF Some] by force
  with Some \<open>unat (of_nat j :: 'i word) = j\<close> show ?thesis
    by (simp add: idx_to_opt_def is_null_idx_def nullable_of_idx_def)
qed (simp add: idx_to_opt_def is_null_idx_def null_idx_def)

subsection \<open>Properties\<close>

text \<open>
  C6. On sorted keys the inner join kernel returns two columns of equal length that list,
  for each left row in order and each right row in order, exactly the pairs of rows with
  equal keys, the left row shifted by the offset of its chunk. This holds for any width of the
  row numbers as long as the offset plus the number of left rows, and the number of
  right rows, are below the range of the width; then no sum of row numbers overflows.
\<close>

theorem inner_join_sorted_correct:
  fixes off :: "'i::len word"
  assumes "sorted left" and "sorted right" and "unat off + length left < 2 ^ LENGTH('i)"
    and "length right < 2 ^ LENGTH('i)"
  shows "\<exists>ls rs. inner_join_sorted left right off = Inr (ls, rs) \<and> length ls = length rs \<and>
    zip (map unat ls) (map unat rs)
      = concat (map (\<lambda>i. map (Pair (unat off + i)) (filter (\<lambda>j. right ! j = left ! i) [0..<length right]))
          [0..<length left])"
proof -
  let ?ps = "inner_pairs right (unat off) left"
  have rows: "map unat (map ((of_nat :: nat \<Rightarrow> 'i word) \<circ> fst) ?ps) = map fst ?ps"
    "map unat (map ((of_nat :: nat \<Rightarrow> 'i word) \<circ> snd) ?ps) = map snd ?ps"
    using assms(3,4) by (intro unat_of_nat_map; fastforce dest: inner_pairs_bounds)+
  show ?thesis
    unfolding inner_join_pairs [OF assms] inner_pairs_comprehension [symmetric]
    by (intro exI conjI, rule refl) (simp_all only: rows length_map zip_map_fst_snd)
qed

theorem inner_join_sorted_correct_witness:
  "\<exists>ls rs. inner_join_sorted [1, 1, 2 :: nat] [0, 1, 1] (5 :: u32) = Inr (ls, rs) \<and>
    zip (map unat ls) (map unat rs) = [(5, 1), (5, 2), (6, 1), (6, 2)]"
  using inner_join_sorted_correct [of "[1, 1, 2 :: nat]" "[0, 1, 1]" "5 :: u32"]
  by (auto simp: upt_conv_Cons)

text \<open>
  C7. On sorted keys the left join kernel lists every left row in order: with each of its
  matching right rows in order, or once with the reserved row number that reads as a missing
  row when no key matches. The bounds on the row numbers are those of the inner join;
  they also keep every right row number apart from the reserved one.
\<close>

theorem left_join_sorted_correct:
  fixes off :: "'i::len word"
  assumes "sorted left" and "sorted right" and "unat off + length left < 2 ^ LENGTH('i)"
    and "length right < 2 ^ LENGTH('i)"
  shows "\<exists>ls rs. left_join_sorted left right off = Inr (ls, rs) \<and> length ls = length rs \<and>
    zip (map unat ls) (map (map_option unat \<circ> idx_to_opt) rs)
      = concat (map (\<lambda>i. left_pairs_of right (unat off + i) (left ! i)) [0..<length left])"
proof -
  let ?ps = "left_pairs right (unat off) left"
  have left_rows: "map unat (map ((of_nat :: nat \<Rightarrow> 'i word) \<circ> fst) ?ps) = map fst ?ps"
    using assms(3) by (intro unat_of_nat_map) (fastforce dest: left_pairs_bounds)
  have right_rows: "map (map_option unat \<circ> idx_to_opt) (map ((idx_of_opt :: _ \<Rightarrow> 'i word nullable_idx_size) \<circ> snd) ?ps)
      = map snd ?ps"
    using assms(4) by (auto intro!: idx_to_opt_of_opt dest!: left_pairs_bounds)
  show ?thesis
    unfolding left_join_pairs [OF assms] left_pairs_comprehension [symmetric]
    by (intro exI conjI, rule refl) (simp_all only: left_rows right_rows length_map zip_map_fst_snd)
qed

theorem left_join_sorted_correct_witness:
  "\<exists>ls rs. left_join_sorted [0, 1, 3 :: nat] [1, 1, 2] (0 :: u32) = Inr (ls, rs) \<and>
    zip (map unat ls) (map (map_option unat \<circ> idx_to_opt) rs) = [(0, None), (1, Some 0), (1, Some 1), (2, None)]"
  using left_join_sorted_correct [of "[0, 1, 3 :: nat]" "[1, 1, 2]" "0 :: u32"]
  by (auto simp: upt_conv_Cons left_pairs_of_def matches_def)

text \<open>
  The bound on the left rows is needed: with the largest offset the second row number overflows.
\<close>

lemma inner_join_offset_overflow: "inner_join_sorted [1, 1 :: nat] [1] (- 1 :: u32) = Inl Panic"
  by (simp add: inner_join_sorted_def partition_point_def inner_scan.simps push_run.simps idx_add_def
      unsigned_minus_1_eq_mask mask_eq_exp_minus_1)

end
