(* ===== verification/AsofJoin.thy ===== *)
theory AsofJoin
  imports PrimArray ImmBitmap
begin

section \<open>As-of joins\<close>

text \<open>
  The as-of join of \<^verbatim>\<open>crates/polars-ops/src/frame/join/asof/\<close>: the search states of
  \<^verbatim>\<open>mod.rs\<close>, which move forward over the right keys as the left keys grow, and the driver
  and its entry points of \<^verbatim>\<open>default.rs\<close>. Keys may be null on both sides. The forward and
  backward searches work on any linear order, the nearest search on integers, whose
  absolute difference is exact. The interface \<open>asof_state\<close> says what the driver relies on;
  each search interprets it, so the correctness of the driver is proved once.
\<close>

subsection \<open>Model\<close>

datatype asof_strategy = Backward | Forward | Nearest

type_synonym 'a reader = "nat \<Rightarrow> 'a option res"

function asof_forward_next :: "nat \<Rightarrow> 'a::linorder \<Rightarrow> 'a reader \<Rightarrow> nat \<Rightarrow> (nat option \<times> nat) res" where
  "asof_forward_next scan_offset left_val right n_right =
     (if scan_offset < n_right
      then rbind (right scan_offset) (\<lambda>v.
        case v of
          Some right_val \<Rightarrow>
            if right_val \<ge> left_val then Inr (Some scan_offset, scan_offset)
            else asof_forward_next (scan_offset + 1) left_val right n_right
        | None \<Rightarrow> asof_forward_next (scan_offset + 1) left_val right n_right)
      else Inr (None, scan_offset))"
  by auto
termination
  by (relation "measure (\<lambda>(s, l, r, n). n - s)") auto

type_synonym bound_state = "nat option \<times> nat"

function asof_backward_next ::
    "bound_state \<Rightarrow> 'a::linorder \<Rightarrow> 'a reader \<Rightarrow> nat \<Rightarrow> (nat option \<times> bound_state) res" where
  "asof_backward_next (best_bound, scan_offset) left_val right n_right =
     (if scan_offset < n_right
      then rbind (right scan_offset) (\<lambda>v.
        case v of
          Some right_val \<Rightarrow>
            if right_val \<le> left_val
            then asof_backward_next (Some scan_offset, scan_offset + 1) left_val right n_right
            else Inr (best_bound, best_bound, scan_offset)
        | None \<Rightarrow> asof_backward_next (best_bound, scan_offset + 1) left_val right n_right)
      else Inr (best_bound, best_bound, scan_offset))"
  by pat_completeness auto
termination
  by (relation "measure (\<lambda>(s, l, r, n). n - snd s)") auto

definition abs_diff :: "int \<Rightarrow> int \<Rightarrow> int" where
  "abs_diff x y = (if x > y then x - y else y - x)"

function nearest_run :: "int \<Rightarrow> int reader \<Rightarrow> nat \<Rightarrow> bound_state \<Rightarrow> bound_state res" where
  "nearest_run scan_right_val right n_right (best_bound, scan_offset) =
     (if scan_offset < n_right
      then rbind (right scan_offset) (\<lambda>v.
        case v of
          Some next_right_val \<Rightarrow>
            if next_right_val = scan_right_val
            then nearest_run scan_right_val right n_right (Some scan_offset, scan_offset + 1)
            else Inr (best_bound, scan_offset)
        | None \<Rightarrow> nearest_run scan_right_val right n_right (best_bound, scan_offset + 1))
      else Inr (best_bound, scan_offset))"
  by pat_completeness auto
termination
  by (relation "measure (\<lambda>(v, r, n, s). n - snd s)") auto

definition scan_is_better :: "int \<Rightarrow> int \<Rightarrow> int reader \<Rightarrow> nat option \<Rightarrow> bool res" where
  "scan_is_better left_val scan_right_val right best_bound =
     (case best_bound of
        Some best_idx \<Rightarrow>
          rbind (right best_idx) (\<lambda>v.
          case v of
            Some best_right_val \<Rightarrow> Inr (abs_diff left_val scan_right_val \<le> abs_diff left_val best_right_val)
          | None \<Rightarrow> Inl UB)
      | None \<Rightarrow> Inr True)"

function asof_nearest_next ::
    "bound_state \<Rightarrow> int \<Rightarrow> int reader \<Rightarrow> nat \<Rightarrow> (nat option \<times> bound_state) res" where
  "asof_nearest_next (best_bound, scan_offset) left_val right n_right =
     (if scan_offset < n_right
      then rbind (right scan_offset) (\<lambda>v.
        case v of
          Some scan_right_val \<Rightarrow>
            if scan_right_val \<le> left_val
            then asof_nearest_next (Some scan_offset, scan_offset + 1) left_val right n_right
            else
              rbind (scan_is_better left_val scan_right_val right best_bound) (\<lambda>better.
              if better
              then rbind (nearest_run scan_right_val right n_right (Some scan_offset, scan_offset + 1))
                     (\<lambda>s. Inr (fst s, s))
              else Inr (best_bound, best_bound, scan_offset))
        | None \<Rightarrow> asof_nearest_next (best_bound, scan_offset + 1) left_val right n_right)
      else Inr (best_bound, best_bound, scan_offset))"
  by pat_completeness auto
termination
  by (relation "measure (\<lambda>(s, l, r, n). n - snd s)") auto

declare asof_forward_next.simps [simp del] asof_backward_next.simps [simp del]
  nearest_run.simps [simp del] asof_nearest_next.simps [simp del]

definition null_count :: "'a parr \<Rightarrow> nat" where
  "null_count a = (case pa_validity a of None \<Rightarrow> 0 | Some m \<Rightarrow> zeros m)"

definition value_unchecked :: "'a parr \<Rightarrow> nat \<Rightarrow> 'a res" where
  "value_unchecked a i = (if i < pa_len a then Inr (pa_values a ! i) else Inl UB)"

definition get_unchecked :: "'a parr \<Rightarrow> 'a reader" where
  "get_unchecked a i = (if i < pa_len a then Inr (pa_opt a ! i) else Inl UB)"

definition set_mask :: "bytes \<Rightarrow> nat \<Rightarrow> bool \<Rightarrow> bytes res" where
  "set_mask m i b =
     assert_that (i div 8 < length m)
       (Inr (m[i div 8 := (m ! (i div 8)) OR push_bit (i mod 8) (of_bool b)]))"

fun asof_loop ::
    "('s \<Rightarrow> 'a \<Rightarrow> 'a reader \<Rightarrow> nat \<Rightarrow> (nat option \<times> 's) res) \<Rightarrow> 'a reader \<Rightarrow> 'a parr \<Rightarrow> ('a \<Rightarrow> 'a \<Rightarrow> bool) \<Rightarrow>
     nat \<Rightarrow> 'a option list \<Rightarrow> 's \<Rightarrow> nat list \<Rightarrow> bytes \<Rightarrow> (nat list \<times> bytes) res" where
  "asof_loop next_fn reader right flt i [] s out m = Inr (out, m)"
| "asof_loop next_fn reader right flt i (None # ls) s out m =
     asof_loop next_fn reader right flt (i + 1) ls s out m"
| "asof_loop next_fn reader right flt i (Some val_l # ls) s out m =
     rbind (next_fn s val_l reader (pa_len right)) (\<lambda>(r, s').
     case r of
       Some r_idx \<Rightarrow>
         rbind (value_unchecked right r_idx) (\<lambda>val_r.
         rbind (set_mask m i (flt val_l val_r)) (\<lambda>m'.
         asof_loop next_fn reader right flt (i + 1) ls s' (out[i := r_idx]) m'))
     | None \<Rightarrow> asof_loop next_fn reader right flt (i + 1) ls s' out m)"

definition join_asof_impl ::
    "('s \<Rightarrow> 'a \<Rightarrow> 'a reader \<Rightarrow> nat \<Rightarrow> (nat option \<times> 's) res) \<Rightarrow> 's \<Rightarrow> 'a parr \<Rightarrow> 'a parr \<Rightarrow>
     ('a \<Rightarrow> 'a \<Rightarrow> bool) \<Rightarrow> nat parr res" where
  "join_asof_impl next_fn s0 left right flt =
     (if pa_len left = null_count left \<or> pa_len right = null_count right
      then Inr (new_null 0 (pa_len left))
      else
        (let out = replicate (pa_len left) 0;
             m = replicate ((pa_len left + 7) div 8) 0
         in rbind
              (if null_count left = 0 \<and> null_count right = 0
               then asof_loop next_fn (\<lambda>j. rbind (value_unchecked right j) (\<lambda>v. Inr (Some v))) right flt 0
                      (map Some (pa_values left)) s0 out m
               else asof_loop next_fn (get_unchecked right) right flt 0 (pa_opt left) s0 out m)
              (\<lambda>(out', m').
               rbind (case bm_try_new m' (length out') of Inl e \<Rightarrow> Inl Panic | Inr b \<Rightarrow> Inr b) (\<lambda>b.
               Inr \<lparr>pa_values = out', pa_validity = Some (bm_bits b), pa_owned = True\<rparr>))))"

definition join_asof_forward :: "'a::linorder parr \<Rightarrow> 'a parr \<Rightarrow> ('a \<Rightarrow> 'a \<Rightarrow> bool) \<Rightarrow> nat parr res" where
  "join_asof_forward left right flt = join_asof_impl asof_forward_next 0 left right flt"

definition join_asof_backward :: "'a::linorder parr \<Rightarrow> 'a parr \<Rightarrow> ('a \<Rightarrow> 'a \<Rightarrow> bool) \<Rightarrow> nat parr res" where
  "join_asof_backward left right flt = join_asof_impl asof_backward_next (None, 0) left right flt"

definition join_asof_nearest :: "int parr \<Rightarrow> int parr \<Rightarrow> (int \<Rightarrow> int \<Rightarrow> bool) \<Rightarrow> nat parr res" where
  "join_asof_nearest left right flt = join_asof_impl asof_nearest_next (None, 0) left right flt"

definition join_asof_numeric :: "int parr \<Rightarrow> int parr \<Rightarrow> asof_strategy \<Rightarrow> int option \<Rightarrow> nat parr res" where
  "join_asof_numeric left right strategy tolerance =
     (let flt = (case tolerance of
          Some t \<Rightarrow> (let abs_tolerance = abs_diff t 0 in (\<lambda>l r. abs_diff l r \<le> abs_tolerance))
        | None \<Rightarrow> (\<lambda>_ _. True))
      in case strategy of
           Forward \<Rightarrow> join_asof_forward left right flt
         | Backward \<Rightarrow> join_asof_backward left right flt
         | Nearest \<Rightarrow> join_asof_nearest left right flt)"

definition join_asof :: "'a::linorder parr \<Rightarrow> 'a parr \<Rightarrow> asof_strategy \<Rightarrow> nat parr res" where
  "join_asof left right strategy =
     (case strategy of
        Forward \<Rightarrow> join_asof_impl asof_forward_next 0 left right (\<lambda>_ _. True)
      | Backward \<Rightarrow> join_asof_impl asof_backward_next (None, 0) left right (\<lambda>_ _. True)
      | Nearest \<Rightarrow> Inl Panic)"

subsection \<open>What a search promises, and the driver\<close>

definition key_at :: "'a option list \<Rightarrow> nat \<Rightarrow> 'a option" where
  "key_at right j = (if j < length right then right ! j else None)"

definition sorted_keys :: "'a::linorder option list \<Rightarrow> bool" where
  "sorted_keys ks \<longleftrightarrow> (\<forall>i j a b. i < j \<longrightarrow> key_at ks i = Some a \<longrightarrow> key_at ks j = Some b \<longrightarrow> a \<le> b)"

definition list_reader :: "'a option list \<Rightarrow> 'a reader" where
  "list_reader ks i = (if i < length ks then Inr (ks ! i) else Inl UB)"

definition join_row :: "('a \<Rightarrow> nat option) \<Rightarrow> 'a option list \<Rightarrow> ('a \<Rightarrow> 'a \<Rightarrow> bool) \<Rightarrow> 'a option \<Rightarrow> nat option" where
  "join_row spec right flt l =
     (case l of None \<Rightarrow> None
      | Some lv \<Rightarrow> (case spec lv of None \<Rightarrow> None
          | Some j \<Rightarrow> (case key_at right j of None \<Rightarrow> None
              | Some rv \<Rightarrow> if flt lv rv then Some j else None)))"

fun non_null :: "'a option list \<Rightarrow> 'a list" where
  "non_null [] = []"
| "non_null (None # ks) = non_null ks"
| "non_null (Some k # ks) = k # non_null ks"

lemma in_non_null: "k \<in> set (non_null ks) \<longleftrightarrow> Some k \<in> set ks"
  by (induction ks rule: non_null.induct) auto

lemma key_at_mem: "key_at ks j = Some k \<Longrightarrow> Some k \<in> set ks"
  by (auto simp: key_at_def split: if_splits) (metis nth_mem)

lemma key_at_Cons: "key_at (x # ks) j = (case j of 0 \<Rightarrow> x | Suc j' \<Rightarrow> key_at ks j')"
  by (simp add: key_at_def split: nat.split)

lemma sorted_keysI: "sorted (non_null ks) \<Longrightarrow> sorted_keys ks"
proof (induction ks rule: non_null.induct)
  case (2 ks)
  then show ?case
    by (fastforce simp: sorted_keys_def key_at_Cons split: nat.splits)
next
  case (3 k ks)
  then show ?case
    by (fastforce simp: sorted_keys_def key_at_Cons in_non_null dest: key_at_mem split: nat.splits)
qed (simp add: sorted_keys_def key_at_def)

lemma sorted_keysD:
  "sorted_keys ks \<Longrightarrow> i \<le> j \<Longrightarrow> key_at ks i = Some a \<Longrightarrow> key_at ks j = Some b \<Longrightarrow> a \<le> b"
  unfolding sorted_keys_def by (metis le_neq_implies_less option.inject order_refl)

definition cell :: "nat list \<Rightarrow> bytes \<Rightarrow> nat \<Rightarrow> nat option" where
  "cell out m j = (if bits_of m ! j then Some (out ! j) else None)"

lemma set_mask_ok:
  assumes "i < 8 * length m" and "\<not> bits_of m ! i"
  shows "\<exists>m'. set_mask m i b = Inr m' \<and> length m' = length m \<and> bits_of m' = (bits_of m)[i := b]"
proof -
  have i8: "i div 8 < length m" using assms(1) by (simp add: less_mult_imp_div_less mult.commute)
  let ?m = "m[i div 8 := (m ! (i div 8)) OR push_bit (i mod 8) (of_bool b)]"
  have "bits_of ?m = (bits_of m)[i := b]"
  proof (rule nth_equalityI)
    fix j assume "j < length (bits_of ?m)"
    moreover have "j = i \<longleftrightarrow> j div 8 = i div 8 \<and> j mod 8 = i mod 8" by (metis mult_div_mod_eq)
    ultimately show "bits_of ?m ! j = (bits_of m)[i := b] ! j"
      using assms i8
      by (cases b) (auto simp: bits_of_nth nth_list_update bit_or_iff push_bit_of_1 bit_exp_iff)
  qed simp
  with i8 show ?thesis by (simp add: set_mask_def)
qed

lemma key_at_pa_opt:
  assumes "pa_inv a" and "key_at (pa_opt a) j = Some r"
  shows "pa_values a ! j = r"
  using assms by (auto simp: key_at_def pa_opt_nth split: if_splits)

lemma null_count_zero: "pa_inv a \<Longrightarrow> null_count a = 0 \<Longrightarrow> pa_opt a = map Some (pa_values a)"
  by (intro nth_equalityI)
    (auto simp: pa_opt_nth null_count_def zeros_def filter_empty_conv pa_inv_def pa_len_def
      split: option.splits dest: nth_mem)

lemma zeros_all: "zeros xs = length xs \<Longrightarrow> xs = replicate (length xs) False"
proof (induction xs)
  case (Cons x xs)
  then show ?case using zeros_le [of xs] by (cases x) (simp_all add: zeros_def)
qed simp

lemma null_count_all: "pa_inv a \<Longrightarrow> pa_len a = null_count a \<Longrightarrow> pa_opt a = replicate (pa_len a) None"
proof (cases "pa_validity a")
  case (Some m)
  assume "pa_inv a" "pa_len a = null_count a"
  with Some have "m = replicate (pa_len a) False"
    using zeros_all [of m] by (simp add: pa_inv_def null_count_def)
  with Some \<open>pa_inv a\<close> show ?thesis by (intro nth_equalityI) (auto simp: pa_opt_nth)
qed (simp add: null_count_def pa_opt_def mask_opt_def pa_len_def)

lemma new_null_opt [simp]: "pa_opt (new_null d n) = replicate n None" "pa_len (new_null d n) = n"
  by (auto simp: new_null_def pa_opt_def mask_opt_def pa_len_def intro: nth_equalityI)

locale asof_state =
  fixes next_fn :: "'s \<Rightarrow> 'a::linorder \<Rightarrow> 'a reader \<Rightarrow> nat \<Rightarrow> (nat option \<times> 's) res"
    and s0 :: 's
    and spec :: "'a option list \<Rightarrow> 'a \<Rightarrow> nat option"
    and inv :: "'a option list \<Rightarrow> 'a \<Rightarrow> 's \<Rightarrow> bool"
  assumes init: "inv right l s0"
    and mono: "sorted_keys right \<Longrightarrow> inv right l s \<Longrightarrow> l \<le> l' \<Longrightarrow> inv right l' s"
    and next_ok: "sorted_keys right \<Longrightarrow> inv right l s \<Longrightarrow>
      \<exists>s'. next_fn s l (list_reader right) (length right) = Inr (spec right l, s') \<and> inv right l s'"
    and spec_key: "spec right l = Some j \<Longrightarrow> \<exists>r. key_at right j = Some r"

begin

lemma loop_ok:
  assumes "sorted_keys right" and vals: "pa_len ra = length right"
    and "\<And>j r. key_at right j = Some r \<Longrightarrow> pa_values ra ! j = r"
  shows "sorted (non_null ls) \<Longrightarrow> (\<And>a. Some a \<in> set ls \<Longrightarrow> inv right a s) \<Longrightarrow>
    length out = i + length ls \<Longrightarrow> i + length ls \<le> 8 * length m \<Longrightarrow>
    (\<And>j. i \<le> j \<Longrightarrow> j < 8 * length m \<Longrightarrow> \<not> bits_of m ! j) \<Longrightarrow>
    \<exists>out' m'. asof_loop next_fn (list_reader right) ra flt i ls s out m = Inr (out', m') \<and>
      length out' = length out \<and> length m' = length m \<and>
      (\<forall>j < length out. cell out' m' j = (if j < i then cell out m j else join_row (spec right) right flt (ls ! (j - i))))"
proof (induction ls arbitrary: i s out m)
  case (Cons x ls)
  show ?case
  proof (cases x)
    case None
    have none: "cell out m i = None" using Cons.prems(4,5) by (simp add: cell_def)
    obtain out' m' where r: "asof_loop next_fn (list_reader right) ra flt (i + 1) ls s out m = Inr (out', m')"
      "length out' = length out" "length m' = length m"
      "\<forall>j < length out. cell out' m' j = (if j < i + 1 then cell out m j else join_row (spec right) right flt (ls ! (j - (i + 1))))"
      using Cons.IH [of s out "i + 1" m] Cons.prems None by auto
    have "cell out' m' j = (if j < i then cell out m j else join_row (spec right) right flt ((x # ls) ! (j - i)))"
      if "j < length out" for j
      using r(4) that none None by (cases "j = i") (auto simp: nth_Cons' join_row_def)
    with r None show ?thesis by auto
  next
    case (Some l)
    then have inv_l: "inv right l s" and srt: "sorted (non_null ls)" "\<forall>a \<in> set (non_null ls). l \<le> a"
      using Cons.prems(1,2) by auto
    from next_ok [OF assms(1) inv_l] obtain s' where s':
      "next_fn s l (list_reader right) (length right) = Inr (spec right l, s')" "inv right l s'" by blast
    have inv': "inv right a s'" if "Some a \<in> set ls" for a
      using mono [OF assms(1) s'(2)] srt(2) that by (simp add: in_non_null)
    show ?thesis
    proof (cases "spec right l")
      case None
      have none: "cell out m i = None" using Cons.prems(4,5) by (simp add: cell_def)
      obtain out' m' where r: "asof_loop next_fn (list_reader right) ra flt (i + 1) ls s' out m = Inr (out', m')"
        "length out' = length out" "length m' = length m"
        "\<forall>j < length out. cell out' m' j = (if j < i + 1 then cell out m j else join_row (spec right) right flt (ls ! (j - (i + 1))))"
        using Cons.IH [OF srt(1) inv', of out "i + 1" m] Cons.prems by auto
      have "cell out' m' j = (if j < i then cell out m j else join_row (spec right) right flt ((x # ls) ! (j - i)))"
        if "j < length out" for j
        using r(4) that none None Some by (cases "j = i") (auto simp: nth_Cons' join_row_def)
      with r None Some s' vals show ?thesis by auto
    next
      case (Some j0)
      with spec_key obtain rv where rv: "key_at right j0 = Some rv" by blast
      then have j0: "j0 < length right" by (auto simp: key_at_def split: if_splits)
      have i: "i < 8 * length m" "\<not> bits_of m ! i" using Cons.prems(4,5) by auto
      obtain m1 where m1: "set_mask m i (flt l rv) = Inr m1" "length m1 = length m" "bits_of m1 = (bits_of m)[i := flt l rv]"
        using set_mask_ok [OF i] by blast
      obtain out' m' where r: "asof_loop next_fn (list_reader right) ra flt (i + 1) ls s' (out[i := j0]) m1 = Inr (out', m')"
        "length out' = length out" "length m' = length m"
        "\<forall>j < length out. cell out' m' j = (if j < i + 1 then cell (out[i := j0]) m1 j else join_row (spec right) right flt (ls ! (j - (i + 1))))"
        using Cons.IH [OF srt(1) inv', of "out[i := j0]" "i + 1" m1] Cons.prems m1 by (auto simp: nth_list_update)
      have at_i: "cell (out[i := j0]) m1 i = join_row (spec right) right flt x"
        using \<open>x = Some l\<close> Some rv i m1(3) Cons.prems(3) by (simp add: cell_def join_row_def)
      have below: "cell (out[i := j0]) m1 j = cell out m j" if "j < i" for j
        using that i m1(3) by (simp add: cell_def)
      have "cell out' m' j = (if j < i then cell out m j else join_row (spec right) right flt ((x # ls) ! (j - i)))"
        if "j < length out" for j
        using r(4) that at_i below by (cases "j = i") (auto simp: nth_Cons')
      moreover have "asof_loop next_fn (list_reader right) ra flt i (x # ls) s out m = Inr (out', m')"
        using r(1) s'(1) m1(1) Some \<open>x = Some l\<close> vals assms(3) [OF rv] j0 by (simp add: value_unchecked_def)
      ultimately show ?thesis using r(2,3) by auto
    qed
  qed
qed auto

lemma join_row_no_key: "join_row (spec ks) ks flt l = None" if "\<And>j. key_at ks j = None"
  using that spec_key by (auto simp: join_row_def split: option.splits)

lemma join_ok:
  assumes "pa_inv left" and "pa_inv right"
    and "sorted (non_null (pa_opt left))" and "sorted (non_null (pa_opt right))"
  shows "\<exists>out. join_asof_impl next_fn s0 left right flt = Inr out \<and> pa_len out = pa_len left \<and>
    pa_opt out = map (join_row (spec (pa_opt right)) (pa_opt right) flt) (pa_opt left)"
proof (cases "pa_len left = null_count left \<or> pa_len right = null_count right")
  case True
  have "map (join_row (spec (pa_opt right)) (pa_opt right) flt) (pa_opt left) = replicate (pa_len left) None"
  proof (cases "pa_len left = null_count left")
    case True
    then show ?thesis using null_count_all [OF assms(1)] by (simp add: join_row_def)
  next
    case False
    with True have "pa_opt right = replicate (pa_len right) None" using null_count_all [OF assms(2)] by simp
    then have "key_at (pa_opt right) j = None" for j by (simp add: key_at_def)
    then show ?thesis
      using assms(1) join_row_no_key [of "pa_opt right" flt] by (intro nth_equalityI) simp_all
  qed
  with True show ?thesis by (simp add: join_asof_impl_def)
next
  case False
  define n where "n = pa_len left"
  define m where "m = replicate ((n + 7) div 8) (0 :: u8)"
  have m: "n \<le> 8 * length m" "\<not> bits_of m ! j" if "j < 8 * length m" for j
    using that bits_of_replicate [OF byte_bits_0, of "(n + 7) div 8"] by (simp_all add: m_def)
  have n8: "n \<le> 8 * length m" by (simp add: m_def)
  have len: "length (pa_opt left) = n" "length (pa_opt right) = pa_len right"
    using assms by (simp_all add: n_def)
  obtain out' m' where loop:
    "asof_loop next_fn (list_reader (pa_opt right)) right flt 0 (pa_opt left) s0 (replicate n 0) m = Inr (out', m')"
    "length out' = n" "length m' = length m"
    "\<forall>j < n. cell out' m' j = join_row (spec (pa_opt right)) (pa_opt right) flt (pa_opt left ! j)"
    using loop_ok [OF sorted_keysI [OF assms(4)] len(2) [symmetric] key_at_pa_opt [OF assms(2)] assms(3) init,
        of "replicate n 0" 0 m flt] len n8 m(2)
    by auto
  have "get_unchecked right = list_reader (pa_opt right)"
    using assms(2) by (intro ext) (simp add: get_unchecked_def list_reader_def)
  moreover have "(\<lambda>j. rbind (value_unchecked right j) (\<lambda>v. Inr (Some v))) = list_reader (pa_opt right)"
    if "null_count right = 0"
    using null_count_zero [OF assms(2) that] by (intro ext) (simp add: value_unchecked_def list_reader_def pa_len_def)
  moreover have "pa_opt left = map Some (pa_values left)" if "null_count left = 0"
    using null_count_zero [OF assms(1) that] .
  moreover have "bm_try_new m' n = Inr \<lparr>bm_storage = m', bm_offset = 0, bm_length = n, bm_cache = (if n = 0 then 0 else UNKNOWN_BIT_COUNT)\<rparr>"
    using n8 loop(3) by (simp add: bm_try_new_def bm_check_def mult.commute)
  ultimately have "join_asof_impl next_fn s0 left right flt
      = Inr \<lparr>pa_values = out', pa_validity = Some (window m' 0 n), pa_owned = True\<rparr>"
    using False loop(1,2) by (auto simp: join_asof_impl_def Let_def n_def [symmetric] m_def [symmetric] bm_bits_def)
  moreover have "pa_opt \<lparr>pa_values = out', pa_validity = Some (window m' 0 n), pa_owned = True\<rparr>
      = map (join_row (spec (pa_opt right)) (pa_opt right) flt) (pa_opt left)"
    using loop(2-4) n8 len(1)
    by (intro nth_equalityI) (auto simp: pa_opt_def mask_opt_def cell_def window_def split: if_splits)
  ultimately show ?thesis using loop(2) by (simp add: pa_len_def n_def)
qed

end

subsection \<open>The three searches\<close>

definition first_idx :: "(nat \<Rightarrow> bool) \<Rightarrow> nat \<Rightarrow> nat option" where
  "first_idx P n = List.find P [0..<n]"

fun last_idx :: "(nat \<Rightarrow> bool) \<Rightarrow> nat \<Rightarrow> nat option" where
  "last_idx P 0 = None"
| "last_idx P (Suc n) = (if P n then Some n else last_idx P n)"

fun key_sat :: "('a \<Rightarrow> bool) \<Rightarrow> 'a option \<Rightarrow> bool" where
  "key_sat P None = False"
| "key_sat P (Some k) = P k"

definition forward_spec :: "'a::linorder option list \<Rightarrow> 'a \<Rightarrow> nat option" where
  "forward_spec right l = first_idx (\<lambda>j. key_sat (\<lambda>r. l \<le> r) (key_at right j)) (length right)"

definition backward_spec :: "'a::linorder option list \<Rightarrow> 'a \<Rightarrow> nat option" where
  "backward_spec right l = last_idx (\<lambda>j. key_sat (\<lambda>r. r \<le> l) (key_at right j)) (length right)"

definition nearest_spec :: "int option list \<Rightarrow> int \<Rightarrow> nat option" where
  "nearest_spec right l =
     last_idx (\<lambda>j. key_sat (\<lambda>r. \<forall>r' \<in> set (non_null right). \<bar>l - r\<bar> \<le> \<bar>l - r'\<bar>) (key_at right j)) (length right)"

lemma first_idx_Some: "j < n \<Longrightarrow> P j \<Longrightarrow> (\<And>k. k < j \<Longrightarrow> \<not> P k) \<Longrightarrow> first_idx P n = Some j"
  by (auto simp: first_idx_def find_Some_iff)

lemma first_idx_None: "(\<And>k. k < n \<Longrightarrow> \<not> P k) \<Longrightarrow> first_idx P n = None"
  by (auto simp: first_idx_def find_None_iff)

lemma first_idx_D: "first_idx P n = Some j \<Longrightarrow> j < n \<and> P j"
  by (auto simp: first_idx_def find_Some_iff)

lemma last_idx_Some: "j < n \<Longrightarrow> P j \<Longrightarrow> (\<And>k. j < k \<Longrightarrow> k < n \<Longrightarrow> \<not> P k) \<Longrightarrow> last_idx P n = Some j"
  by (induction n) (auto simp: less_Suc_eq)

lemma last_idx_None: "(\<And>k. k < n \<Longrightarrow> \<not> P k) \<Longrightarrow> last_idx P n = None"
  by (induction n) auto

lemma last_idx_D: "last_idx P n = Some j \<Longrightarrow> j < n \<and> P j"
  by (induction n) (auto split: if_splits)

lemma key_sat_D: "key_sat P k \<Longrightarrow> \<exists>r. k = Some r \<and> P r"
  by (cases k) auto

lemma list_reader_in: "i < length ks \<Longrightarrow> list_reader ks i = Inr (key_at ks i)"
  by (simp add: list_reader_def key_at_def)

subsubsection \<open>Forward\<close>

definition forward_inv :: "'a::linorder option list \<Rightarrow> 'a \<Rightarrow> nat \<Rightarrow> bool" where
  "forward_inv right l off \<longleftrightarrow> off \<le> length right \<and> (\<forall>j < off. \<not> key_sat (\<lambda>r. l \<le> r) (key_at right j))"

lemma key_sat_mono: "key_sat P k \<Longrightarrow> (\<And>r. P r \<Longrightarrow> Q r) \<Longrightarrow> key_sat Q k"
  by (cases k) auto

lemma forward_next_ok:
  assumes "forward_inv right l off"
  shows "\<exists>off'. asof_forward_next off l (list_reader right) (length right) = Inr (forward_spec right l, off') \<and>
    forward_inv right l off'"
  using assms
proof (induction "length right - off" arbitrary: off rule: less_induct)
  case less
  show ?case
  proof (cases "off < length right")
    case False
    with less.prems show ?thesis
      by (subst asof_forward_next.simps) (auto simp: forward_inv_def forward_spec_def first_idx_None)
  next
    case True
    show ?thesis
    proof (cases "key_sat (\<lambda>r. l \<le> r) (key_at right off)")
      case hit: True
      then have "forward_spec right l = Some off"
        unfolding forward_spec_def using True less.prems by (intro first_idx_Some) (auto simp: forward_inv_def)
      with hit True less.prems show ?thesis
        by (subst asof_forward_next.simps) (auto simp: list_reader_in dest: key_sat_D)
    next
      case miss: False
      then have "forward_inv right l (off + 1)"
        using less.prems True by (auto simp: forward_inv_def less_Suc_eq)
      moreover have "asof_forward_next off l (list_reader right) (length right)
          = asof_forward_next (off + 1) l (list_reader right) (length right)"
        using miss True by (subst asof_forward_next.simps) (auto simp: list_reader_in split: option.split)
      ultimately show ?thesis using less.hyps [of "off + 1"] True by simp
    qed
  qed
qed

interpretation forward: asof_state asof_forward_next 0 forward_spec forward_inv
proof
  show "forward_inv right l 0" for right and l :: 'a by (simp add: forward_inv_def)
  show "forward_inv right l' s" if "forward_inv right l s" "l \<le> l'" for right and l l' :: 'a and s
    using that by (auto simp: forward_inv_def dest: key_sat_mono [where Q = "\<lambda>r. l \<le> r"])
  show "\<exists>s'. asof_forward_next s l (list_reader right) (length right) = Inr (forward_spec right l, s') \<and>
      forward_inv right l s'" if "forward_inv right l s" for right and l :: 'a and s
    using forward_next_ok [OF that] .
  show "\<exists>r. key_at right j = Some r" if "forward_spec right l = Some j" for right and l :: 'a and j
    using that by (auto simp: forward_spec_def dest!: first_idx_D key_sat_D)
qed

subsubsection \<open>Backward\<close>

fun has_key :: "'a option \<Rightarrow> bool" where
  "has_key None = False"
| "has_key (Some k) = True"

lemma has_key_iff: "has_key k \<longleftrightarrow> (\<exists>r. k = Some r)"
  by (cases k) auto

definition scanned :: "'a option list \<Rightarrow> bound_state \<Rightarrow> bool" where
  "scanned right s \<longleftrightarrow> snd s \<le> length right \<and> fst s = last_idx (\<lambda>j. has_key (key_at right j)) (snd s)"

definition backward_inv :: "'a::linorder option list \<Rightarrow> 'a \<Rightarrow> bound_state \<Rightarrow> bool" where
  "backward_inv right l s \<longleftrightarrow> scanned right s \<and> (\<forall>j < snd s. \<forall>r. key_at right j = Some r \<longrightarrow> r \<le> l)"

lemma last_idx_cong: "(\<And>j. j < n \<Longrightarrow> P j = Q j) \<Longrightarrow> last_idx P n = last_idx Q n"
  by (induction n) auto

lemma last_idx_extend: "off \<le> n \<Longrightarrow> (\<And>j. off \<le> j \<Longrightarrow> j < n \<Longrightarrow> \<not> P j) \<Longrightarrow> last_idx P n = last_idx P off"
  by (induction n) (auto simp: le_Suc_eq)

lemma backward_done:
  assumes "backward_inv right l (best, off)" and "\<And>j r. off \<le> j \<Longrightarrow> key_at right j = Some r \<Longrightarrow> l < r"
  shows "backward_spec right l = best"
proof -
  let ?P = "\<lambda>j. key_sat (\<lambda>r. r \<le> l) (key_at right j)"
  have "backward_spec right l = last_idx ?P off"
    unfolding backward_spec_def
  proof (rule last_idx_extend)
    show "off \<le> length right" using assms(1) by (simp add: backward_inv_def scanned_def)
    show "\<not> ?P j" if "off \<le> j" for j
      using assms(2) [OF that] by (cases "key_at right j") (auto simp: not_le)
  qed
  also have "\<dots> = last_idx (\<lambda>j. has_key (key_at right j)) off"
    using assms(1) by (intro last_idx_cong) (auto simp: backward_inv_def has_key_iff dest: key_sat_D)
  finally show ?thesis using assms(1) by (simp add: backward_inv_def scanned_def)
qed

lemma scanned_step:
  assumes "scanned right (best, off)" and "off < length right"
  shows "key_at right off = None \<Longrightarrow> scanned right (best, off + 1)"
    and "key_at right off = Some r \<Longrightarrow> scanned right (Some off, off + 1)"
  using assms by (auto simp: scanned_def)

lemma scan_cases:
  assumes "scanned right (best, off)"
  obtains "off = length right" | "off < length right" "key_at right off = None"
    | r where "off < length right" "key_at right off = Some r" "r \<le> l"
    | r where "off < length right" "key_at right off = Some r" "(l :: 'a::linorder) < r"
proof (cases "off < length right")
  case True
  then show ?thesis using that(2-4) not_le by (cases "key_at right off") blast+
next
  case False
  with assms have "off = length right" by (simp add: scanned_def)
  then show ?thesis by (rule that(1))
qed

lemma backward_next_ok:
  assumes "sorted_keys right" and "backward_inv right l (best, off)"
  shows "\<exists>s'. asof_backward_next (best, off) l (list_reader right) (length right) = Inr (backward_spec right l, s') \<and>
    backward_inv right l s'"
  using assms(2)
proof (induction "length right - off" arbitrary: best off rule: less_induct)
  case less
  have "scanned right (best, off)" using less.prems by (simp add: backward_inv_def)
  then show ?case
  proof (cases rule: scan_cases [where l = l])
    case 1
    then show ?thesis
      using backward_done [OF less.prems] less.prems
      by (subst asof_backward_next.simps) (auto simp: key_at_def)
  next
    case 2
    then have "backward_inv right l (best, off + 1)"
      using less.prems scanned_step(1) [of right best off] by (auto simp: backward_inv_def less_Suc_eq)
    moreover have "asof_backward_next (best, off) l (list_reader right) (length right)
        = asof_backward_next (best, off + 1) l (list_reader right) (length right)"
      using 2 by (subst asof_backward_next.simps) (simp add: list_reader_in)
    ultimately show ?thesis using less.hyps [of "off + 1" best] 2 by simp
  next
    case 3
    then have "backward_inv right l (Some off, off + 1)"
      using less.prems scanned_step(2) [of right best off] by (auto simp: backward_inv_def less_Suc_eq)
    moreover have "asof_backward_next (best, off) l (list_reader right) (length right)
        = asof_backward_next (Some off, off + 1) l (list_reader right) (length right)"
      using 3 by (subst asof_backward_next.simps) (simp add: list_reader_in)
    ultimately show ?thesis using less.hyps [of "off + 1" "Some off"] 3 by simp
  next
    case 4
    have "l < b" if "off \<le> j" "key_at right j = Some b" for j b
      using less_le_trans [OF 4(3)] sorted_keysD [OF assms(1) that(1) 4(2) that(2)] .
    then have "backward_spec right l = best" using backward_done [OF less.prems] by blast
    with 4 less.prems show ?thesis
      by (subst asof_backward_next.simps) (auto simp: list_reader_in)
  qed
qed

interpretation backward: asof_state asof_backward_next "(None, 0)" backward_spec backward_inv
proof
  show "backward_inv right l (None, 0)" for right and l :: 'a by (simp add: backward_inv_def scanned_def)
  show "backward_inv right l' s" if "backward_inv right l s" "l \<le> l'" for right and l l' :: 'a and s
    using that by (auto simp: backward_inv_def intro: order_trans)
  show "\<exists>s'. asof_backward_next s l (list_reader right) (length right) = Inr (backward_spec right l, s') \<and>
      backward_inv right l s'" if "sorted_keys right" "backward_inv right l s" for right and l :: 'a and s
    using backward_next_ok [OF that(1), of l "fst s" "snd s"] that(2) by simp
  show "\<exists>r. key_at right j = Some r" if "backward_spec right l = Some j" for right and l :: 'a and j
    using that by (auto simp: backward_spec_def dest!: last_idx_D key_sat_D)
qed

subsubsection \<open>Nearest\<close>

lemma abs_diff_abs: "abs_diff x y = \<bar>x - y\<bar>"
  by (simp add: abs_diff_def)

text \<open>
  The last key scanned so far is a nearest one to \<open>l\<close> among the keys scanned.
\<close>

definition nearest_inv :: "int option list \<Rightarrow> int \<Rightarrow> bound_state \<Rightarrow> bool" where
  "nearest_inv right l s \<longleftrightarrow> scanned right s \<and>
     (\<forall>b rb. fst s = Some b \<longrightarrow> key_at right b = Some rb \<longrightarrow>
        (\<forall>j < snd s. \<forall>r. key_at right j = Some r \<longrightarrow> \<bar>l - rb\<bar> \<le> \<bar>l - r\<bar>))"

lemma nearest_inv_scanned: "nearest_inv right l s \<Longrightarrow> scanned right s"
  by (simp only: nearest_inv_def)

lemma scanned_best:
  assumes "scanned right (Some b, off)"
  shows "b < off" and "\<exists>rb. key_at right b = Some rb" and "\<And>j. b < j \<Longrightarrow> j < off \<Longrightarrow> key_at right j = None"
proof -
  have l: "last_idx (\<lambda>j. has_key (key_at right j)) off = Some b" using assms by (simp add: scanned_def)
  then show "b < off" "\<exists>rb. key_at right b = Some rb" by (auto dest!: last_idx_D simp: has_key_iff)
  show "key_at right j = None" if "b < j" "j < off" for j
    using l that
  proof (induction off)
    case (Suc n)
    then show ?case by (cases "key_at right n") (auto simp: less_Suc_eq split: if_splits)
  qed simp
qed

lemma scanned_none: "scanned right (None, off) \<Longrightarrow> j < off \<Longrightarrow> key_at right j = None"
proof -
  have "last_idx P n = None \<Longrightarrow> j < n \<Longrightarrow> \<not> P j" for P and n j :: nat
    by (induction n) (auto simp: less_Suc_eq split: if_splits)
  then show "scanned right (None, off) \<Longrightarrow> j < off \<Longrightarrow> key_at right j = None"
    by (metis fst_conv has_key.elims(1) scanned_def snd_conv)
qed

lemma nearest_mono:
  assumes "sorted_keys right" and "nearest_inv right l s" and "l \<le> l'"
  shows "nearest_inv right l' s"
proof -
  have "\<bar>l' - rb\<bar> \<le> \<bar>l' - r\<bar>"
    if "fst s = Some b" "key_at right b = Some rb" "j < snd s" "key_at right j = Some r" for b rb j r
  proof -
    have "scanned right (Some b, snd s)" using assms(2) that(1) by (metis nearest_inv_def prod.collapse)
    then have "j \<le> b" using scanned_best(3) that(3,4) by (metis not_le option.distinct(1))
    then have "r \<le> rb" using sorted_keysD [OF assms(1)] that by blast
    moreover have "\<bar>l - rb\<bar> \<le> \<bar>l - r\<bar>" using assms(2) that by (simp add: nearest_inv_def)
    ultimately show ?thesis using assms(3) by linarith
  qed
  with assms(2) show ?thesis by (simp add: nearest_inv_def)
qed

lemma nearest_done:
  assumes "nearest_inv right l (best, off)"
    and "\<And>j r. off \<le> j \<Longrightarrow> key_at right j = Some r \<Longrightarrow> \<exists>b rb. best = Some b \<and> key_at right b = Some rb \<and> \<bar>l - rb\<bar> < \<bar>l - r\<bar>"
  shows "nearest_spec right l = best"
proof (cases best)
  case None
  have "key_at right j = None" for j
  proof (cases "j < off")
    case True
    then show ?thesis using scanned_none assms(1) None by (simp add: nearest_inv_def)
  next
    case False
    then show ?thesis using assms(2) [of j] None by (cases "key_at right j") auto
  qed
  then show ?thesis unfolding nearest_spec_def None by (intro last_idx_None) simp
next
  case (Some b)
  have sc: "scanned right (Some b, off)" using assms(1) Some by (simp add: nearest_inv_def)
  note best = scanned_best [OF sc]
  obtain rb where rb: "key_at right b = Some rb" using best(2) by blast
  have far: "\<bar>l - rb\<bar> < \<bar>l - r\<bar>" if "off \<le> j" "key_at right j = Some r" for j r
    using assms(2) [OF that] Some rb by auto
  have near: "\<bar>l - rb\<bar> \<le> \<bar>l - r\<bar>" if "key_at right j = Some r" for j r
  proof (cases "j < off")
    case True
    with assms(1) [unfolded nearest_inv_def] Some rb that show ?thesis by fastforce
  next
    case False
    with far [of j r] that have "\<bar>l - rb\<bar> < \<bar>l - r\<bar>" by (simp only: not_less)
    then show ?thesis by (rule less_imp_le)
  qed
  have mem: "\<exists>j. key_at right j = Some r" if "r \<in> set (non_null right)" for r
    using that [unfolded in_non_null] by (metis in_set_conv_nth key_at_def)
  show ?thesis
    unfolding nearest_spec_def Some
  proof (rule last_idx_Some)
    show "b < length right" using best(1) sc by (simp add: scanned_def)
    show "key_sat (\<lambda>r. \<forall>r'\<in>set (non_null right). \<bar>l - r\<bar> \<le> \<bar>l - r'\<bar>) (key_at right b)"
      using rb near mem by force
    show "\<not> key_sat (\<lambda>r. \<forall>r'\<in>set (non_null right). \<bar>l - r\<bar> \<le> \<bar>l - r'\<bar>) (key_at right j)" if "b < j" for j
    proof (cases "key_at right j")
      case r: (Some r)
      then have "off \<le> j" using best(3) [of j] that by (metis not_le option.distinct(1))
      with r far have "\<bar>l - rb\<bar> < \<bar>l - r\<bar>" by blast
      moreover have "rb \<in> set (non_null right)" using rb by (simp add: in_non_null key_at_mem)
      ultimately show ?thesis using r by force
    qed simp
  qed
qed

lemma nearest_run_ok:
  assumes "scanned right (Some b, off)" and "key_at right b = Some v"
  shows "\<exists>b' off'. nearest_run v (list_reader right) (length right) (Some b, off) = Inr (Some b', off') \<and>
    scanned right (Some b', off') \<and> key_at right b' = Some v \<and> off \<le> off' \<and>
    (\<forall>j r. off \<le> j \<longrightarrow> j < off' \<longrightarrow> key_at right j = Some r \<longrightarrow> r = v) \<and>
    (off' = length right \<or> (\<exists>r. key_at right off' = Some r \<and> r \<noteq> v))"
  using assms
proof (induction "length right - off" arbitrary: b off rule: less_induct)
  case less
  consider "off = length right" | "off < length right" "key_at right off = None"
    | "off < length right" "key_at right off = Some v"
    | r where "off < length right" "key_at right off = Some r" "r \<noteq> v"
    using less.prems(1) by (cases "key_at right off") (force simp: scanned_def)+
  then show ?case
  proof cases
    case 1
    then show ?thesis using less.prems by (subst nearest_run.simps) (auto simp: key_at_def)
  next
    case 2
    have "length right - (off + 1) < length right - off" using 2(1) by simp
    from less.hyps [OF this scanned_step(1) [OF less.prems(1) 2] less.prems(2)] obtain b' off' where r:
      "nearest_run v (list_reader right) (length right) (Some b, off + 1) = Inr (Some b', off')"
      "scanned right (Some b', off')" "key_at right b' = Some v" "off + 1 \<le> off'"
      "\<forall>j r. off + 1 \<le> j \<longrightarrow> j < off' \<longrightarrow> key_at right j = Some r \<longrightarrow> r = v"
      "off' = length right \<or> (\<exists>r. key_at right off' = Some r \<and> r \<noteq> v)" by blast
    have "r' = v" if "off \<le> j" "j < off'" "key_at right j = Some r'" for j r'
    proof (cases "j = off")
      case False
      with that(1) have "off + 1 \<le> j" by simp
      with r(5) that show ?thesis by blast
    qed (use 2 that in simp)
    with r 2 show ?thesis by (subst nearest_run.simps) (simp add: list_reader_in)
  next
    case 3
    have "length right - (off + 1) < length right - off" using 3(1) by simp
    from less.hyps [OF this scanned_step(2) [OF less.prems(1) 3] 3(2)] obtain b' off' where r:
      "nearest_run v (list_reader right) (length right) (Some off, off + 1) = Inr (Some b', off')"
      "scanned right (Some b', off')" "key_at right b' = Some v" "off + 1 \<le> off'"
      "\<forall>j r. off + 1 \<le> j \<longrightarrow> j < off' \<longrightarrow> key_at right j = Some r \<longrightarrow> r = v"
      "off' = length right \<or> (\<exists>r. key_at right off' = Some r \<and> r \<noteq> v)" by blast
    have "r' = v" if "off \<le> j" "j < off'" "key_at right j = Some r'" for j r'
    proof (cases "j = off")
      case False
      with that(1) have "off + 1 \<le> j" by simp
      with r(5) that show ?thesis by blast
    qed (use 3 that in simp)
    with r 3 show ?thesis by (subst nearest_run.simps) (simp add: list_reader_in)
  next
    case 4
    then show ?thesis using less.prems by (subst nearest_run.simps) (auto simp: list_reader_in)
  qed
qed

lemma nearest_inv_le:
  assumes "sorted_keys right" and "scanned right (Some b, off)" and "key_at right b = Some rb" and "rb \<le> l"
  shows "nearest_inv right l (Some b, off)"
proof -
  have "r \<le> rb" if "j < off" "key_at right j = Some r" for j r
  proof -
    have "j \<le> b" using scanned_best(3) [OF assms(2)] that by (metis not_le option.distinct(1))
    then show ?thesis using sorted_keysD [OF assms(1) _ that(2) assms(3)] by blast
  qed
  with assms(2-4) show ?thesis by (fastforce simp: nearest_inv_def)
qed

lemma scan_is_better_ok:
  assumes "nearest_inv right l (best, off)"
  shows "scan_is_better l r (list_reader right) best
    = Inr (\<forall>b rb. best = Some b \<longrightarrow> key_at right b = Some rb \<longrightarrow> \<bar>l - r\<bar> \<le> \<bar>l - rb\<bar>)"
proof (cases best)
  case (Some b)
  then have sc: "scanned right (Some b, off)" using assms by (simp add: nearest_inv_def)
  then have "b < length right" using scanned_best(1) [OF sc] by (simp add: scanned_def)
  moreover obtain rb where "key_at right b = Some rb" using scanned_best(2) [OF sc] by blast
  ultimately show ?thesis using Some by (simp add: scan_is_better_def list_reader_in abs_diff_abs)
qed (simp add: scan_is_better_def)

lemma nearest_take_ok:
  assumes srt: "sorted_keys right" and inv: "nearest_inv right l (best, off)"
    and off: "off < length right" "key_at right off = Some r" "l < r"
    and better: "\<forall>b rb. best = Some b \<longrightarrow> key_at right b = Some rb \<longrightarrow> \<bar>l - r\<bar> \<le> \<bar>l - rb\<bar>"
  shows "\<exists>s'. nearest_run r (list_reader right) (length right) (Some off, off + 1) = Inr s' \<and>
    fst s' = nearest_spec right l \<and> nearest_inv right l s'"
proof -
  have "scanned right (best, off)" using inv by (simp add: nearest_inv_def)
  then have "scanned right (Some off, off + 1)" by (rule scanned_step(2) [OF _ off(1,2)])
  from nearest_run_ok [OF this off(2)] obtain b' off' where run:
    "nearest_run r (list_reader right) (length right) (Some off, off + 1) = Inr (Some b', off')"
    "scanned right (Some b', off')" "key_at right b' = Some r" "off + 1 \<le> off'"
    "\<forall>j x. off + 1 \<le> j \<longrightarrow> j < off' \<longrightarrow> key_at right j = Some x \<longrightarrow> x = r"
    "off' = length right \<or> (\<exists>x. key_at right off' = Some x \<and> x \<noteq> r)" by blast
  have near: "\<bar>l - r\<bar> \<le> \<bar>l - x\<bar>" if jlt: "j < off'" and jx: "key_at right j = Some x" for j x
  proof -
    consider "j < off" | "j = off" | "off + 1 \<le> j" by linarith
    then show ?thesis
    proof cases
      case 1
      then obtain b where b: "best = Some b" using scanned_none [of right off j] inv jx
        by (cases best) (auto simp: nearest_inv_def)
      then have "scanned right (Some b, off)" using inv by (simp add: nearest_inv_def)
      from scanned_best(2) [OF this] obtain rb where rb: "key_at right b = Some rb" by blast
      then have "\<bar>l - r\<bar> \<le> \<bar>l - rb\<bar>" using better b by simp
      also have "\<dots> \<le> \<bar>l - x\<bar>" using inv b rb 1 jx by (simp add: nearest_inv_def)
      finally show ?thesis .
    next
      case 3
      with run(5) jlt jx have "x = r" by blast
      then show ?thesis by simp
    qed (use off(2) jx in simp)
  qed
  then have inv': "nearest_inv right l (Some b', off')" using run(2,3) by (simp add: nearest_inv_def)
  have "\<bar>l - r\<bar> < \<bar>l - x\<bar>" if oj: "off' \<le> j" and jx: "key_at right j = Some x" for j x
  proof -
    have "j < length right" using jx by (auto simp: key_at_def split: if_splits)
    have "r \<le> x" using sorted_keysD [OF srt _ off(2) jx] oj run(4) by simp
    moreover have "x \<noteq> r"
    proof -
      obtain y where y: "key_at right off' = Some y" "y \<noteq> r"
        using run(6) oj \<open>j < length right\<close> by auto
      then have "r \<le> y" "y \<le> x"
        using run(4) sorted_keysD [OF srt _ off(2) y(1)] sorted_keysD [OF srt oj y(1) jx] by auto
      with y(2) show ?thesis by simp
    qed
    ultimately show ?thesis using off(3) by linarith
  qed
  then have "nearest_spec right l = Some b'"
    using nearest_done [OF inv'] run(3) by blast
  with run(1) inv' show ?thesis by simp
qed

lemma nearest_next_ok:
  assumes "sorted_keys right" and "nearest_inv right l (best, off)"
  shows "\<exists>s'. asof_nearest_next (best, off) l (list_reader right) (length right) = Inr (nearest_spec right l, s') \<and>
    nearest_inv right l s'"
  using assms(2)
proof (induction "length right - off" arbitrary: best off rule: less_induct)
  case less
  note sc = nearest_inv_scanned [OF less.prems]
  from sc show ?case
  proof (cases rule: scan_cases [where l = l])
    case 1
    have "nearest_spec right l = best"
      by (rule nearest_done [OF less.prems]) (simp add: key_at_def 1)
    with 1 less.prems show ?thesis by (subst asof_nearest_next.simps) simp
  next
    case 2
    then have "nearest_inv right l (best, off + 1)"
      using less.prems scanned_step(1) [OF sc] by (auto simp: nearest_inv_def less_Suc_eq)
    moreover have "asof_nearest_next (best, off) l (list_reader right) (length right)
        = asof_nearest_next (best, off + 1) l (list_reader right) (length right)"
      using 2 by (subst asof_nearest_next.simps) (simp add: list_reader_in)
    ultimately show ?thesis using less.hyps [of "off + 1" best] 2 by simp
  next
    case 3
    then have "nearest_inv right l (Some off, off + 1)"
      using scanned_step(2) [OF sc] by (intro nearest_inv_le [OF assms(1)]) auto
    moreover have "asof_nearest_next (best, off) l (list_reader right) (length right)
        = asof_nearest_next (Some off, off + 1) l (list_reader right) (length right)"
      using 3 by (subst asof_nearest_next.simps) (simp add: list_reader_in)
    ultimately show ?thesis using less.hyps [of "off + 1" "Some off"] 3 by simp
  next
    case (4 r)
    note step = scan_is_better_ok [OF less.prems, of r]
    show ?thesis
    proof (cases "\<forall>b rb. best = Some b \<longrightarrow> key_at right b = Some rb \<longrightarrow> \<bar>l - r\<bar> \<le> \<bar>l - rb\<bar>")
      case True
      from nearest_take_ok [OF assms(1) less.prems 4 True] obtain s' where
        "nearest_run r (list_reader right) (length right) (Some off, off + 1) = Inr s'"
        "fst s' = nearest_spec right l" "nearest_inv right l s'" by blast
      with True step 4 show ?thesis
        by (subst asof_nearest_next.simps) (simp add: list_reader_in)
    next
      case False
      then obtain b rb where b: "best = Some b" "key_at right b = Some rb" "\<bar>l - rb\<bar> < \<bar>l - r\<bar>" by auto
      have "\<bar>l - rb\<bar> < \<bar>l - x\<bar>" if "off \<le> j" "key_at right j = Some x" for j x
        using sorted_keysD [OF assms(1) that(1) 4(2) that(2)] 4(3) b(3) by linarith
      then have "nearest_spec right l = best" using nearest_done [OF less.prems] b(1,2) by blast
      moreover have "scan_is_better l r (list_reader right) best = Inr False"
        using step False by (simp only:)
      then have "asof_nearest_next (best, off) l (list_reader right) (length right) = Inr (best, best, off)"
        using 4 by (subst asof_nearest_next.simps) (simp add: list_reader_in)
      ultimately show ?thesis using less.prems by simp
    qed
  qed
qed

interpretation nearest: asof_state asof_nearest_next "(None, 0)" nearest_spec nearest_inv
proof
  show "nearest_inv right l (None, 0)" for right l by (simp add: nearest_inv_def scanned_def)
  show "nearest_inv right l' s" if "sorted_keys right" "nearest_inv right l s" "l \<le> l'" for right l l' s
    using nearest_mono [OF that] .
  show "\<exists>s'. asof_nearest_next s l (list_reader right) (length right) = Inr (nearest_spec right l, s') \<and>
      nearest_inv right l s'" if "sorted_keys right" "nearest_inv right l s" for right l s
    using nearest_next_ok [OF that(1), of l "fst s" "snd s"] that(2) by simp
  show "\<exists>r. key_at right j = Some r" if "nearest_spec right l = Some j" for right l j
    using that by (auto simp: nearest_spec_def dest!: last_idx_D key_sat_D)
qed

subsection \<open>Properties\<close>

text \<open>
  The row selected by each strategy: the first right row whose key is not below the left
  key, the last right row whose key is not above it, and the last among the right rows whose
  key is nearest to it.
\<close>

fun strategy_spec :: "asof_strategy \<Rightarrow> int option list \<Rightarrow> int \<Rightarrow> nat option" where
  "strategy_spec Forward = forward_spec"
| "strategy_spec Backward = backward_spec"
| "strategy_spec Nearest = nearest_spec"

fun within :: "int option \<Rightarrow> int \<Rightarrow> int \<Rightarrow> bool" where
  "within None l r \<longleftrightarrow> True"
| "within (Some t) l r \<longleftrightarrow> \<bar>l - r\<bar> \<le> \<bar>t\<bar>"

text \<open>
  C11. On sorted integer keys with nulls anywhere on either side, the as-of join returns for
  every left row the right row that the strategy selects, if it lies within the tolerance,
  and null for a null key, for a left key without a candidate or for a candidate too far
  away; it never reads the right array out of bounds.
\<close>

theorem join_asof_numeric_correct:
  assumes "pa_inv left" and "pa_inv right"
    and "sorted (non_null (pa_opt left))" and "sorted (non_null (pa_opt right))"
  shows "\<exists>out. join_asof_numeric left right strategy tolerance = Inr out \<and> pa_len out = pa_len left \<and>
    pa_opt out = map (join_row (strategy_spec strategy (pa_opt right)) (pa_opt right) (within tolerance)) (pa_opt left)"
proof -
  have "(case tolerance of Some t \<Rightarrow> (let abs_tolerance = abs_diff t 0 in (\<lambda>l r. abs_diff l r \<le> abs_tolerance))
      | None \<Rightarrow> (\<lambda>_ _. True)) = within tolerance"
    by (cases tolerance) (auto simp: abs_diff_abs intro!: ext)
  then show ?thesis
    using forward.join_ok [OF assms, of "within tolerance"] backward.join_ok [OF assms, of "within tolerance"]
      nearest.join_ok [OF assms, of "within tolerance"]
    by (cases strategy)
      (simp_all add: join_asof_numeric_def join_asof_forward_def join_asof_backward_def join_asof_nearest_def)
qed

theorem join_asof_numeric_correct_witness:
  "\<exists>out. join_asof_numeric (from_vec [2, 5, 6 :: int]) (from_vec [1, 4, 4, 9]) Nearest (Some 1) = Inr out \<and>
    pa_opt out = [Some 0, Some 2, None]"
proof -
  have opt: "pa_opt (from_vec xs) = map Some xs" "pa_inv (from_vec xs)" for xs :: "int list"
    by (simp_all add: pa_opt_def mask_opt_def from_vec_def pa_inv_def)
  have spec: "nearest_spec [Some 1, Some 4, Some 4, Some 9] 2 = Some 0"
    "nearest_spec [Some 1, Some 4, Some 4, Some 9] 5 = Some 2"
    "nearest_spec [Some 1, Some 4, Some 4, Some 9] 6 = Some 2"
    by (simp_all add: nearest_spec_def key_at_def)
  show ?thesis
    using join_asof_numeric_correct [of "from_vec [2, 5, 6]" "from_vec [1, 4, 4, 9]" Nearest "Some 1"]
    by (auto simp: opt join_row_def spec key_at_def)
qed

text \<open>
  For keys of any ordered type, such as strings, the forward and backward as-of joins
  select the first right row not below and the last right row not above the left key.
\<close>

theorem join_asof_correct:
  assumes "pa_inv left" and "pa_inv right"
    and "sorted (non_null (pa_opt left))" and "sorted (non_null (pa_opt right))"
  shows "(\<exists>out. join_asof left right Forward = Inr out \<and>
      pa_opt out = map (join_row (forward_spec (pa_opt right)) (pa_opt right) (\<lambda>_ _. True)) (pa_opt left)) \<and>
    (\<exists>out. join_asof left right Backward = Inr out \<and>
      pa_opt out = map (join_row (backward_spec (pa_opt right)) (pa_opt right) (\<lambda>_ _. True)) (pa_opt left))"
  using forward.join_ok [OF assms, of "\<lambda>_ _. True"] backward.join_ok [OF assms, of "\<lambda>_ _. True"]
  by (auto simp: join_asof_def)

theorem join_asof_correct_witness:
  "\<exists>out. join_asof (from_vec [False, True]) (from_vec [True]) Backward = Inr out \<and> pa_opt out = [None, Some 0]"
proof -
  have opt: "pa_opt (from_vec xs) = map Some xs" "pa_inv (from_vec xs)" for xs :: "bool list"
    by (simp_all add: pa_opt_def mask_opt_def from_vec_def pa_inv_def)
  show ?thesis
    using join_asof_correct [of "from_vec [False, True]" "from_vec [True]"]
    by (auto simp: opt join_row_def backward_spec_def key_at_def)
qed

end
