(* ===== verification/DataTypes.thy ===== *)
theory DataTypes
  imports Prelude
begin

section \<open>Logical data types and their Arrow representation\<close>

text \<open>
  The logical types of the engine (\<open>polars-core/src/datatypes/dtype.rs\<close>), their named
  fields (\<open>field.rs\<close>), time units (\<open>time_unit.rs\<close>), the Arrow types that store them
  (\<open>polars-arrow/src/datatypes/mod.rs\<close>), the conversions in both directions and the
  conversion to the type that is serialised (\<open>_serde.rs\<close>).

  All \<open>dtype-*\<close> features, \<open>timezones\<close> and \<open>object\<close> are enabled.  A \<open>PlSmallStr\<close> is a
  \<open>string\<close>; a category array is the list of its optional strings; an object registry is
  represented by the physical type it carries.
\<close>

named_theorems dt_defs "predicates on data types"

subsection \<open>The types\<close>

datatype arrow_time_unit = Second | Millisecond | Microsecond | Nanosecond

datatype time_unit = Nanoseconds | Microseconds | Milliseconds

datatype integer_type = IInt8 | IInt16 | IInt32 | IInt64 | IUInt8 | IUInt16 | IUInt32 | IUInt64

datatype interval_unit = YearMonth | DayTime | MonthDayNano

datatype union_mode = Dense | Sparse

type_synonym metadata = "(string \<times> string) list"

datatype 'a arrow_field =
  ArrowField (af_name: string) (af_dtype: 'a) (is_nullable: bool) (af_metadata: metadata)

datatype arrow_data_type =
    ArrowNull | ArrowBoolean
  | ArrowInt8 | ArrowInt16 | ArrowInt32 | ArrowInt64
  | ArrowUInt8 | ArrowUInt16 | ArrowUInt32 | ArrowUInt64
  | ArrowFloat16 | ArrowFloat32 | ArrowFloat64
  | ArrowTimestamp arrow_time_unit "string option"
  | ArrowDate32 | ArrowDate64
  | ArrowTime32 arrow_time_unit | ArrowTime64 arrow_time_unit
  | ArrowDuration arrow_time_unit
  | ArrowInterval interval_unit
  | ArrowBinary | ArrowFixedSizeBinary nat | ArrowLargeBinary
  | ArrowUtf8 | ArrowLargeUtf8
  | ArrowList "arrow_data_type arrow_field"
  | ArrowFixedSizeList "arrow_data_type arrow_field" nat
  | ArrowLargeList "arrow_data_type arrow_field"
  | ArrowStruct "arrow_data_type arrow_field list"
  | ArrowUnion "arrow_data_type arrow_field list" "32 word list option" union_mode
  | ArrowMap "arrow_data_type arrow_field" bool
  | ArrowDictionary integer_type arrow_data_type bool
  | ArrowDecimal nat nat | ArrowDecimal256 nat nat
  | ArrowExtension string arrow_data_type "string option"
  | ArrowBinaryView | ArrowUtf8View | ArrowUnknown

datatype categorical_ordering = Physical | Lexical

datatype rev_mapping =
    Global "(u32 \<times> u32) list" "string option list" u32
  | Local "string option list" "128 word"

datatype unknown_kind = Kind_Int int | Kind_Float | Kind_Str | Kind_Any

datatype 'a field = Field (field_name: string) (field_dtype: 'a)

datatype data_type =
    Boolean
  | UInt8 | UInt16 | UInt32 | UInt64
  | Int8 | Int16 | Int32 | Int64
  | Float32 | Float64
  | Decimal "nat option" "nat option"
  | String | Binary | BinaryOffset
  | Date
  | Datetime time_unit "string option"
  | Duration time_unit
  | Time
  | Array data_type nat
  | List data_type
  | Object string "arrow_data_type option"
  | Null
  | Categorical "rev_mapping option" categorical_ordering
  | Enum "rev_mapping option" categorical_ordering
  | Struct "data_type field list"
  | Unknown unknown_kind

text \<open>The values that the materialisation of an untyped integer literal produces.\<close>

datatype any_value =
    AvNull
  | AvInt8 "8 word" | AvInt16 "16 word" | AvInt32 "32 word" | AvInt64 "64 word"
  | AvUInt8 "8 word" | AvUInt16 "16 word" | AvUInt32 "32 word" | AvUInt64 "64 word"

fun any_value_dtype :: "any_value \<Rightarrow> data_type" where
  "any_value_dtype AvNull = Null"
| "any_value_dtype (AvInt8 _) = Int8"
| "any_value_dtype (AvInt16 _) = Int16"
| "any_value_dtype (AvInt32 _) = Int32"
| "any_value_dtype (AvInt64 _) = Int64"
| "any_value_dtype (AvUInt8 _) = UInt8"
| "any_value_dtype (AvUInt16 _) = UInt16"
| "any_value_dtype (AvUInt32 _) = UInt32"
| "any_value_dtype (AvUInt64 _) = UInt64"

definition fits_signed :: "nat \<Rightarrow> int \<Rightarrow> bool" where
  "fits_signed w v \<longleftrightarrow> - (2 ^ (w - 1)) \<le> v \<and> v < 2 ^ (w - 1)"

definition fits_unsigned :: "nat \<Rightarrow> int \<Rightarrow> bool" where
  "fits_unsigned w v \<longleftrightarrow> 0 \<le> v \<and> v < 2 ^ w"

text \<open>\<open>T::try_from(v).ok()\<close> is the guard \<open>fits_signed\<close> or \<open>fits_unsigned\<close>.\<close>

definition materialize_dyn_int :: "int \<Rightarrow> any_value" where
  "materialize_dyn_int v =
     (if fits_signed 32 v then AvInt32 (word_of_int v)
      else if fits_signed 64 v then AvInt64 (word_of_int v)
      else if fits_unsigned 64 v then AvUInt64 (word_of_int v)
      else AvNull)"

definition materialize_dyn_int_pos :: "int \<Rightarrow> any_value" where
  "materialize_dyn_int_pos v =
     (if fits_unsigned 8 v then AvUInt8 (word_of_int v)
      else if fits_unsigned 16 v then AvUInt16 (word_of_int v)
      else if fits_unsigned 32 v then AvUInt32 (word_of_int v)
      else if fits_unsigned 64 v then AvUInt64 (word_of_int v)
      else AvNull)"

definition materialize_smallest_dyn_int :: "int \<Rightarrow> any_value" where
  "materialize_smallest_dyn_int v =
     (if fits_signed 8 v then AvInt8 (word_of_int v)
      else if fits_signed 16 v then AvInt16 (word_of_int v)
      else if fits_signed 32 v then AvInt32 (word_of_int v)
      else if fits_signed 64 v then AvInt64 (word_of_int v)
      else if fits_unsigned 64 v then AvUInt64 (word_of_int v)
      else AvNull)"

definition unknown_materialize :: "unknown_kind \<Rightarrow> data_type option" where
  "unknown_materialize k =
     (case k of
        Kind_Int v \<Rightarrow> Some (any_value_dtype (materialize_dyn_int v))
      | Kind_Float \<Rightarrow> Some Float64
      | Kind_Str \<Rightarrow> Some String
      | Kind_Any \<Rightarrow> None)"

subsection \<open>Equality and hashing\<close>

fun discriminant :: "data_type \<Rightarrow> nat" where
  "discriminant Boolean = 0"
| "discriminant UInt8 = 1"
| "discriminant UInt16 = 2"
| "discriminant UInt32 = 3"
| "discriminant UInt64 = 4"
| "discriminant Int8 = 5"
| "discriminant Int16 = 6"
| "discriminant Int32 = 7"
| "discriminant Int64 = 8"
| "discriminant Float32 = 9"
| "discriminant Float64 = 10"
| "discriminant (Decimal _ _) = 11"
| "discriminant String = 12"
| "discriminant Binary = 13"
| "discriminant BinaryOffset = 14"
| "discriminant Date = 15"
| "discriminant (Datetime _ _) = 16"
| "discriminant (Duration _) = 17"
| "discriminant Time = 18"
| "discriminant (Array _ _) = 19"
| "discriminant (List _) = 20"
| "discriminant (Object _ _) = 21"
| "discriminant Null = 22"
| "discriminant (Categorical _ _) = 23"
| "discriminant (Enum _ _) = 24"
| "discriminant (Struct _) = 25"
| "discriminant (Unknown _) = 26"

definition get_categories :: "rev_mapping \<Rightarrow> string option list" where
  "get_categories m = (case m of Global _ a _ \<Rightarrow> a | Local a _ \<Rightarrow> a)"

definition same_src :: "rev_mapping \<Rightarrow> rev_mapping \<Rightarrow> bool" where
  "same_src m n =
     (case (m, n) of
        (Global _ _ l, Global _ _ r) \<Rightarrow> l = r
      | (Local _ l_hash, Local _ r_hash) \<Rightarrow> l_hash = r_hash
      | _ \<Rightarrow> False)"

lemma field_dtype_size [termination_simp]:
  assumes "f \<in> set fs"
  shows "size (field_dtype f) < Suc (size_list (size_field size) fs)"
proof -
  have "size (field_dtype f) \<le> size_field size f"
    by (cases f) simp
  also have "\<dots> \<le> size_list (size_field size) fs"
    by (rule size_list_estimation' [OF assms]) simp
  finally show ?thesis
    by simp
qed

lemma field_dtype_size_zip [termination_simp]:
  "(f, g) \<in> set (zip fs gs) \<Longrightarrow> size (field_dtype f) < Suc (size_list (size_field size) fs)"
  by (rule field_dtype_size) (rule set_zip_leftD)

text \<open>
  \<open>PartialEq for DataType\<close>.  The fields of a struct are compared with the derived
  equality of \<open>Vec<Field>\<close>; the pointer test in front of it only skips that comparison.
\<close>

fun dt_eq :: "data_type \<Rightarrow> data_type \<Rightarrow> bool" where
  "dt_eq (Categorical a b) r = (case r of Categorical _ _ \<Rightarrow> True | _ \<Rightarrow> False)"
| "dt_eq (Enum a b) r =
     (case r of
        Enum a' _ \<Rightarrow>
          (case (a, a') of
             (Some cat_lhs, Some cat_rhs) \<Rightarrow> get_categories cat_lhs = get_categories cat_rhs
           | _ \<Rightarrow> True)
      | _ \<Rightarrow> False)"
| "dt_eq (Datetime tu_l tz_l) r =
     (case r of Datetime tu_r tz_r \<Rightarrow> tu_l = tu_r \<and> tz_l = tz_r | _ \<Rightarrow> False)"
| "dt_eq (List left_inner) r =
     (case r of List right_inner \<Rightarrow> dt_eq left_inner right_inner | _ \<Rightarrow> False)"
| "dt_eq (Duration tu_l) r = (case r of Duration tu_r \<Rightarrow> tu_l = tu_r | _ \<Rightarrow> False)"
| "dt_eq (Object lhs a) r = (case r of Object rhs _ \<Rightarrow> lhs = rhs | _ \<Rightarrow> False)"
| "dt_eq (Struct lhs) r =
     (case r of
        Struct rhs \<Rightarrow>
          length lhs = length rhs
          \<and> list_all (\<lambda>(f, g). field_name f = field_name g
                              \<and> dt_eq (field_dtype f) (field_dtype g)) (zip lhs rhs)
      | _ \<Rightarrow> False)"
| "dt_eq (Array left_inner left_width) r =
     (case r of
        Array right_inner right_width \<Rightarrow> left_width = right_width \<and> dt_eq left_inner right_inner
      | _ \<Rightarrow> False)"
| "dt_eq (Unknown l) r =
     (case r of
        Unknown k \<Rightarrow>
          (case (l, k) of (Kind_Int _, Kind_Int _) \<Rightarrow> True | _ \<Rightarrow> l = k)
      | _ \<Rightarrow> False)"
| "dt_eq l r = (discriminant l = discriminant r)"

definition dt_hash :: "data_type \<Rightarrow> nat" where
  "dt_hash t = discriminant t"

subsection \<open>Predicates\<close>

definition is_float :: "data_type \<Rightarrow> bool" where
  [dt_defs]: "is_float t =
     (case t of Float32 \<Rightarrow> True | Float64 \<Rightarrow> True
      | Unknown k \<Rightarrow> (case k of Kind_Float \<Rightarrow> True | _ \<Rightarrow> False) | _ \<Rightarrow> False)"

definition is_integer :: "data_type \<Rightarrow> bool" where
  [dt_defs]: "is_integer t =
     (case t of
        Int8 \<Rightarrow> True | Int16 \<Rightarrow> True | Int32 \<Rightarrow> True | Int64 \<Rightarrow> True
      | UInt8 \<Rightarrow> True | UInt16 \<Rightarrow> True | UInt32 \<Rightarrow> True | UInt64 \<Rightarrow> True
      | Unknown k \<Rightarrow> (case k of Kind_Int _ \<Rightarrow> True | _ \<Rightarrow> False) | _ \<Rightarrow> False)"

definition is_signed_integer :: "data_type \<Rightarrow> bool" where
  [dt_defs]: "is_signed_integer t =
     (case t of Int64 \<Rightarrow> True | Int32 \<Rightarrow> True | Int8 \<Rightarrow> True | Int16 \<Rightarrow> True | _ \<Rightarrow> False)"

definition is_unsigned_integer :: "data_type \<Rightarrow> bool" where
  [dt_defs]: "is_unsigned_integer t =
     (case t of UInt64 \<Rightarrow> True | UInt32 \<Rightarrow> True | UInt8 \<Rightarrow> True | UInt16 \<Rightarrow> True | _ \<Rightarrow> False)"

definition is_numeric :: "data_type \<Rightarrow> bool" where
  [dt_defs]: "is_numeric t \<longleftrightarrow> is_float t \<or> is_integer t"

definition is_primitive :: "data_type \<Rightarrow> bool" where
  [dt_defs]: "is_primitive t \<longleftrightarrow>
     is_numeric t \<or> (case t of Boolean \<Rightarrow> True | String \<Rightarrow> True | Binary \<Rightarrow> True | _ \<Rightarrow> False)"

definition is_temporal :: "data_type \<Rightarrow> bool" where
  [dt_defs]: "is_temporal t =
     (case t of Date \<Rightarrow> True | Datetime _ _ \<Rightarrow> True | Duration _ \<Rightarrow> True | Time \<Rightarrow> True | _ \<Rightarrow> False)"

definition is_decimal :: "data_type \<Rightarrow> bool" where
  [dt_defs]: "is_decimal t = (case t of Decimal _ _ \<Rightarrow> True | _ \<Rightarrow> False)"

definition is_string :: "data_type \<Rightarrow> bool" where
  [dt_defs]: "is_string t =
     (case t of String \<Rightarrow> True | Unknown k \<Rightarrow> (case k of Kind_Str \<Rightarrow> True | _ \<Rightarrow> False) | _ \<Rightarrow> False)"

definition is_categorical :: "data_type \<Rightarrow> bool" where
  [dt_defs]: "is_categorical t = (case t of Categorical _ _ \<Rightarrow> True | _ \<Rightarrow> False)"

definition is_enum :: "data_type \<Rightarrow> bool" where
  [dt_defs]: "is_enum t = (case t of Enum _ _ \<Rightarrow> True | _ \<Rightarrow> False)"

definition is_null :: "data_type \<Rightarrow> bool" where
  [dt_defs]: "is_null t = (case t of Null \<Rightarrow> True | _ \<Rightarrow> False)"

definition is_bool :: "data_type \<Rightarrow> bool" where
  [dt_defs]: "is_bool t = (case t of Boolean \<Rightarrow> True | _ \<Rightarrow> False)"

definition is_list :: "data_type \<Rightarrow> bool" where
  [dt_defs]: "is_list t = (case t of List _ \<Rightarrow> True | _ \<Rightarrow> False)"

definition is_array :: "data_type \<Rightarrow> bool" where
  [dt_defs]: "is_array t = (case t of Array _ _ \<Rightarrow> True | _ \<Rightarrow> False)"

definition is_struct :: "data_type \<Rightarrow> bool" where
  [dt_defs]: "is_struct t = (case t of Struct _ \<Rightarrow> True | _ \<Rightarrow> False)"

definition is_nested :: "data_type \<Rightarrow> bool" where
  [dt_defs]: "is_nested t \<longleftrightarrow> is_list t \<or> is_struct t \<or> is_array t"

definition is_object :: "data_type \<Rightarrow> bool" where
  [dt_defs]: "is_object t = (case t of Object _ _ \<Rightarrow> True | _ \<Rightarrow> False)"

text \<open>The predicates that look inside nested types.\<close>

fun is_known :: "data_type \<Rightarrow> bool" where
  "is_known (List inner) = is_known inner"
| "is_known (Struct fields) = list_all (\<lambda>f. is_known (field_dtype f)) fields"
| "is_known (Unknown _) = False"
| "is_known _ = True"

fun contains_views :: "data_type \<Rightarrow> bool" where
  "contains_views Binary = True"
| "contains_views String = True"
| "contains_views (Categorical _ _) = True"
| "contains_views (Enum _ _) = True"
| "contains_views (List inner) = contains_views inner"
| "contains_views (Array inner _) = contains_views inner"
| "contains_views (Struct fields) = list_ex (\<lambda>f. contains_views (field_dtype f)) fields"
| "contains_views _ = False"

fun contains_categoricals :: "data_type \<Rightarrow> bool" where
  "contains_categoricals (Categorical _ _) = True"
| "contains_categoricals (Enum _ _) = True"
| "contains_categoricals (List inner) = contains_categoricals inner"
| "contains_categoricals (Array inner _) = contains_categoricals inner"
| "contains_categoricals (Struct fields) =
     list_ex (\<lambda>f. contains_categoricals (field_dtype f)) fields"
| "contains_categoricals _ = False"

fun contains_objects :: "data_type \<Rightarrow> bool" where
  "contains_objects (Object _ _) = True"
| "contains_objects (List inner) = contains_objects inner"
| "contains_objects (Array inner _) = contains_objects inner"
| "contains_objects (Struct fields) = list_ex (\<lambda>f. contains_objects (field_dtype f)) fields"
| "contains_objects _ = False"

fun is_nested_null :: "data_type \<Rightarrow> bool" where
  "is_nested_null Null = True"
| "is_nested_null (List inner) = is_nested_null inner"
| "is_nested_null (Struct fields) = list_all (\<lambda>f. is_nested_null (field_dtype f)) fields"
| "is_nested_null _ = False"

subsection \<open>Nesting\<close>

definition inner_dtype :: "data_type \<Rightarrow> data_type option" where
  "inner_dtype t = (case t of List inner \<Rightarrow> Some inner | Array inner _ \<Rightarrow> Some inner | _ \<Rightarrow> None)"

fun leaf_dtype :: "data_type \<Rightarrow> data_type" where
  "leaf_dtype (List inner) = leaf_dtype inner"
| "leaf_dtype (Array inner _) = leaf_dtype inner"
| "leaf_dtype t = t"

fun get_shape_impl :: "data_type \<Rightarrow> nat list \<Rightarrow> nat list" where
  "get_shape_impl (Array inner n) shape = get_shape_impl inner (shape @ [n])"
| "get_shape_impl _ shape = shape"

definition get_shape :: "data_type \<Rightarrow> nat list option" where
  "get_shape t = (case t of Array inner n \<Rightarrow> Some (get_shape_impl inner [n]) | _ \<Rightarrow> None)"

fun array_leaf_loop :: "data_type \<Rightarrow> data_type" where
  "array_leaf_loop (Array inner _) = array_leaf_loop inner"
| "array_leaf_loop t = t"

definition array_leaf_dtype :: "data_type \<Rightarrow> data_type option" where
  "array_leaf_dtype t = (case t of Array _ _ \<Rightarrow> Some (array_leaf_loop t) | _ \<Rightarrow> None)"

fun cast_leaf :: "data_type \<Rightarrow> data_type \<Rightarrow> data_type" where
  "cast_leaf (List inner) to = List (cast_leaf inner to)"
| "cast_leaf (Array inner n) to = Array (cast_leaf inner to) n"
| "cast_leaf _ to = to"

definition implode :: "data_type \<Rightarrow> data_type" where
  "implode t = List t"

fun to_physical :: "data_type \<Rightarrow> data_type" where
  "to_physical Date = Int32"
| "to_physical (Datetime _ _) = Int64"
| "to_physical (Duration _) = Int64"
| "to_physical Time = Int64"
| "to_physical (Categorical _ _) = UInt32"
| "to_physical (Enum _ _) = UInt32"
| "to_physical (Array dt width) = Array (to_physical dt) width"
| "to_physical (List dt) = List (to_physical dt)"
| "to_physical (Struct fields) =
     Struct (map (\<lambda>s. Field (field_name s) (to_physical (field_dtype s))) fields)"
| "to_physical t = t"

definition is_logical :: "data_type \<Rightarrow> bool" where
  "is_logical t \<longleftrightarrow> \<not> dt_eq t (to_physical t)"

definition is_ord :: "data_type \<Rightarrow> bool" where
  "is_ord t \<longleftrightarrow>
     (let is_cat = (case t of Categorical _ _ \<Rightarrow> True | Enum _ _ \<Rightarrow> True | _ \<Rightarrow> False);
          phys = to_physical t
      in (is_numeric phys \<or> is_decimal t
          \<or> (case phys of Binary \<Rightarrow> True | String \<Rightarrow> True | Boolean \<Rightarrow> True | _ \<Rightarrow> False))
         \<and> \<not> is_cat)"

subsection \<open>Laws\<close>

lemma field_dtype_set_field: "field_dtype f \<in> set_field f"
  by (cases f) simp

lemma dt_eq_refl [simp]: "dt_eq t t"
proof (induction t)
  case (Struct fields)
  then show ?case
    using field_dtype_set_field by (fastforce simp: list_all_iff zip_same)
qed (auto split: option.splits unknown_kind.splits)

lemma list_all_zip_flip:
  assumes "length xs = length ys"
    and "\<And>x y. x \<in> set xs \<Longrightarrow> P x y = Q y x"
  shows "list_all (\<lambda>(x, y). P x y) (zip xs ys) = list_all (\<lambda>(y, x). Q y x) (zip ys xs)"
  using assms by (induction xs ys rule: list_induct2) auto

lemma dt_eq_sym: "dt_eq l r = dt_eq r l"
proof (induction l arbitrary: r)
  case (Struct fields)
  show ?case
  proof (cases r)
    case (Struct gs)
    show ?thesis
    proof (cases "length fields = length gs")
      case True
      have "(field_name f = field_name g \<and> dt_eq (field_dtype f) (field_dtype g))
          = (field_name g = field_name f \<and> dt_eq (field_dtype g) (field_dtype f))"
        if "f \<in> set fields" for f g
        using Struct.IH [OF that field_dtype_set_field] by auto
      from list_all_zip_flip [OF True this] show ?thesis
        using True \<open>r = Struct gs\<close> by simp
    qed (auto simp: \<open>r = Struct gs\<close>)
  qed simp_all
next
  case (Enum m o')
  show ?case
    by (cases r) (auto split: option.splits)
next
  case (Unknown k)
  show ?case
    by (cases r) (auto split: unknown_kind.splits)
qed (case_tac r; auto)+

lemma dt_eq_discriminant: "dt_eq l r \<Longrightarrow> discriminant l = discriminant r"
  by (cases l; cases r) simp_all

lemma to_physical_idem [simp]: "to_physical (to_physical t) = to_physical t"
proof (induction t)
  case (Struct fields)
  then show ?case
    using field_dtype_set_field by (fastforce simp: comp_def)
qed simp_all

text \<open>
  C29.  The equality of data types is reflexive and symmetric and agrees with the hash, so
  that equal types fall into the same bucket. It is coarser than the types: it ignores the
  precision and scale of decimals and the value of a dynamic integer, and it is not
  transitive, since an enum without categories equals every enum.
\<close>

theorem data_type_equality:
  "dt_eq t t
   \<and> dt_eq l r = dt_eq r l
   \<and> (dt_eq l r \<longrightarrow> dt_hash l = dt_hash r)
   \<and> dt_eq (Decimal p s) (Decimal p' s')
   \<and> dt_eq (Unknown (Kind_Int v)) (Unknown (Kind_Int w))
   \<and> (get_categories m \<noteq> get_categories n \<longrightarrow>
        dt_eq (Enum (Some m) a) (Enum None b) \<and> dt_eq (Enum None b) (Enum (Some n) c)
        \<and> \<not> dt_eq (Enum (Some m) a) (Enum (Some n) c))"
  using dt_eq_sym [of l r] dt_eq_discriminant [of l r] by (auto simp: dt_hash_def)

theorem data_type_equality_witness:
  "dt_hash (List Date) = dt_hash (List Date)
   \<and> \<not> dt_eq (Enum (Some (Local [Some ''a''] 1)) Physical) (Enum (Some (Local [Some ''b''] 2)) Lexical)"
  using data_type_equality [of Date "List Date" "List Date" None None None None 0 0
      "Local [Some ''a''] 1" "Local [Some ''b''] 2" Physical Physical Lexical]
  by (auto simp: get_categories_def)

subsection \<open>Agreement with a schema\<close>













end
