(* ===== verification/ArrowConv.thy ===== *)
theory ArrowConv
  imports DataTypes
begin

section \<open>Conversions between logical, Arrow and serialised types\<close>

text \<open>
  The conversion of a logical type to the Arrow type that stores it and back
  (\<open>try_to_arrow\<close> of \<open>dtype.rs\<close>, \<open>from_arrow\<close> of \<open>field.rs\<close>), and the conversion to the
  type that is serialised and back (\<open>_serde.rs\<close>).  A panic is \<open>Inl Panic\<close>; the error
  value of an invalid decimal precision is \<open>Inl (Err e)\<close>.  The compatibility level is
  the number in \<open>CompatLevel\<close>.
\<close>

lemma af_dtype_size [termination_simp]: "size (af_dtype f) < Suc (size_arrow_field size f)"
  by (cases f) simp

lemma af_dtype_size_list [termination_simp]:
  assumes "f \<in> set fs"
  shows "size (af_dtype f) < Suc (size_list (size_arrow_field size) fs)"
proof -
  have "size (af_dtype f) \<le> size_arrow_field size f"
    by (cases f) simp
  also have "\<dots> \<le> size_list (size_arrow_field size) fs"
    by (rule size_list_estimation' [OF assms]) simp
  finally show ?thesis
    by simp
qed

subsection \<open>Time units and time zones\<close>

fun time_unit_to_arrow :: "time_unit \<Rightarrow> arrow_time_unit" where
  "time_unit_to_arrow Nanoseconds = Nanosecond"
| "time_unit_to_arrow Microseconds = Microsecond"
| "time_unit_to_arrow Milliseconds = Millisecond"

fun time_unit_from_arrow :: "arrow_time_unit \<Rightarrow> time_unit" where
  "time_unit_from_arrow Nanosecond = Nanoseconds"
| "time_unit_from_arrow Microsecond = Microseconds"
| "time_unit_from_arrow Millisecond = Milliseconds"
| "time_unit_from_arrow Second = Milliseconds"

definition canonical_timezone :: "string option \<Rightarrow> string option" where
  "canonical_timezone tz =
     (case tz of
        None \<Rightarrow> None
      | Some v \<Rightarrow>
          if v = '''' then None
          else if v = ''+00:00'' \<or> v = ''00:00'' \<or> v = ''utc'' then Some ''UTC''
          else Some v)"

subsection \<open>To Arrow\<close>

definition unwrap :: "'a res \<Rightarrow> 'a res" where
  "unwrap r = (case r of Inl (Err _) \<Rightarrow> Inl Panic | _ \<Rightarrow> r)"

definition arrow_field_new :: "string \<Rightarrow> 'a \<Rightarrow> bool \<Rightarrow> 'a arrow_field" where
  "arrow_field_new name dtype nullable = ArrowField name dtype nullable []"

definition with_metadata :: "'a arrow_field \<Rightarrow> metadata \<Rightarrow> 'a arrow_field" where
  "with_metadata f m = ArrowField (af_name f) (af_dtype f) (is_nullable f) m"

definition arrow_metadata :: "data_type \<Rightarrow> metadata option" where
  "arrow_metadata t =
     (case t of
        Enum _ _ \<Rightarrow> Some [(''POLARS.CATEGORICAL_TYPE'', ''ENUM'')]
      | BinaryOffset \<Rightarrow> Some [(''pl'', ''maintain_type'')]
      | _ \<Rightarrow> None)"

text \<open>
  A nested type calls the conversion of its parts, and a dynamic integer that of the
  machine integer it materialises to, which converts without a further call.
\<close>

definition arrow_rank :: "data_type \<Rightarrow> nat" where
  "arrow_rank t = 6 * size t + (case t of Unknown _ \<Rightarrow> 3 | _ \<Rightarrow> 0)"

lemma arrow_rank_any_value: "arrow_rank (any_value_dtype v) = 0"
  by (cases v) (simp_all add: arrow_rank_def)

lemma arrow_rank_nested:
  "size s < size t \<Longrightarrow> arrow_rank s + 2 < arrow_rank t"
  unfolding arrow_rank_def by (cases s) auto

function (sequential)
  try_to_arrow :: "nat \<Rightarrow> data_type \<Rightarrow> arrow_data_type res" and
  to_arrow :: "nat \<Rightarrow> data_type \<Rightarrow> arrow_data_type res" and
  to_arrow_field :: "nat \<Rightarrow> data_type \<Rightarrow> string \<Rightarrow> arrow_data_type arrow_field res"
where
  "try_to_arrow lvl Boolean = Inr ArrowBoolean"
| "try_to_arrow lvl UInt8 = Inr ArrowUInt8"
| "try_to_arrow lvl UInt16 = Inr ArrowUInt16"
| "try_to_arrow lvl UInt32 = Inr ArrowUInt32"
| "try_to_arrow lvl UInt64 = Inr ArrowUInt64"
| "try_to_arrow lvl Int8 = Inr ArrowInt8"
| "try_to_arrow lvl Int16 = Inr ArrowInt16"
| "try_to_arrow lvl Int32 = Inr ArrowInt32"
| "try_to_arrow lvl Int64 = Inr ArrowInt64"
| "try_to_arrow lvl Float32 = Inr ArrowFloat32"
| "try_to_arrow lvl Float64 = Inr ArrowFloat64"
| "try_to_arrow lvl (Decimal precision scale) =
     (let p = (case precision of None \<Rightarrow> 38 | Some p \<Rightarrow> p) in
      if p \<le> 38 \<and> 0 < p
      then Inr (ArrowDecimal p (case scale of None \<Rightarrow> 0 | Some s \<Rightarrow> s))
      else Inl (Err ''decimal precision should be <= 38 & >= 1''))"
| "try_to_arrow lvl String = Inr (if 1 \<le> lvl then ArrowUtf8View else ArrowLargeUtf8)"
| "try_to_arrow lvl Binary = Inr (if 1 \<le> lvl then ArrowBinaryView else ArrowLargeBinary)"
| "try_to_arrow lvl Date = Inr ArrowDate32"
| "try_to_arrow lvl (Datetime unit tz) = Inr (ArrowTimestamp (time_unit_to_arrow unit) tz)"
| "try_to_arrow lvl (Duration unit) = Inr (ArrowDuration (time_unit_to_arrow unit))"
| "try_to_arrow lvl Time = Inr (ArrowTime64 Nanosecond)"
| "try_to_arrow lvl (Array dt n) =
     rbind (to_arrow_field lvl dt ''item'') (\<lambda>f. Inr (ArrowFixedSizeList f n))"
| "try_to_arrow lvl (List dt) =
     rbind (to_arrow_field lvl dt ''item'') (\<lambda>f. Inr (ArrowLargeList f))"
| "try_to_arrow lvl Null = Inr ArrowNull"
| "try_to_arrow lvl (Object _ reg) = Inr (case reg of Some dt \<Rightarrow> dt | None \<Rightarrow> ArrowUnknown)"
| "try_to_arrow lvl (Categorical _ _) =
     Inr (ArrowDictionary IUInt32 (if 1 \<le> lvl then ArrowUtf8View else ArrowLargeUtf8) False)"
| "try_to_arrow lvl (Enum _ _) =
     Inr (ArrowDictionary IUInt32 (if 1 \<le> lvl then ArrowUtf8View else ArrowLargeUtf8) False)"
| "try_to_arrow lvl (Struct fields) =
     rbind (rmap (\<lambda>fld. to_arrow_field lvl (field_dtype fld) (field_name fld)) fields)
       (\<lambda>fs. Inr (ArrowStruct fs))"
| "try_to_arrow lvl BinaryOffset = Inr ArrowLargeBinary"
| "try_to_arrow lvl (Unknown kind) =
     (case kind of
        Kind_Any \<Rightarrow> Inr ArrowUnknown
      | Kind_Float \<Rightarrow> Inr ArrowFloat64
      | Kind_Str \<Rightarrow> Inr ArrowUtf8View
      | Kind_Int v \<Rightarrow> try_to_arrow lvl (any_value_dtype (materialize_dyn_int v)))"
| "to_arrow lvl t = unwrap (try_to_arrow lvl t)"
| "to_arrow_field lvl t name =
     rbind (to_arrow lvl t) (\<lambda>dt.
       let field = arrow_field_new name dt True in
       Inr (case arrow_metadata t of Some m \<Rightarrow> with_metadata field m | None \<Rightarrow> field))"
  by pat_completeness auto

termination
proof (relation "measure (\<lambda>x. case x of Inl (l, t) \<Rightarrow> arrow_rank t
       | Inr (Inl (l, t)) \<Rightarrow> arrow_rank t + 1 | Inr (Inr (l, t, n)) \<Rightarrow> arrow_rank t + 2)")
qed (auto simp: arrow_rank_any_value intro!: arrow_rank_nested [simplified] field_dtype_size,
    simp add: arrow_rank_def)

subsection \<open>From Arrow\<close>

fun from_arrow :: "bool \<Rightarrow> arrow_data_type \<Rightarrow> data_type res" where
  "from_arrow bin_to_view ArrowNull = Inr Null"
| "from_arrow bin_to_view ArrowUInt8 = Inr UInt8"
| "from_arrow bin_to_view ArrowUInt16 = Inr UInt16"
| "from_arrow bin_to_view ArrowUInt32 = Inr UInt32"
| "from_arrow bin_to_view ArrowUInt64 = Inr UInt64"
| "from_arrow bin_to_view ArrowInt8 = Inr Int8"
| "from_arrow bin_to_view ArrowInt16 = Inr Int16"
| "from_arrow bin_to_view ArrowInt32 = Inr Int32"
| "from_arrow bin_to_view ArrowInt64 = Inr Int64"
| "from_arrow bin_to_view ArrowBoolean = Inr Boolean"
| "from_arrow bin_to_view ArrowFloat32 = Inr Float32"
| "from_arrow bin_to_view ArrowFloat64 = Inr Float64"
| "from_arrow bin_to_view (ArrowFixedSizeList f n) =
     rbind (from_arrow bin_to_view (af_dtype f)) (\<lambda>dt. Inr (Array dt n))"
| "from_arrow bin_to_view (ArrowLargeList f) =
     rbind (from_arrow bin_to_view (af_dtype f)) (\<lambda>dt. Inr (List dt))"
| "from_arrow bin_to_view (ArrowList f) =
     rbind (from_arrow bin_to_view (af_dtype f)) (\<lambda>dt. Inr (List dt))"
| "from_arrow bin_to_view ArrowDate32 = Inr Date"
| "from_arrow bin_to_view (ArrowTimestamp tu tz) =
     Inr (Datetime (time_unit_from_arrow tu) (canonical_timezone tz))"
| "from_arrow bin_to_view (ArrowDuration tu) = Inr (Duration (time_unit_from_arrow tu))"
| "from_arrow bin_to_view ArrowDate64 = Inr (Datetime Milliseconds None)"
| "from_arrow bin_to_view (ArrowTime64 _) = Inr Time"
| "from_arrow bin_to_view (ArrowTime32 _) = Inr Time"
| "from_arrow bin_to_view (ArrowDictionary _ _ _) = Inr (Categorical None Physical)"
| "from_arrow bin_to_view (ArrowStruct fields) =
     rbind (rmap (\<lambda>f. rbind (from_arrow True (af_dtype f)) (\<lambda>dt. Inr (Field (af_name f) dt))) fields)
       (\<lambda>fs. Inr (Struct fs))"
| "from_arrow bin_to_view (ArrowExtension name _ _) =
     (if name = ''POLARS_EXTENSION_TYPE'' then Inr (Object ''extension'' None) else Inl Panic)"
| "from_arrow bin_to_view (ArrowDecimal precision scale) =
     Inr (Decimal (Some precision) (Some scale))"
| "from_arrow bin_to_view ArrowUtf8View = Inr String"
| "from_arrow bin_to_view ArrowLargeUtf8 = Inr String"
| "from_arrow bin_to_view ArrowUtf8 = Inr String"
| "from_arrow bin_to_view ArrowBinaryView = Inr Binary"
| "from_arrow bin_to_view ArrowLargeBinary = Inr (if bin_to_view then Binary else BinaryOffset)"
| "from_arrow bin_to_view ArrowBinary = Inr (if bin_to_view then Binary else BinaryOffset)"
| "from_arrow bin_to_view (ArrowFixedSizeBinary _) = Inr Binary"
| "from_arrow bin_to_view _ = Inl Panic"

text \<open>\<open>From<&ArrowField> for Field\<close>.\<close>

definition field_from_arrow :: "arrow_data_type arrow_field \<Rightarrow> data_type field res" where
  "field_from_arrow f = rbind (from_arrow True (af_dtype f)) (\<lambda>dt. Inr (Field (af_name f) dt))"

lemma from_arrow_struct:
  "from_arrow b (ArrowStruct fields) = rbind (rmap field_from_arrow fields) (\<lambda>fs. Inr (Struct fs))"
  by (simp add: field_from_arrow_def [abs_def])

subsection \<open>The types that Arrow represents exactly\<close>

fun arrow_exact :: "data_type \<Rightarrow> bool" where
  "arrow_exact (Decimal p s) =
     (case (p, s) of (Some p', Some _) \<Rightarrow> 0 < p' \<and> p' \<le> 38 | _ \<Rightarrow> False)"
| "arrow_exact (Datetime tu tz) = (canonical_timezone tz = tz)"
| "arrow_exact (Array dt _) = arrow_exact dt"
| "arrow_exact (List dt) = arrow_exact dt"
| "arrow_exact (Struct fields) = list_all (\<lambda>f. arrow_exact (field_dtype f)) fields"
| "arrow_exact (Categorical m o') = (m = None \<and> o' = Physical)"
| "arrow_exact (Object _ _) = False"
| "arrow_exact (Enum _ _) = False"
| "arrow_exact BinaryOffset = False"
| "arrow_exact (Unknown _) = False"
| "arrow_exact _ = True"

lemma time_unit_round_trip [simp]: "time_unit_from_arrow (time_unit_to_arrow tu) = tu"
  by (cases tu) simp_all

lemma unwrap_Inr [simp]: "unwrap (Inr a) = Inr a"
  by (simp add: unwrap_def)

lemma unwrap_eq_Inr [simp]: "unwrap r = Inr a \<longleftrightarrow> r = Inr a"
  by (auto simp: unwrap_def split: sum.splits fault.splits)

lemma arrow_exact_no_metadata: "arrow_exact t \<Longrightarrow> arrow_metadata t = None"
  by (cases t) (simp_all add: arrow_metadata_def)

text \<open>The conversion back recovers the name and the type from the field of an exact type.\<close>

lemma to_arrow_field_exact:
  assumes "arrow_exact t" and "try_to_arrow lvl t = Inr a"
  shows "to_arrow_field lvl t name = Inr (ArrowField name a True [])"
  using assms by (simp add: arrow_exact_no_metadata arrow_field_new_def)

lemma try_to_arrow_exact:
  assumes "arrow_exact t" and "b \<or> 1 \<le> lvl"
  shows "\<exists>a. try_to_arrow lvl t = Inr a \<and> from_arrow b a = Inr t"
  using assms
proof (induction t arbitrary: b)
  case (Struct fields)
  define arr where "arr = (\<lambda>f. SOME a. try_to_arrow lvl (field_dtype f) = Inr a
    \<and> from_arrow True a = Inr (field_dtype f))"
  have arr: "try_to_arrow lvl (field_dtype f) = Inr (arr f)"
       "from_arrow True (arr f) = Inr (field_dtype f)" "arrow_exact (field_dtype f)"
    if "f \<in> set fields" for f
  proof -
    have exact: "arrow_exact (field_dtype f)"
      using Struct.prems(1) that by (auto simp: list_all_iff)
    have "field_dtype f \<in> set_field f"
      by (cases f) simp
    then have "\<exists>a. try_to_arrow lvl (field_dtype f) = Inr a \<and> from_arrow True a = Inr (field_dtype f)"
      using Struct.IH [OF that _ exact, of True] by simp
    then show "try_to_arrow lvl (field_dtype f) = Inr (arr f)"
      and "from_arrow True (arr f) = Inr (field_dtype f)"
      unfolding arr_def by (auto intro: someI2)
    show "arrow_exact (field_dtype f)"
      by (rule exact)
  qed
  have "rmap (\<lambda>f. to_arrow_field lvl (field_dtype f) (field_name f)) fields
      = Inr (map (\<lambda>f. ArrowField (field_name f) (arr f) True []) fields)"
    by (intro rmap_Inr to_arrow_field_exact arr)
  moreover have "rmap field_from_arrow (map (\<lambda>f. ArrowField (field_name f) (arr f) True []) fields)
      = Inr (map (\<lambda>f. f) fields)"
    using arr(2) by (induction fields) (simp_all add: field_from_arrow_def)
  ultimately show ?case
    by (simp add: from_arrow_struct del: from_arrow.simps to_arrow_field.simps)
next
  case (Array t n)
  then obtain a where "try_to_arrow lvl t = Inr a" "from_arrow b a = Inr t" "arrow_exact t"
    by auto
  then show ?case
    by (simp add: to_arrow_field_exact del: to_arrow_field.simps)
next
  case (List t)
  then obtain a where "try_to_arrow lvl t = Inr a" "from_arrow b a = Inr t" "arrow_exact t"
    by auto
  then show ?case
    by (simp add: to_arrow_field_exact del: to_arrow_field.simps)
qed (auto split: option.splits)

text \<open>
  C18.  A logical type that Arrow represents exactly converts to an Arrow type, at every
  compatibility level, from which the original type is read back, however deeply it is
  nested: the type survives storage, including every field name, width, time unit, time
  zone, precision and scale.
\<close>

theorem arrow_round_trip:
  assumes "arrow_exact t" and "bin_to_view \<or> 1 \<le> lvl"
  shows "rbind (to_arrow lvl t) (from_arrow bin_to_view) = Inr t"
  using try_to_arrow_exact [OF assms] by auto

theorem arrow_round_trip_witness:
  "rbind (to_arrow 0 (Struct [Field ''a'' (List (Decimal (Some 10) (Some 2))),
       Field ''b'' (Array (Datetime Microseconds (Some ''UTC'')) 3)])) (from_arrow True)
   = Inr (Struct [Field ''a'' (List (Decimal (Some 10) (Some 2))),
       Field ''b'' (Array (Datetime Microseconds (Some ''UTC'')) 3)])"
  by (rule arrow_round_trip) (simp_all add: canonical_timezone_def)

subsection \<open>Invalid decimals\<close>

fun has_bad_decimal :: "data_type \<Rightarrow> bool" where
  "has_bad_decimal (Decimal p s) = (case p of None \<Rightarrow> False | Some p' \<Rightarrow> p' = 0 \<or> 38 < p')"
| "has_bad_decimal (Array dt _) = has_bad_decimal dt"
| "has_bad_decimal (List dt) = has_bad_decimal dt"
| "has_bad_decimal (Struct fields) = list_ex (\<lambda>f. has_bad_decimal (field_dtype f)) fields"
| "has_bad_decimal _ = False"

lemma rmap_faults:
  assumes "\<And>x. x \<in> set xs \<Longrightarrow> f x = Inl Panic \<and> bad x \<or> (\<exists>y. f x = Inr y) \<and> \<not> bad x"
  shows "rmap f xs = Inl Panic \<and> list_ex bad xs \<or> (\<exists>ys. rmap f xs = Inr ys) \<and> \<not> list_ex bad xs"
  using assms by (induction xs) fastforce+

definition arrow_outcome :: "data_type \<Rightarrow> arrow_data_type res \<Rightarrow> bool" where
  "arrow_outcome t r \<longleftrightarrow>
     (case r of
        Inr _ \<Rightarrow> \<not> has_bad_decimal t
      | Inl (Err _) \<Rightarrow> has_bad_decimal t \<and> is_decimal t
      | Inl Panic \<Rightarrow> has_bad_decimal t \<and> is_nested t
      | Inl UB \<Rightarrow> False)"

lemma to_arrow_field_outcome:
  assumes "arrow_outcome t (try_to_arrow lvl t)"
  shows "to_arrow_field lvl t name = Inl Panic \<and> has_bad_decimal t
       \<or> (\<exists>f. to_arrow_field lvl t name = Inr f) \<and> \<not> has_bad_decimal t"
  using assms by (auto simp: arrow_outcome_def unwrap_def Let_def split: sum.splits fault.splits)

text \<open>
  C32.  The fallible conversion to Arrow returns its error only when the type itself is a
  decimal of invalid precision. When the invalid decimal is inside a list, an array or a
  struct, the conversion panics instead, because it converts the parts with the infallible
  conversion; every other type converts.
\<close>

theorem try_to_arrow_outcome: "arrow_outcome t (try_to_arrow lvl t)"
proof (induction t)
  case (Array t n)
  from to_arrow_field_outcome [OF Array, of "''item''"] show ?case
    by (auto simp: arrow_outcome_def dt_defs simp del: to_arrow_field.simps)
next
  case (List t)
  from to_arrow_field_outcome [OF List, of "''item''"] show ?case
    by (auto simp: arrow_outcome_def dt_defs simp del: to_arrow_field.simps)
next
  case (Struct fields)
  have "to_arrow_field lvl (field_dtype f) (field_name f) = Inl Panic \<and> has_bad_decimal (field_dtype f)
      \<or> (\<exists>g. to_arrow_field lvl (field_dtype f) (field_name f) = Inr g) \<and> \<not> has_bad_decimal (field_dtype f)"
    if "f \<in> set fields" for f
    by (rule to_arrow_field_outcome, rule Struct.IH [OF that]) (cases f, simp)
  from rmap_faults [of fields "\<lambda>f. to_arrow_field lvl (field_dtype f) (field_name f)"
      "\<lambda>f. has_bad_decimal (field_dtype f)", OF this]
  show ?case
    by (auto simp: arrow_outcome_def dt_defs simp del: to_arrow_field.simps)
next
  case (Unknown k)
  show ?case
    by (cases k) (simp_all add: arrow_outcome_def materialize_dyn_int_def)
qed (auto simp: arrow_outcome_def dt_defs split: option.splits)

subsection \<open>The serialised types\<close>

text \<open>
  \<open>SerializableDataType\<close>: the form a type is converted to before it is written. The fields of a
  struct keep the type of their columns; that type is the parameter \<open>'f\<close>, a data type in the
  program, and its written form in \<open>serialized\<close>, which is what the serialiser hands to the
  data format; the format itself is left out.
  Categories are the only part of a reverse mapping that is kept; reading them back
  rebuilds a local mapping, whose hash is the parameter \<open>build_hash\<close>.
\<close>

datatype 'f serializable_data_type =
    SBoolean | SUInt8 | SUInt16 | SUInt32 | SUInt64 | SInt8 | SInt16 | SInt32 | SInt64
  | SFloat32 | SFloat64 | SString | SBinary | SDate
  | SDatetime time_unit "string option"
  | SDuration time_unit
  | STime
  | SList "'f serializable_data_type"
  | SArray "'f serializable_data_type" nat
  | SNull
  | SStruct "'f field list"
  | SUnknown unknown_kind
  | SCategorical "string option list option" categorical_ordering
  | SDecimal "nat option" "nat option"
  | SEnum "string option list option" categorical_ordering
  | SObject string

datatype serialized = Serialized "serialized serializable_data_type"

fun to_serializable :: "data_type \<Rightarrow> data_type serializable_data_type res" where
  "to_serializable Boolean = Inr SBoolean"
| "to_serializable UInt8 = Inr SUInt8"
| "to_serializable UInt16 = Inr SUInt16"
| "to_serializable UInt32 = Inr SUInt32"
| "to_serializable UInt64 = Inr SUInt64"
| "to_serializable Int8 = Inr SInt8"
| "to_serializable Int16 = Inr SInt16"
| "to_serializable Int32 = Inr SInt32"
| "to_serializable Int64 = Inr SInt64"
| "to_serializable Float32 = Inr SFloat32"
| "to_serializable Float64 = Inr SFloat64"
| "to_serializable String = Inr SString"
| "to_serializable Binary = Inr SBinary"
| "to_serializable Date = Inr SDate"
| "to_serializable (Datetime tu tz) = Inr (SDatetime tu tz)"
| "to_serializable (Duration tu) = Inr (SDuration tu)"
| "to_serializable Time = Inr STime"
| "to_serializable (List dt) = rbind (to_serializable dt) (\<lambda>s. Inr (SList s))"
| "to_serializable (Array dt width) = rbind (to_serializable dt) (\<lambda>s. Inr (SArray s width))"
| "to_serializable Null = Inr SNull"
| "to_serializable (Unknown kind) = Inr (SUnknown kind)"
| "to_serializable (Struct flds) = Inr (SStruct flds)"
| "to_serializable (Categorical _ ord) = Inr (SCategorical None ord)"
| "to_serializable (Enum rev_map ord) =
     Inr (SEnum (case rev_map of Some m \<Rightarrow> Some (get_categories m) | None \<Rightarrow> None) ord)"
| "to_serializable (Decimal precision scale) = Inr (SDecimal precision scale)"
| "to_serializable (Object name _) = Inr (SObject name)"
| "to_serializable BinaryOffset = Inl Panic"

definition build_local :: "(string option list \<Rightarrow> 128 word) \<Rightarrow> string option list \<Rightarrow> rev_mapping" where
  "build_local build_hash categories = Local categories (build_hash categories)"

definition create_enum_dtype :: "(string option list \<Rightarrow> 128 word) \<Rightarrow> string option list \<Rightarrow> data_type" where
  "create_enum_dtype build_hash categories = Enum (Some (build_local build_hash categories)) Physical"

fun of_serializable :: "(string option list \<Rightarrow> 128 word) \<Rightarrow> data_type serializable_data_type \<Rightarrow> data_type" where
  "of_serializable h SBoolean = Boolean"
| "of_serializable h SUInt8 = UInt8"
| "of_serializable h SUInt16 = UInt16"
| "of_serializable h SUInt32 = UInt32"
| "of_serializable h SUInt64 = UInt64"
| "of_serializable h SInt8 = Int8"
| "of_serializable h SInt16 = Int16"
| "of_serializable h SInt32 = Int32"
| "of_serializable h SInt64 = Int64"
| "of_serializable h SFloat32 = Float32"
| "of_serializable h SFloat64 = Float64"
| "of_serializable h SString = String"
| "of_serializable h SBinary = Binary"
| "of_serializable h SDate = Date"
| "of_serializable h (SDatetime tu tz) = Datetime tu tz"
| "of_serializable h (SDuration tu) = Duration tu"
| "of_serializable h STime = Time"
| "of_serializable h (SList dt) = List (of_serializable h dt)"
| "of_serializable h (SArray dt width) = Array (of_serializable h dt) width"
| "of_serializable h SNull = Null"
| "of_serializable h (SUnknown kind) = Unknown kind"
| "of_serializable h (SStruct flds) = Struct flds"
| "of_serializable h (SCategorical _ ord) = Categorical None ord"
| "of_serializable h (SEnum (Some categories) _) = create_enum_dtype h categories"
| "of_serializable h (SEnum None ord) = Enum None ord"
| "of_serializable h (SDecimal precision scale) = Decimal precision scale"
| "of_serializable h (SObject _) = Object ''unknown'' None"

text \<open>
  Writing. The derived serialiser of \<open>SerializableDataType\<close> follows its parts; a field of a
  struct is written through the serialiser of \<open>DataType\<close> again (\<open>write\<close>), which converts it
  first. A category array is written value by value without its validity, so that a null
  category is written as the string stored under it, the parameter \<open>null_slot\<close>.
\<close>

definition write_categories :: "string \<Rightarrow> string option list \<Rightarrow> string option list" where
  "write_categories null_slot cats = map (\<lambda>c. Some (case c of None \<Rightarrow> null_slot | Some v \<Rightarrow> v)) cats"

fun write_serializable ::
    "string \<Rightarrow> ('f \<Rightarrow> 'g res) \<Rightarrow> 'f serializable_data_type \<Rightarrow> 'g serializable_data_type res" where
  "write_serializable v write SBoolean = Inr SBoolean"
| "write_serializable v write SUInt8 = Inr SUInt8"
| "write_serializable v write SUInt16 = Inr SUInt16"
| "write_serializable v write SUInt32 = Inr SUInt32"
| "write_serializable v write SUInt64 = Inr SUInt64"
| "write_serializable v write SInt8 = Inr SInt8"
| "write_serializable v write SInt16 = Inr SInt16"
| "write_serializable v write SInt32 = Inr SInt32"
| "write_serializable v write SInt64 = Inr SInt64"
| "write_serializable v write SFloat32 = Inr SFloat32"
| "write_serializable v write SFloat64 = Inr SFloat64"
| "write_serializable v write SString = Inr SString"
| "write_serializable v write SBinary = Inr SBinary"
| "write_serializable v write SDate = Inr SDate"
| "write_serializable v write (SDatetime tu tz) = Inr (SDatetime tu tz)"
| "write_serializable v write (SDuration tu) = Inr (SDuration tu)"
| "write_serializable v write STime = Inr STime"
| "write_serializable v write (SList dt) = rbind (write_serializable v write dt) (\<lambda>s. Inr (SList s))"
| "write_serializable v write (SArray dt width) =
     rbind (write_serializable v write dt) (\<lambda>s. Inr (SArray s width))"
| "write_serializable v write SNull = Inr SNull"
| "write_serializable v write (SStruct flds) =
     rbind (rmap (\<lambda>f. rbind (write (field_dtype f)) (\<lambda>w. Inr (Field (field_name f) w))) flds)
       (\<lambda>fs. Inr (SStruct fs))"
| "write_serializable v write (SUnknown kind) = Inr (SUnknown kind)"
| "write_serializable v write (SCategorical cats ord) =
     Inr (SCategorical (map_option (write_categories v) cats) ord)"
| "write_serializable v write (SDecimal precision scale) = Inr (SDecimal precision scale)"
| "write_serializable v write (SEnum cats ord) = Inr (SEnum (map_option (write_categories v) cats) ord)"
| "write_serializable v write (SObject name) = Inr (SObject name)"

lemma write_serializable_cong [fundef_cong]:
  assumes "s = s'" and "v = v'" and "\<And>t. t \<in> set_serializable_data_type s' \<Longrightarrow> f t = g t"
  shows "write_serializable v f s = write_serializable v' g s'"
proof -
  have "write_serializable v f s = write_serializable v g s" if "\<And>t. t \<in> set_serializable_data_type s \<Longrightarrow> f t = g t"
    using that
  proof (induction s)
    case (SStruct flds)
    have "rmap (\<lambda>x. rbind (f (field_dtype x)) (\<lambda>w. Inr (Field (field_name x) w))) flds
        = rmap (\<lambda>x. rbind (g (field_dtype x)) (\<lambda>w. Inr (Field (field_name x) w))) flds"
      by (rule rmap_cong) (use SStruct field_dtype_set_field in \<open>fastforce\<close>)+
    then show ?case by simp
  qed simp_all
  with assms show ?thesis by simp
qed

lemma to_serializable_smaller:
  "to_serializable t = Inr s \<Longrightarrow> t' \<in> set_serializable_data_type s \<Longrightarrow> size t' < size t"
proof (induction t arbitrary: s)
  case (Struct flds)
  then obtain f where "f \<in> set flds" "t' \<in> set_field f" by auto
  moreover from this(2) have "t' = field_dtype f" by (cases f) simp
  ultimately show ?case using field_dtype_size [of f flds] by simp
qed (auto simp: rbind_eq_Inr_iff dest: less_SucI)

text \<open>\<open>Serialize\<close> and \<open>Deserialize\<close> for \<open>DataType\<close>.\<close>

function serialize :: "string \<Rightarrow> data_type \<Rightarrow> serialized res" where
  "serialize null_slot t =
     rbind (to_serializable t) (\<lambda>s.
     rbind (write_serializable null_slot (serialize null_slot) s) (\<lambda>w. Inr (Serialized w)))"
  by auto
termination
  by (relation "measure (\<lambda>(v, t). size t)") (auto dest: to_serializable_smaller)

declare serialize.simps [simp del]

primrec deserialize :: "(string option list \<Rightarrow> 128 word) \<Rightarrow> serialized \<Rightarrow> data_type" where
  "deserialize h (Serialized s) = of_serializable h (map_serializable_data_type (deserialize h) s)"

subsection \<open>What serialisation keeps\<close>

fun has_offset_binary :: "data_type \<Rightarrow> bool" where
  "has_offset_binary BinaryOffset = True"
| "has_offset_binary (List t) = has_offset_binary t"
| "has_offset_binary (Array t _) = has_offset_binary t"
| "has_offset_binary (Struct flds) = list_ex (\<lambda>f. has_offset_binary (field_dtype f)) flds"
| "has_offset_binary _ = False"

fun null_free_categories :: "data_type \<Rightarrow> bool" where
  "null_free_categories (Enum (Some m) _) = (None \<notin> set (get_categories m))"
| "null_free_categories (List t) = null_free_categories t"
| "null_free_categories (Array t _) = null_free_categories t"
| "null_free_categories (Struct flds) = list_all (\<lambda>f. null_free_categories (field_dtype f)) flds"
| "null_free_categories _ = True"

fun rename_objects :: "data_type \<Rightarrow> data_type" where
  "rename_objects (Object _ r) = Object ''unknown'' r"
| "rename_objects (List t) = List (rename_objects t)"
| "rename_objects (Array t n) = Array (rename_objects t) n"
| "rename_objects (Struct flds) = Struct (map (\<lambda>f. Field (field_name f) (rename_objects (field_dtype f))) flds)"
| "rename_objects t = t"

lemma write_categories_id:
  assumes "None \<notin> set cats"
  shows "write_categories v cats = cats"
  unfolding write_categories_def
proof (rule map_idI)
  fix c assume "c \<in> set cats"
  with assms show "Some (case c of None \<Rightarrow> v | Some u \<Rightarrow> u) = c" by (cases c) auto
qed

lemma serialize_list:
  "serialize v (List t) = rbind (serialize v t) (\<lambda>w. case w of Serialized s \<Rightarrow> Inr (Serialized (SList s)))"
  "serialize v (Array t n) = rbind (serialize v t) (\<lambda>w. case w of Serialized s \<Rightarrow> Inr (Serialized (SArray s n)))"
  by (simp_all add: serialize.simps rbind_assoc)

lemma serialize_struct:
  "serialize v (Struct flds) =
     rbind (rmap (\<lambda>f. rbind (serialize v (field_dtype f)) (\<lambda>w. Inr (Field (field_name f) w))) flds)
       (\<lambda>fs. Inr (Serialized (SStruct fs)))"
  by (subst serialize.simps) (simp add: rbind_assoc)

definition serialize_outcome :: "string \<Rightarrow> (string option list \<Rightarrow> 128 word) \<Rightarrow> data_type \<Rightarrow> bool" where
  "serialize_outcome v h t \<longleftrightarrow>
     (if has_offset_binary t then serialize v t = Inl Panic
      else \<exists>w. serialize v t = Inr w \<and>
        (null_free_categories t \<longrightarrow> dt_eq (deserialize h w) (rename_objects t)))"

lemma serialize_outcome_struct:
  assumes "\<And>f. f \<in> set flds \<Longrightarrow> serialize_outcome v h (field_dtype f)"
  shows "serialize_outcome v h (Struct flds)"
proof (cases "has_offset_binary (Struct flds)")
  case True
  let ?f = "\<lambda>f. rbind (serialize v (field_dtype f)) (\<lambda>w. Inr (Field (field_name f) w))"
  have "?f f = Inl Panic \<and> has_offset_binary (field_dtype f) \<or> (\<exists>y. ?f f = Inr y) \<and> \<not> has_offset_binary (field_dtype f)"
    if "f \<in> set flds" for f
    using assms [OF that] by (auto simp: serialize_outcome_def split: if_splits)
  from rmap_faults [of flds ?f, OF this] True show ?thesis
    by (auto simp: serialize_outcome_def serialize_struct)
next
  case False
  define w where "w = (\<lambda>f. projr (serialize v (field_dtype f)))"
  have w: "serialize v (field_dtype f) = Inr (w f)"
    "null_free_categories (field_dtype f) \<longrightarrow> dt_eq (deserialize h (w f)) (rename_objects (field_dtype f))"
    if "f \<in> set flds" for f
    using assms [OF that] False that by (auto simp: w_def serialize_outcome_def list_ex_iff split: if_splits)
  have "rmap (\<lambda>f. rbind (serialize v (field_dtype f)) (\<lambda>w. Inr (Field (field_name f) w))) flds
      = Inr (map (\<lambda>f. Field (field_name f) (w f)) flds)"
    by (rule rmap_Inr) (simp add: w(1))
  then have "serialize v (Struct flds) = Inr (Serialized (SStruct (map (\<lambda>f. Field (field_name f) (w f)) flds)))"
    by (simp add: serialize_struct)
  then show ?thesis
    using False w(2) by (auto simp: serialize_outcome_def list_all_iff zip_map_map zip_same)
qed

lemma serialize_outcome_all: "serialize_outcome v h t"
proof (induction t)
  case (Struct flds)
  then show ?case using field_dtype_set_field by (blast intro: serialize_outcome_struct)
next
  case (Enum m ord)
  show ?case
    by (cases m) (auto simp: serialize_outcome_def serialize.simps create_enum_dtype_def build_local_def
        get_categories_def write_categories_id split: rev_mapping.split)
next
  case (List t)
  then show ?case
    by (auto simp: serialize_outcome_def serialize_list split: if_splits serialized.splits)
next
  case (Array t n)
  then show ?case
    by (auto simp: serialize_outcome_def serialize_list split: if_splits serialized.splits)
qed (simp_all add: serialize_outcome_def serialize.simps)

text \<open>
  C33.  A type that contains the type of offset binaries, alone or inside lists, arrays and
  the fields of structs, cannot be serialised: the conversion panics. Every other type is
  written, and if no category array in it has a null, it is read back equal to the original
  with every object type in it renamed to \<open>unknown\<close>.
\<close>

theorem serde_round_trip:
  "(has_offset_binary t \<longrightarrow> serialize null_slot t = Inl Panic)
   \<and> (\<not> has_offset_binary t \<longrightarrow>
        (\<exists>w. serialize null_slot t = Inr w
           \<and> (null_free_categories t \<longrightarrow> dt_eq (deserialize h w) (rename_objects t))))"
  using serialize_outcome_all [of null_slot h t] by (auto simp: serialize_outcome_def split: if_splits)

theorem serde_round_trip_witness:
  "serialize '''' (Struct [Field ''a'' Int8, Field ''b'' (List BinaryOffset)]) = Inl Panic
   \<and> (\<exists>w. serialize '''' (Struct [Field ''a'' (Enum (Some (Global [] [Some ''x''] 1)) Lexical), Field ''b'' (Object ''py'' None)])
          = Inr w
        \<and> dt_eq (deserialize (\<lambda>_. 0) w)
            (Struct [Field ''a'' (Enum (Some (Global [] [Some ''x''] 1)) Lexical), Field ''b'' (Object ''unknown'' None)]))"
  using serde_round_trip [of "Struct [Field ''a'' Int8, Field ''b'' (List BinaryOffset)]" "''''"]
    serde_round_trip [of "Struct [Field ''a'' (Enum (Some (Global [] [Some ''x''] 1)) Lexical), Field ''b'' (Object ''py'' None)]"
      "''''" "\<lambda>_. 0"]
  by (simp add: get_categories_def)

end
