(* ===== verification/Supertype.thy ===== *)
theory Supertype
  imports ArrowConv "HOL-Library.AList"
begin

section \<open>The common supertype of two data types\<close>

text \<open>
  \<open>polars-core/src/utils/supertype.rs\<close>: \<open>get_supertype\<close> and the functions it uses,
  \<open>dtypes_to_supertype\<close>, and \<open>get_time_units\<close> of \<open>utils/mod.rs\<close>.

  The code is recursive on the types it finds inside the arguments and on the types it has
  computed on the way. The model therefore runs on fuel: the result of a call is \<open>None\<close>
  when the fuel is used up, \<open>Some None\<close> when the code returns \<open>None\<close> and \<open>Some (Some t)\<close>
  when it returns the type \<open>t\<close>. The result \<open>None\<close> is never reached with the fuel
  \<open>supertype_fuel\<close>, and more fuel does not change the result.

  The insertion-ordered map of \<open>union_struct_fields\<close> comes from another package. Its
  operations are the components of a record, and \<open>index_map_ok\<close> states what its documentation
  says of them: an insertion at a new key appends the entry, an insertion at a key that is
  present replaces the value in place, and the iteration follows that order. The cargo
  feature \<open>bigidx\<close> is a field of the same environment.
\<close>

record ('k, 'v, 'm) index_map =
  im_from_iter :: "('k \<times> 'v) list \<Rightarrow> 'm"
  im_get :: "'m \<Rightarrow> 'k \<Rightarrow> 'v option"
  im_insert :: "'m \<Rightarrow> 'k \<Rightarrow> 'v \<Rightarrow> 'm"
  im_iter :: "'m \<Rightarrow> ('k \<times> 'v) list"

definition index_map_ok :: "('k, 'v, 'm) index_map \<Rightarrow> bool" where
  "index_map_ok im \<longleftrightarrow>
     (\<forall>kvs. im_iter im (im_from_iter im kvs) = fold (\<lambda>(k, v). AList.update k v) kvs [])
     \<and> (\<forall>m k v. im_iter im (im_insert im m k v) = AList.update k v (im_iter im m))
     \<and> (\<forall>m k. im_get im m k = map_of (im_iter im m) k)"

record 'm st_env =
  bigidx :: bool
  imap :: "(string, data_type, 'm) index_map"

type_synonym supertype_fn = "data_type \<Rightarrow> data_type \<Rightarrow> data_type option option"

text \<open>The operator \<open>?\<close> on an optional value.\<close>

definition ask :: "'a option option \<Rightarrow> ('a \<Rightarrow> 'b option option) \<Rightarrow> 'b option option" where
  "ask m f = (case m of None \<Rightarrow> None | Some None \<Rightarrow> Some None | Some (Some x) \<Rightarrow> f x)"

subsection \<open>Options\<close>

definition ALLOW_IMPLODE_LIST :: u8 where
  "ALLOW_IMPLODE_LIST = push_bit 0 1"

definition ALLOW_PRIMITIVE_TO_STRING :: u8 where
  "ALLOW_PRIMITIVE_TO_STRING = push_bit 1 1"

definition flags_contains :: "u8 \<Rightarrow> u8 \<Rightarrow> bool" where
  "flags_contains flags other \<longleftrightarrow> flags AND other = other"

definition default_options :: u8 where
  "default_options = 0 OR ALLOW_PRIMITIVE_TO_STRING"

definition allow_implode_list :: "u8 \<Rightarrow> bool" where
  "allow_implode_list flags = flags_contains flags ALLOW_IMPLODE_LIST"

definition allow_primitive_to_string :: "u8 \<Rightarrow> bool" where
  "allow_primitive_to_string flags = flags_contains flags ALLOW_PRIMITIVE_TO_STRING"

lemma default_options_simps [simp]:
  "allow_implode_list default_options = False"
  "allow_primitive_to_string default_options = True"
  by (simp_all add: allow_implode_list_def allow_primitive_to_string_def flags_contains_def
      default_options_def ALLOW_IMPLODE_LIST_def ALLOW_PRIMITIVE_TO_STRING_def)

subsection \<open>The arms of the match\<close>

definition get_time_units :: "time_unit \<Rightarrow> time_unit \<Rightarrow> time_unit" where
  "get_time_units tu_l tu_r =
     (if tu_l = Nanoseconds \<and> tu_r = Microseconds then Microseconds
      else if tu_r = Milliseconds then Milliseconds
      else tu_l)"

text \<open>The arms for pairs of types without parts, grouped by the left type as in the source.\<close>

definition int_arm :: "bool \<Rightarrow> data_type \<Rightarrow> data_type \<Rightarrow> data_type option" where
  "int_arm big l r =
     (case l of
        Int8 \<Rightarrow>
          (case r of
             Boolean \<Rightarrow> Some Int8 | Int16 \<Rightarrow> Some Int16 | Int32 \<Rightarrow> Some Int32 | Int64 \<Rightarrow> Some Int64
           | UInt8 \<Rightarrow> Some Int16 | UInt16 \<Rightarrow> Some Int32 | UInt32 \<Rightarrow> Some Int64
           | UInt64 \<Rightarrow> Some Float64 | Float32 \<Rightarrow> Some Float32 | Float64 \<Rightarrow> Some Float64
           | _ \<Rightarrow> None)
      | Int16 \<Rightarrow>
          (case r of
             Boolean \<Rightarrow> Some Int16 | Int8 \<Rightarrow> Some Int16 | Int32 \<Rightarrow> Some Int32 | Int64 \<Rightarrow> Some Int64
           | UInt8 \<Rightarrow> Some Int16 | UInt16 \<Rightarrow> Some Int32 | UInt32 \<Rightarrow> Some Int64
           | UInt64 \<Rightarrow> Some Float64 | Float32 \<Rightarrow> Some Float32 | Float64 \<Rightarrow> Some Float64
           | _ \<Rightarrow> None)
      | Int32 \<Rightarrow>
          (case r of
             Boolean \<Rightarrow> Some Int32 | Int8 \<Rightarrow> Some Int32 | Int16 \<Rightarrow> Some Int32 | Int64 \<Rightarrow> Some Int64
           | UInt8 \<Rightarrow> Some Int32 | UInt16 \<Rightarrow> Some Int32 | UInt32 \<Rightarrow> Some Int64
           | UInt64 \<Rightarrow> Some (if big then Int64 else Float64)
           | Float32 \<Rightarrow> Some Float64 | Float64 \<Rightarrow> Some Float64
           | _ \<Rightarrow> None)
      | Int64 \<Rightarrow>
          (case r of
             Boolean \<Rightarrow> Some Int64 | Int8 \<Rightarrow> Some Int64 | Int16 \<Rightarrow> Some Int64 | Int32 \<Rightarrow> Some Int64
           | UInt8 \<Rightarrow> Some Int64 | UInt16 \<Rightarrow> Some Int64 | UInt32 \<Rightarrow> Some Int64
           | UInt64 \<Rightarrow> Some (if big then Int64 else Float64)
           | Float32 \<Rightarrow> Some Float64 | Float64 \<Rightarrow> Some Float64
           | _ \<Rightarrow> None)
      | UInt16 \<Rightarrow>
          (case r of UInt8 \<Rightarrow> Some UInt16 | UInt32 \<Rightarrow> Some UInt32 | UInt64 \<Rightarrow> Some UInt64 | _ \<Rightarrow> None)
      | UInt8 \<Rightarrow> (case r of UInt32 \<Rightarrow> Some UInt32 | UInt64 \<Rightarrow> Some UInt64 | _ \<Rightarrow> None)
      | UInt32 \<Rightarrow> (case r of UInt64 \<Rightarrow> Some UInt64 | _ \<Rightarrow> None)
      | _ \<Rightarrow> None)"

definition bool_float_arm :: "data_type \<Rightarrow> data_type \<Rightarrow> data_type option" where
  "bool_float_arm l r =
     (case l of
        Boolean \<Rightarrow>
          (case r of
             UInt8 \<Rightarrow> Some UInt8 | UInt16 \<Rightarrow> Some UInt16 | UInt32 \<Rightarrow> Some UInt32 | UInt64 \<Rightarrow> Some UInt64
           | Float32 \<Rightarrow> Some Float32 | Float64 \<Rightarrow> Some Float64
           | _ \<Rightarrow> None)
      | Float32 \<Rightarrow>
          (case r of
             UInt8 \<Rightarrow> Some Float32 | UInt16 \<Rightarrow> Some Float32
           | UInt32 \<Rightarrow> Some Float64 | UInt64 \<Rightarrow> Some Float64
           | _ \<Rightarrow> None)
      | Float64 \<Rightarrow>
          (case r of
             UInt8 \<Rightarrow> Some Float64 | UInt16 \<Rightarrow> Some Float64
           | UInt32 \<Rightarrow> Some Float64 | UInt64 \<Rightarrow> Some Float64
           | Float32 \<Rightarrow> Some Float64
           | _ \<Rightarrow> None)
      | _ \<Rightarrow> None)"

definition time_arm :: "data_type \<Rightarrow> data_type \<Rightarrow> data_type option" where
  "time_arm l r =
     (case l of
        Date \<Rightarrow>
          (case r of
             UInt32 \<Rightarrow> Some Int64 | UInt64 \<Rightarrow> Some Int64 | Int32 \<Rightarrow> Some Int32 | Int64 \<Rightarrow> Some Int64
           | Float32 \<Rightarrow> Some Float32 | Float64 \<Rightarrow> Some Float64
           | Datetime tu tz \<Rightarrow> Some (Datetime tu tz)
           | _ \<Rightarrow> None)
      | Datetime tu tz \<Rightarrow>
          (case r of
             UInt32 \<Rightarrow> Some Int64 | UInt64 \<Rightarrow> Some Int64 | Int32 \<Rightarrow> Some Int64 | Int64 \<Rightarrow> Some Int64
           | Float32 \<Rightarrow> Some Float64 | Float64 \<Rightarrow> Some Float64
           | Date \<Rightarrow> Some (Datetime tu tz)
           | _ \<Rightarrow> None)
      | Duration _ \<Rightarrow>
          (case r of
             UInt32 \<Rightarrow> Some Int64 | UInt64 \<Rightarrow> Some Int64 | Int32 \<Rightarrow> Some Int64 | Int64 \<Rightarrow> Some Int64
           | Float32 \<Rightarrow> Some Float64 | Float64 \<Rightarrow> Some Float64
           | _ \<Rightarrow> None)
      | Time \<Rightarrow>
          (case r of
             Int32 \<Rightarrow> Some Int64 | Int64 \<Rightarrow> Some Int64 | Float32 \<Rightarrow> Some Float64 | Float64 \<Rightarrow> Some Float64
           | _ \<Rightarrow> None)
      | _ \<Rightarrow> None)"

text \<open>The arms for strings and for the null type.\<close>

definition string_arm :: "u8 \<Rightarrow> data_type \<Rightarrow> data_type \<Rightarrow> data_type option" where
  "string_arm options l r =
     (case r of
        String \<Rightarrow>
          (if l \<noteq> Unknown Kind_Any \<and> \<not> dt_eq l Binary \<and> allow_primitive_to_string options
              \<or> \<not> is_primitive (to_physical l)
           then Some String else None)
      | Binary \<Rightarrow> (case l of String \<Rightarrow> Some Binary | _ \<Rightarrow> None)
      | Null \<Rightarrow> Some l
      | _ \<Rightarrow> None)"

text \<open>The arms for two temporal types.\<close>

definition duration_datetime :: "time_unit \<Rightarrow> time_unit \<Rightarrow> string option \<Rightarrow> data_type" where
  "duration_datetime lu ru tz =
     (case tz of
        Some z \<Rightarrow>
          (if z = '''' then Datetime (get_time_units lu ru) None
           else Datetime (get_time_units lu ru) (Some z))
      | None \<Rightarrow> Datetime (get_time_units lu ru) None)"

definition temporal_arm :: "data_type \<Rightarrow> data_type \<Rightarrow> data_type option" where
  "temporal_arm l r =
     (case l of
        Duration lu \<Rightarrow>
          (case r of
             Datetime ru tz \<Rightarrow> Some (duration_datetime lu ru tz)
           | Date \<Rightarrow> Some Date
           | Duration ru \<Rightarrow> Some (Duration (get_time_units lu ru))
           | _ \<Rightarrow> None)
      | Datetime tu_l tz_l \<Rightarrow>
          (case r of
             Duration ru \<Rightarrow> Some (duration_datetime tu_l ru tz_l)
           | Datetime tu_r tz_r \<Rightarrow>
               (if tz_l = None \<and> tz_r = None \<or> tz_l \<noteq> None \<and> tz_l = tz_r
                then Some (Datetime (get_time_units tu_l tu_r) tz_r) else None)
           | _ \<Rightarrow> None)
      | Date \<Rightarrow> (case r of Duration _ \<Rightarrow> Some Date | _ \<Rightarrow> None)
      | _ \<Rightarrow> None)"

text \<open>
  The arms for lists and arrays. The result is \<open>None\<close> when no arm matches and otherwise
  \<open>Some\<close> of what the arm returns.
\<close>

definition nested_arm ::
    "supertype_fn \<Rightarrow> u8 \<Rightarrow> data_type \<Rightarrow> data_type \<Rightarrow> data_type option option option" where
  "nested_arm rec options l r =
     (case l of
        List inner_left \<Rightarrow>
          (case r of
             List inner_right \<Rightarrow> Some (ask (rec inner_left inner_right) (\<lambda>st. Some (Some (List st))))
           | Array inner_right _ \<Rightarrow> Some (ask (rec inner_left inner_right) (\<lambda>st. Some (Some (List st))))
           | _ \<Rightarrow>
               (if allow_implode_list options
                then Some (ask (rec inner_left r) (\<lambda>st. Some (Some (List st)))) else None))
      | Array inner_left width_left \<Rightarrow>
          (case r of
             List inner_right \<Rightarrow> Some (ask (rec inner_left inner_right) (\<lambda>st. Some (Some (List st))))
           | Array inner_right width_right \<Rightarrow>
               (if width_left = width_right
                then Some (ask (rec inner_left inner_right) (\<lambda>st. Some (Some (Array st width_left))))
                else Some (ask (rec inner_left inner_right) (\<lambda>st. Some (Some (List st)))))
           | _ \<Rightarrow> None)
      | _ \<Rightarrow>
          (case r of
             List inner \<Rightarrow>
               (if allow_implode_list options
                then Some (ask (rec inner l) (\<lambda>st. Some (Some (List st)))) else None)
           | _ \<Rightarrow> None))"

text \<open>The arms for a type whose kind is only partly known.\<close>

definition smallest_fitting_dtype :: "data_type \<Rightarrow> int \<Rightarrow> data_type" where
  "smallest_fitting_dtype dt v =
     (if is_unsigned_integer dt \<and> \<not> v < 0 then any_value_dtype (materialize_dyn_int_pos v)
      else any_value_dtype (materialize_smallest_dyn_int v))"

definition dyn_int_arm :: "supertype_fn \<Rightarrow> data_type \<Rightarrow> int \<Rightarrow> data_type option option" where
  "dyn_int_arm rec dt v =
     (case dt of
        Unknown (Kind_Int v_other) \<Rightarrow> Some (Some (Unknown (Kind_Int (max v v_other))))
      | _ \<Rightarrow>
          (if dt = UInt64 \<and> is_signed_integer (smallest_fitting_dtype dt v) then Some (Some Int64)
           else rec dt (smallest_fitting_dtype dt v)))"

definition dyn_number :: "unknown_kind \<Rightarrow> bool" where
  "dyn_number kind = (case kind of Kind_Float \<Rightarrow> True | Kind_Int _ \<Rightarrow> True | _ \<Rightarrow> False)"

definition unknown_arm ::
    "supertype_fn \<Rightarrow> u8 \<Rightarrow> data_type \<Rightarrow> unknown_kind \<Rightarrow> data_type option option" where
  "unknown_arm rec options dt kind =
     (if dyn_number kind \<and> is_string dt then
        (if allow_primitive_to_string options then Some (Some dt) else Some None)
      else if dyn_number kind \<and> (is_float dt \<or> is_decimal dt) then Some (Some dt)
      else if kind = Kind_Float \<and> is_integer dt then Some (Some (Unknown Kind_Float))
      else if kind = Kind_Float \<and> (is_float dt \<or> is_decimal dt) then Some (Some dt)
      else if kind = Kind_Str \<and> (is_string dt \<or> is_enum dt) then Some (Some dt)
      else if kind = Kind_Str \<and> is_categorical dt then
        (case dt of Categorical _ ord \<Rightarrow> Some (Some (Categorical None ord)) | _ \<Rightarrow> Some None)
      else if is_null dt then Some (Some (Unknown kind))
      else
        (case kind of
           Kind_Int v \<Rightarrow>
             (if is_numeric dt then dyn_int_arm rec dt v
              else if is_decimal dt then Some (Some dt)
              else Some (Some (Unknown Kind_Any)))
         | _ \<Rightarrow> Some (Some (Unknown Kind_Any))))"

definition struct_unknown_arm ::
    "supertype_fn \<Rightarrow> data_type field list \<Rightarrow> unknown_kind \<Rightarrow> data_type option option" where
  "struct_unknown_arm rec flds kind =
     (case flds of f # _ \<Rightarrow> rec (field_dtype f) (Unknown kind) | [] \<Rightarrow> Some None)"

text \<open>The arms for structs.\<close>

fun union_loop ::
    "(string, data_type, 'm) index_map \<Rightarrow> supertype_fn \<Rightarrow> data_type field list \<Rightarrow> 'm \<Rightarrow> 'm option option"
where
  "union_loop im rec [] longest_map = Some (Some longest_map)"
| "union_loop im rec (f # shortest) longest_map =
     (let (m, dtype_longest) =
            (case im_get im longest_map (field_name f) of
               Some d \<Rightarrow> (longest_map, d)
             | None \<Rightarrow> (im_insert im longest_map (field_name f) (field_dtype f), field_dtype f))
      in if \<not> dt_eq (field_dtype f) dtype_longest
         then ask (rec (field_dtype f) dtype_longest)
                (\<lambda>st. union_loop im rec shortest (im_insert im m (field_name f) st))
         else union_loop im rec shortest m)"

definition union_struct_fields ::
    "(string, data_type, 'm) index_map \<Rightarrow> supertype_fn \<Rightarrow> data_type field list \<Rightarrow> data_type field list
      \<Rightarrow> data_type option option" where
  "union_struct_fields im rec fields_a fields_b =
     (let (longest, shortest) =
            (if length fields_b \<le> length fields_a then (fields_a, fields_b) else (fields_b, fields_a));
          longest_map = im_from_iter im (map (\<lambda>f. (field_name f, field_dtype f)) longest)
      in ask (union_loop im rec shortest longest_map)
           (\<lambda>m. Some (Some (Struct (map (\<lambda>(name, dtype). Field name dtype) (im_iter im m))))))"

fun struct_zip_loop ::
    "(string, data_type, 'm) index_map \<Rightarrow> supertype_fn \<Rightarrow> data_type field list \<Rightarrow> data_type field list
      \<Rightarrow> (data_type field \<times> data_type field) list \<Rightarrow> data_type field list \<Rightarrow> data_type option option"
where
  "struct_zip_loop im rec fields_a fields_b [] new_fields = Some (Some (Struct new_fields))"
| "struct_zip_loop im rec fields_a fields_b ((a, b) # rest) new_fields =
     (if field_name a \<noteq> field_name b then union_struct_fields im rec fields_a fields_b
      else ask (rec (field_dtype a) (field_dtype b))
             (\<lambda>st. struct_zip_loop im rec fields_a fields_b rest
                     (new_fields @ [Field (field_name a) st])))"

definition super_type_structs ::
    "(string, data_type, 'm) index_map \<Rightarrow> supertype_fn \<Rightarrow> data_type field list \<Rightarrow> data_type field list
      \<Rightarrow> data_type option option" where
  "super_type_structs im rec fields_a fields_b =
     (if length fields_a \<noteq> length fields_b then union_struct_fields im rec fields_a fields_b
      else struct_zip_loop im rec fields_a fields_b (zip fields_a fields_b) [])"

fun struct_numeric_loop ::
    "supertype_fn \<Rightarrow> data_type \<Rightarrow> data_type field list \<Rightarrow> data_type field list \<Rightarrow> data_type option option"
where
  "struct_numeric_loop rec rhs [] new_fields = Some (Some (Struct new_fields))"
| "struct_numeric_loop rec rhs (a # rest) new_fields =
     ask (rec (field_dtype a) rhs)
       (\<lambda>st. struct_numeric_loop rec rhs rest (new_fields @ [Field (field_name a) st]))"

text \<open>The arms for decimals; \<open>None\<close> is the least optional value.\<close>

definition option_max :: "nat option \<Rightarrow> nat option \<Rightarrow> nat option" where
  "option_max a b =
     (case (a, b) of (Some x, Some y) \<Rightarrow> Some (max x y) | (None, _) \<Rightarrow> b | (_, None) \<Rightarrow> a)"

definition decimal_arm :: "data_type \<Rightarrow> data_type \<Rightarrow> data_type option" where
  "decimal_arm l r =
     (case l of
        Decimal p1 s1 \<Rightarrow>
          (case r of
             Decimal p2 s2 \<Rightarrow>
               Some (Decimal (case (p1, p2) of (Some a, Some b) \<Rightarrow> Some (max a b) | _ \<Rightarrow> None)
                       (option_max s1 s2))
           | Float32 \<Rightarrow> Some Float32
           | Float64 \<Rightarrow> Some Float64
           | _ \<Rightarrow> (if is_signed_integer r \<or> is_unsigned_integer r then Some l else None))
      | _ \<Rightarrow> None)"

definition struct_arm ::
    "(string, data_type, 'm) index_map \<Rightarrow> supertype_fn \<Rightarrow> data_type field list \<Rightarrow> data_type
      \<Rightarrow> data_type option option" where
  "struct_arm im rec fields_a r =
     (case r of
        Struct fields_b \<Rightarrow> super_type_structs im rec fields_a fields_b
      | _ \<Rightarrow> (if is_numeric r then struct_numeric_loop rec r fields_a [] else Some None))"

subsection \<open>The match and the recursion\<close>

definition first_arms :: "bool \<Rightarrow> u8 \<Rightarrow> data_type \<Rightarrow> data_type \<Rightarrow> data_type option" where
  "first_arms big options l r =
     (case int_arm big l r of Some t \<Rightarrow> Some t | None \<Rightarrow>
      case bool_float_arm l r of Some t \<Rightarrow> Some t | None \<Rightarrow>
      case time_arm l r of Some t \<Rightarrow> Some t | None \<Rightarrow>
      case string_arm options l r of Some t \<Rightarrow> Some t | None \<Rightarrow> temporal_arm l r)"

definition last_arms :: "'m st_env \<Rightarrow> supertype_fn \<Rightarrow> u8 \<Rightarrow> data_type \<Rightarrow> data_type \<Rightarrow> data_type option option"
where
  "last_arms e rec options l r =
     (case nested_arm rec options l r of
        Some res \<Rightarrow> res
      | None \<Rightarrow>
          (case r of
             Unknown kind \<Rightarrow>
               (case l of
                  Struct flds \<Rightarrow>
                    (if dyn_number kind then struct_unknown_arm rec flds kind
                     else unknown_arm rec options l kind)
                | _ \<Rightarrow> unknown_arm rec options l kind)
           | _ \<Rightarrow>
               (case l of
                  Struct fields_a \<Rightarrow> struct_arm (imap e) rec fields_a r
                | _ \<Rightarrow> Some (decimal_arm l r))))"

definition inner :: "'m st_env \<Rightarrow> supertype_fn \<Rightarrow> u8 \<Rightarrow> data_type \<Rightarrow> data_type \<Rightarrow> data_type option option"
where
  "inner e rec options l r =
     (if dt_eq l r then Some (Some l)
      else case first_arms (bigidx e) options l r of
             Some t \<Rightarrow> Some (Some t)
           | None \<Rightarrow> last_arms e rec options l r)"

definition or_else :: "'a option option \<Rightarrow> 'a option option \<Rightarrow> 'a option option" where
  "or_else x y = (case x of Some None \<Rightarrow> y | _ \<Rightarrow> x)"

definition supertype_step :: "'m st_env \<Rightarrow> supertype_fn \<Rightarrow> u8 \<Rightarrow> data_type \<Rightarrow> data_type \<Rightarrow> data_type option option"
where
  "supertype_step e rec options l r =
     or_else (inner e rec options l r) (inner e rec options r l)"

fun get_supertype_fuel :: "nat \<Rightarrow> 'm st_env \<Rightarrow> data_type \<Rightarrow> data_type \<Rightarrow> data_type option option" where
  "get_supertype_fuel 0 e l r = None"
| "get_supertype_fuel (Suc n) e l r =
     supertype_step e (get_supertype_fuel n e) default_options l r"

text \<open>The nesting depth bounds the number of nested calls.\<close>

fun depth :: "data_type \<Rightarrow> nat" where
  "depth (Array t _) = Suc (depth t)"
| "depth (List t) = Suc (depth t)"
| "depth (Struct flds) = Suc (foldr (\<lambda>f d. max (depth (field_dtype f)) d) flds 0)"
| "depth _ = 0"

definition supertype_fuel :: "data_type \<Rightarrow> data_type \<Rightarrow> nat" where
  "supertype_fuel l r = max (depth l) (depth r) + 2"

definition get_supertype :: "'m st_env \<Rightarrow> data_type \<Rightarrow> data_type \<Rightarrow> data_type option" where
  "get_supertype e l r =
     (case get_supertype_fuel (supertype_fuel l r) e l r of Some res \<Rightarrow> res | None \<Rightarrow> None)"

definition get_supertype_with_options ::
    "'m st_env \<Rightarrow> data_type \<Rightarrow> data_type \<Rightarrow> u8 \<Rightarrow> data_type option" where
  "get_supertype_with_options e l r options =
     (case supertype_step e (\<lambda>a b. Some (get_supertype e a b)) options l r of
        Some res \<Rightarrow> res | None \<Rightarrow> None)"

definition try_get_supertype :: "'m st_env \<Rightarrow> data_type \<Rightarrow> data_type \<Rightarrow> data_type res" where
  "try_get_supertype e l r =
     (case get_supertype e l r of
        Some t \<Rightarrow> Inr t
      | None \<Rightarrow> Inl (Err ''failed to determine supertype''))"

fun dtypes_to_supertype_from :: "'m st_env \<Rightarrow> data_type \<Rightarrow> data_type list \<Rightarrow> data_type res" where
  "dtypes_to_supertype_from e supertype [] = Inr supertype"
| "dtypes_to_supertype_from e supertype (dtype # dtypes) =
     rbind (try_get_supertype e supertype dtype) (\<lambda>st. dtypes_to_supertype_from e st dtypes)"

definition dtypes_to_supertype :: "'m st_env \<Rightarrow> data_type list \<Rightarrow> data_type res" where
  "dtypes_to_supertype e dtypes = dtypes_to_supertype_from e Null dtypes"

subsection \<open>Termination\<close>

text \<open>
  \<open>bounded rec l r\<close>: the call returns, and a type it returns is not nested deeper than the
  arguments. A call of the match makes calls on shallower types only, except that a
  dynamic integer is resolved by one more call on two types without parts.
\<close>

definition bounded :: "supertype_fn \<Rightarrow> data_type \<Rightarrow> data_type \<Rightarrow> bool" where
  "bounded rec l r \<longleftrightarrow>
     (\<exists>res. rec l r = Some res \<and> (\<forall>t. res = Some t \<longrightarrow> depth t \<le> max (depth l) (depth r)))"

definition bounded_below :: "supertype_fn \<Rightarrow> nat \<Rightarrow> bool" where
  "bounded_below rec D \<longleftrightarrow> (\<forall>a b. depth a < D \<longrightarrow> depth b < D \<longrightarrow> bounded rec a b)"

lemma ask_simps [simp]:
  "ask None f = None" "ask (Some None) f = Some None" "ask (Some (Some x)) f = f x"
  by (simp_all add: ask_def)

lemma boundedE:
  assumes "bounded rec l r"
  obtains "rec l r = Some None"
    | t where "rec l r = Some (Some t)" "depth t \<le> max (depth l) (depth r)"
proof -
  from assms obtain res where "rec l r = Some res" "\<forall>t. res = Some t \<longrightarrow> depth t \<le> max (depth l) (depth r)"
    unfolding bounded_def by blast
  then show thesis
    using that by (cases res) auto
qed

lemma bounded_belowE:
  assumes "bounded_below rec D" and "depth a < D" and "depth b < D"
  obtains "rec a b = Some None" | t where "rec a b = Some (Some t)" "depth t < D"
proof -
  from assms have "bounded rec a b"
    unfolding bounded_below_def by blast
  then show thesis
    by (cases rule: boundedE) (use that assms in auto)
qed

lemma depth_field_less: "f \<in> set flds \<Longrightarrow> depth (field_dtype f) < depth (Struct flds)"
  by (induction flds) (auto simp: less_Suc_eq_le)

lemma depth_Struct_le:
  "0 < D \<Longrightarrow> (\<And>f. f \<in> set flds \<Longrightarrow> depth (field_dtype f) < D) \<Longrightarrow> depth (Struct flds) \<le> D"
  by (induction flds) (auto simp: less_Suc_eq_le Suc_le_eq)

lemma update_values: "snd ` set (AList.update k v al) \<subseteq> insert v (snd ` set al)"
  by (induction al) auto

lemma fold_update_values:
  "snd ` set (fold (\<lambda>(k, v). AList.update k v) kvs al) \<subseteq> snd ` set kvs \<union> snd ` set al"
proof (induction kvs arbitrary: al)
  case (Cons kv kvs)
  obtain k v where kv: "kv = (k, v)"
    by (cases kv)
  show ?case
    using Cons.IH [of "AList.update k v al"] update_values [of k v al] unfolding kv by auto
qed simp

definition shallow_map :: "(string, data_type, 'm) index_map \<Rightarrow> nat \<Rightarrow> 'm \<Rightarrow> bool" where
  "shallow_map im D m \<longleftrightarrow> (\<forall>v \<in> snd ` set (im_iter im m). depth v < D)"

lemma shallow_map_insert:
  assumes "index_map_ok im" and "shallow_map im D m" and "depth v < D"
  shows "shallow_map im D (im_insert im m k v)"
proof -
  have eq: "im_iter im (im_insert im m k v) = AList.update k v (im_iter im m)"
    using assms(1) unfolding index_map_ok_def by blast
  show ?thesis
    using assms(2,3) update_values [of k v "im_iter im m"] unfolding shallow_map_def eq by blast
qed

lemma shallow_map_get:
  assumes "index_map_ok im" and "shallow_map im D m" and "im_get im m k = Some v"
  shows "depth v < D"
  using assms map_of_SomeD [of "im_iter im m" k v]
  unfolding shallow_map_def index_map_ok_def by force

lemma shallow_map_from_iter:
  assumes "index_map_ok im" and "\<And>v. v \<in> snd ` set kvs \<Longrightarrow> depth v < D"
  shows "shallow_map im D (im_from_iter im kvs)"
proof -
  have eq: "im_iter im (im_from_iter im kvs) = fold (\<lambda>(k, v). AList.update k v) kvs []"
    using assms(1) unfolding index_map_ok_def by blast
  have "snd ` set (fold (\<lambda>(k, v). AList.update k v) kvs []) \<subseteq> snd ` set kvs"
    using fold_update_values [of kvs "[]"] by simp
  with assms(2) show ?thesis
    unfolding shallow_map_def eq by blast
qed

lemma union_loop_total:
  assumes im: "index_map_ok im" and rec: "bounded_below rec D"
  shows "shallow_map im D m \<Longrightarrow> (\<And>f. f \<in> set flds \<Longrightarrow> depth (field_dtype f) < D) \<Longrightarrow>
    union_loop im rec flds m = Some None
    \<or> (\<exists>m'. union_loop im rec flds m = Some (Some m') \<and> shallow_map im D m')"
proof (induction flds arbitrary: m)
  case (Cons f flds)
  define md where "md = (case im_get im m (field_name f) of
               Some d \<Rightarrow> (m, d)
             | None \<Rightarrow> (im_insert im m (field_name f) (field_dtype f), field_dtype f))"
  obtain m1 d where m1: "md = (m1, d)"
    by (cases md)
  have f: "depth (field_dtype f) < D"
    using Cons.prems by simp
  have shallow: "shallow_map im D m1" "depth d < D"
    using m1 Cons.prems(1) f shallow_map_insert [OF im] shallow_map_get [OF im]
    by (auto simp: md_def split: option.splits)
  have unfold: "union_loop im rec (f # flds) m =
      (if \<not> dt_eq (field_dtype f) d
       then ask (rec (field_dtype f) d) (\<lambda>st. union_loop im rec flds (im_insert im m1 (field_name f) st))
       else union_loop im rec flds m1)"
    using m1 by (simp add: md_def)
  show ?case
  proof (cases rule: bounded_belowE [OF rec f shallow(2)])
    case 1
    then show ?thesis
      using Cons.IH [OF shallow(1)] Cons.prems(2) unfolding unfold by auto
  next
    case (2 t)
    then show ?thesis
      using Cons.IH [OF shallow(1)] Cons.IH [OF shallow_map_insert [OF im shallow(1) 2(2)]] Cons.prems(2)
      unfolding unfold by auto
  qed
qed simp

definition shallow_result :: "data_type option option \<Rightarrow> nat \<Rightarrow> bool" where
  "shallow_result r D \<longleftrightarrow> r = Some None \<or> (\<exists>t. r = Some (Some t) \<and> depth t \<le> D)"

lemma union_struct_fields_total:
  assumes im: "index_map_ok im" and rec: "bounded_below rec D" and D: "0 < D"
    and a: "\<And>f. f \<in> set fa \<Longrightarrow> depth (field_dtype f) < D"
    and b: "\<And>f. f \<in> set fb \<Longrightarrow> depth (field_dtype f) < D"
  shows "shallow_result (union_struct_fields im rec fa fb) D"
proof -
  obtain longest shortest where ls: "(if length fb \<le> length fa then (fa, fb) else (fb, fa)) = (longest, shortest)"
    by (cases "length fb \<le> length fa") auto
  then have deep: "\<And>f. f \<in> set longest \<Longrightarrow> depth (field_dtype f) < D"
      "\<And>f. f \<in> set shortest \<Longrightarrow> depth (field_dtype f) < D"
    using a b by (auto split: if_splits)
  let ?m = "im_from_iter im (map (\<lambda>f. (field_name f, field_dtype f)) longest)"
  have "shallow_map im D ?m"
    by (rule shallow_map_from_iter [OF im]) (use deep(1) in auto)
  from union_loop_total [OF im rec this deep(2)]
  consider "union_loop im rec shortest ?m = Some None"
    | m' where "union_loop im rec shortest ?m = Some (Some m')" "shallow_map im D m'"
    by auto
  then show ?thesis
  proof cases
    case 2
    then have "depth (Struct (map (\<lambda>(name, dtype). Field name dtype) (im_iter im m'))) \<le> D"
      by (intro depth_Struct_le [OF D]) (auto simp: shallow_map_def)
    with 2 show ?thesis
      by (simp add: union_struct_fields_def ls shallow_result_def)
  qed (simp add: union_struct_fields_def ls shallow_result_def)
qed

lemma struct_zip_loop_total:
  assumes im: "index_map_ok im" and rec: "bounded_below rec D" and D: "0 < D"
    and a: "\<And>f. f \<in> set fa \<Longrightarrow> depth (field_dtype f) < D"
    and b: "\<And>f. f \<in> set fb \<Longrightarrow> depth (field_dtype f) < D"
  shows "(\<And>f g. (f, g) \<in> set ps \<Longrightarrow> depth (field_dtype f) < D \<and> depth (field_dtype g) < D) \<Longrightarrow>
    (\<And>f. f \<in> set acc \<Longrightarrow> depth (field_dtype f) < D) \<Longrightarrow>
    shallow_result (struct_zip_loop im rec fa fb ps acc) D"
proof (induction ps arbitrary: acc)
  case Nil
  then show ?case
    using depth_Struct_le [OF D, of acc] by (simp add: shallow_result_def)
next
  case (Cons p ps)
  obtain f g where p: "p = (f, g)"
    by (cases p)
  have fg: "depth (field_dtype f) < D" "depth (field_dtype g) < D"
    using Cons.prems(1) [of f g] p by auto
  note union = union_struct_fields_total [OF im rec D a b]
  show ?case
  proof (cases rule: bounded_belowE [OF rec fg])
    case 1
    then show ?thesis
      using union by (auto simp: p shallow_result_def)
  next
    case (2 t)
    have "shallow_result (struct_zip_loop im rec fa fb ps (acc @ [Field (field_name f) t])) D"
      by (rule Cons.IH) (use Cons.prems 2(2) in auto)
    then show ?thesis
      using 2 union by (auto simp: p)
  qed
qed

lemma struct_numeric_loop_total:
  assumes rec: "bounded_below rec D" and D: "0 < D" and r: "depth r < D"
  shows "(\<And>f. f \<in> set fa \<Longrightarrow> depth (field_dtype f) < D) \<Longrightarrow>
    (\<And>f. f \<in> set acc \<Longrightarrow> depth (field_dtype f) < D) \<Longrightarrow>
    shallow_result (struct_numeric_loop rec r fa acc) D"
proof (induction fa arbitrary: acc)
  case Nil
  then show ?case
    using depth_Struct_le [OF D, of acc] by (simp add: shallow_result_def)
next
  case (Cons f fa)
  have f: "depth (field_dtype f) < D"
    using Cons.prems(1) by simp
  show ?case
  proof (cases rule: bounded_belowE [OF rec f r])
    case (2 t)
    have "shallow_result (struct_numeric_loop rec r fa (acc @ [Field (field_name f) t])) D"
      by (rule Cons.IH) (use Cons.prems 2(2) in auto)
    then show ?thesis
      using 2 by simp
  qed (simp add: shallow_result_def)
qed

lemma int_arm_depth: "int_arm big l r = Some t \<Longrightarrow> depth t = 0"
  by (cases l) (auto simp: int_arm_def split: data_type.splits if_splits)

lemma bool_float_arm_depth: "bool_float_arm l r = Some t \<Longrightarrow> depth t = 0"
  by (cases l) (auto simp: bool_float_arm_def split: data_type.splits)

lemma time_arm_depth: "time_arm l r = Some t \<Longrightarrow> depth t = 0"
  by (cases l) (auto simp: time_arm_def split: data_type.splits)

lemma temporal_arm_depth: "temporal_arm l r = Some t \<Longrightarrow> depth t = 0"
  by (cases l)
    (auto simp: temporal_arm_def duration_datetime_def split: data_type.splits option.splits if_splits)

lemma string_arm_depth: "string_arm options l r = Some t \<Longrightarrow> depth t \<le> depth l"
  by (cases r) (auto simp: string_arm_def split: data_type.splits if_splits)

lemma first_arms_depth: "first_arms big options l r = Some t \<Longrightarrow> depth t \<le> depth l"
  by (auto simp: first_arms_def split: option.splits
      dest: int_arm_depth bool_float_arm_depth time_arm_depth temporal_arm_depth string_arm_depth)

lemma decimal_arm_depth: "decimal_arm l r = Some t \<Longrightarrow> depth t = 0"
  by (cases l) (auto simp: decimal_arm_def split: data_type.splits if_splits)

lemma nested_arm_total:
  assumes rec: "bounded_below rec (max (depth l) (depth r))"
    and res: "nested_arm rec default_options l r = Some res"
  shows "shallow_result res (max (depth l) (depth r))"
proof -
  have step: "shallow_result (ask (rec a b) (\<lambda>st. Some (Some (List st)))) (max (depth l) (depth r))"
      "shallow_result (ask (rec a b) (\<lambda>st. Some (Some (Array st w)))) (max (depth l) (depth r))"
    if "depth a < max (depth l) (depth r)" "depth b < max (depth l) (depth r)" for a b w
    by (cases rule: bounded_belowE [OF rec that]; simp add: shallow_result_def Suc_le_eq)+
  show ?thesis
    using res step by (cases l; cases r) (auto simp: nested_arm_def split: if_splits)
qed

text \<open>The machine types to which a dynamic integer is compared.\<close>

definition machine_int :: "data_type \<Rightarrow> bool" where
  "machine_int t \<longleftrightarrow> is_signed_integer t \<or> is_unsigned_integer t"

definition literal_bounded :: "supertype_fn \<Rightarrow> bool" where
  "literal_bounded rec \<longleftrightarrow> (\<forall>t v. machine_int t \<longrightarrow> bounded rec t (any_value_dtype v))"

lemma depth_any_value [simp]: "depth (any_value_dtype v) = 0"
  by (cases v) simp_all

lemma depth_machine_int: "machine_int t \<Longrightarrow> depth t = 0"
  by (cases t) (simp_all add: machine_int_def dt_defs)

lemma smallest_fitting_any_value: "\<exists>x. smallest_fitting_dtype t v = any_value_dtype x"
  by (auto simp: smallest_fitting_dtype_def)

lemma dyn_int_arm_total:
  assumes "literal_bounded rec" and "is_numeric t" and "\<not> is_float t"
  shows "shallow_result (dyn_int_arm rec t v) (depth t)"
proof (cases "machine_int t")
  case True
  obtain x where x: "smallest_fitting_dtype t v = any_value_dtype x"
    using smallest_fitting_any_value by blast
  have "bounded rec t (any_value_dtype x)"
    using assms(1) True unfolding literal_bounded_def by blast
  then have "shallow_result (rec t (smallest_fitting_dtype t v)) 0"
    using depth_machine_int [OF True] unfolding x
    by (cases rule: boundedE) (auto simp: shallow_result_def)
  moreover have "dyn_int_arm rec t v = Some (Some Int64) \<or> dyn_int_arm rec t v = rec t (smallest_fitting_dtype t v)"
    using True by (cases t) (simp_all add: dyn_int_arm_def machine_int_def dt_defs)
  ultimately show ?thesis
    using depth_machine_int [OF True] by (auto simp: shallow_result_def)
next
  case False
  with assms(2,3) obtain w where "t = Unknown (Kind_Int w)"
    by (cases t) (auto simp: machine_int_def dt_defs split: unknown_kind.splits)
  then show ?thesis
    by (simp add: dyn_int_arm_def shallow_result_def)
qed

lemma unknown_arm_total:
  assumes "literal_bounded rec"
  shows "shallow_result (unknown_arm rec options t kind) (depth t)"
proof -
  have "shallow_result (dyn_int_arm rec t v) (depth t)"
    if "is_numeric t" "\<not> is_float t" for v
    using dyn_int_arm_total [OF assms that] .
  then show ?thesis
    by (auto simp: unknown_arm_def shallow_result_def dyn_number_def
        split: unknown_kind.splits data_type.splits)
qed

lemma struct_arms_total:
  assumes im: "index_map_ok im" and rec: "bounded_below rec (max (depth (Struct fa)) (depth r))"
  shows "shallow_result (struct_arm im rec fa r) (max (depth (Struct fa)) (depth r))"
proof -
  let ?D = "max (depth (Struct fa)) (depth r)"
  have D: "0 < ?D"
    by simp
  have a: "depth (field_dtype f) < ?D" if "f \<in> set fa" for f
    using depth_field_less [OF that] by simp
  show ?thesis
  proof (cases "\<exists>fb. r = Struct fb")
    case True
    then obtain fb where r: "r = Struct fb"
      by blast
    have b: "depth (field_dtype f) < ?D" if "f \<in> set fb" for f
      using depth_field_less [OF that] r by simp
    have "depth (field_dtype f) < ?D \<and> depth (field_dtype g) < ?D" if "(f, g) \<in> set (zip fa fb)" for f g
      using a b set_zip_leftD [OF that] set_zip_rightD [OF that] by blast
    then have "shallow_result (struct_zip_loop im rec fa fb (zip fa fb) []) ?D"
      using struct_zip_loop_total [OF im rec D a b, where ps = "zip fa fb" and acc = "[]"] by simp
    then show ?thesis
      using union_struct_fields_total [OF im rec D a b]
      by (simp add: struct_arm_def super_type_structs_def r del: depth.simps)
  next
    case False
    have "shallow_result (struct_numeric_loop rec r fa []) ?D" if "is_numeric r"
    proof (rule struct_numeric_loop_total [OF rec D _ a])
      show "depth r < ?D"
        using that by (cases r) (auto simp: dt_defs)
    qed simp_all
    moreover have "struct_arm im rec fa r = (if is_numeric r then struct_numeric_loop rec r fa [] else Some None)"
      using False by (cases r) (simp_all add: struct_arm_def)
    ultimately show ?thesis
      by (simp add: shallow_result_def)
  qed
qed

lemma shallow_result_mono: "shallow_result r D \<Longrightarrow> D \<le> D' \<Longrightarrow> shallow_result r D'"
  by (auto simp: shallow_result_def)

lemma struct_unknown_arm_total:
  assumes rec: "bounded_below rec (depth (Struct flds))"
  shows "shallow_result (struct_unknown_arm rec flds kind) (depth (Struct flds))"
proof (cases flds)
  case (Cons f fs)
  have f: "depth (field_dtype f) < depth (Struct flds)"
    by (rule depth_field_less) (simp add: Cons)
  have u: "depth (Unknown kind) < depth (Struct flds)"
    by simp
  show ?thesis
    by (cases rule: bounded_belowE [OF rec f u])
      (auto simp: struct_unknown_arm_def Cons shallow_result_def simp del: depth.simps)
qed (simp add: struct_unknown_arm_def shallow_result_def)

lemma last_arms_total:
  assumes im: "index_map_ok (imap e)" and rec: "bounded_below rec (max (depth l) (depth r))"
    and lit: "literal_bounded rec"
  shows "shallow_result (last_arms e rec default_options l r) (max (depth l) (depth r))"
proof (cases "nested_arm rec default_options l r")
  case (Some res)
  then show ?thesis
    using nested_arm_total [OF rec Some] by (simp add: last_arms_def)
next
  case None
  have unk: "shallow_result (unknown_arm rec default_options l kind) (max (depth l) (depth r))" for kind
    by (rule shallow_result_mono [OF unknown_arm_total [OF lit]]) simp
  have dec: "shallow_result (Some (decimal_arm l r)) D" for D
    by (cases "decimal_arm l r") (auto simp: shallow_result_def dest: decimal_arm_depth)
  show ?thesis
  proof (cases "\<exists>flds. l = Struct flds")
    case True
    then obtain flds where l: "l = Struct flds"
      by blast
    show ?thesis
    proof (cases "\<exists>kind. r = Unknown kind")
      case True
      then show ?thesis
        using None unk rec struct_unknown_arm_total [of rec flds]
        by (auto simp: last_arms_def l simp del: depth.simps(3))
    next
      case False
      then have "last_arms e rec default_options l r = struct_arm (imap e) rec flds r"
        using None by (cases r) (simp_all add: last_arms_def l)
      then show ?thesis
        using struct_arms_total [OF im rec [unfolded l]] by (simp add: l del: depth.simps)
    qed
  next
    case False
    then have "last_arms e rec default_options l r =
        (case r of Unknown kind \<Rightarrow> unknown_arm rec default_options l kind | _ \<Rightarrow> Some (decimal_arm l r))"
      using None by (cases l) (auto simp: last_arms_def split: data_type.split)
    then show ?thesis
      using unk dec by (cases r) simp_all
  qed
qed

lemma inner_total:
  assumes "index_map_ok (imap e)" and "bounded_below rec (max (depth l) (depth r))"
    and "literal_bounded rec"
  shows "shallow_result (inner e rec default_options l r) (max (depth l) (depth r))"
  using last_arms_total [OF assms]
  by (auto simp: inner_def shallow_result_def split: option.splits dest!: first_arms_depth)

lemma supertype_step_total:
  assumes "index_map_ok (imap e)" and "bounded_below rec (max (depth l) (depth r))"
    and "literal_bounded rec"
  shows "bounded (supertype_step e rec default_options) l r"
  using inner_total [OF assms] inner_total [of e rec r l] assms
  by (auto simp: supertype_step_def bounded_def shallow_result_def or_else_def max.commute)

lemma literal_step:
  assumes "machine_int t"
  shows "bounded (supertype_step e rec default_options) t (any_value_dtype v)"
  using assms
  by (cases t; cases v)
    (simp_all add: machine_int_def dt_defs bounded_def supertype_step_def inner_def or_else_def
      first_arms_def int_arm_def bool_float_arm_def time_arm_def string_arm_def temporal_arm_def
      last_arms_def nested_arm_def decimal_arm_def)

lemma get_supertype_fuel_total:
  assumes im: "index_map_ok (imap e)"
  shows "supertype_fuel l r \<le> n \<Longrightarrow> bounded (get_supertype_fuel n e) l r"
proof (induction n arbitrary: l r)
  case 0
  then show ?case
    by (simp add: supertype_fuel_def)
next
  case (Suc n)
  have below: "bounded_below (get_supertype_fuel n e) (max (depth l) (depth r))"
    unfolding bounded_below_def
    using Suc by (auto simp: supertype_fuel_def)
  obtain m where n: "n = Suc m"
    using Suc.prems by (cases n) (simp_all add: supertype_fuel_def)
  have "literal_bounded (get_supertype_fuel n e)"
    unfolding literal_bounded_def using literal_step [of _ e "get_supertype_fuel m e"]
    by (auto simp: bounded_def n)
  from supertype_step_total [OF im below this] show ?case
    by (simp add: bounded_def)
qed

text \<open>
  More fuel does not change a result: every part of the match is monotone in the calls it
  makes, in the order in which a call without result is below every call.
\<close>

named_theorems flat_intros "monotonicity in the recursive calls"

definition flat_le :: "'a option \<Rightarrow> 'a option \<Rightarrow> bool" where
  "flat_le x y \<longleftrightarrow> x = None \<or> x = y"

definition rec_le :: "supertype_fn \<Rightarrow> supertype_fn \<Rightarrow> bool" where
  "rec_le rec rec' \<longleftrightarrow> (\<forall>a b. flat_le (rec a b) (rec' a b))"

lemma flat_le_refl [simp, flat_intros]: "flat_le x x"
  by (simp add: flat_le_def)

lemma flat_le_rec: "rec_le rec rec' \<Longrightarrow> flat_le (rec a b) (rec' a b)"
  by (simp add: rec_le_def)

lemma flat_le_ask [flat_intros]:
  "flat_le x x' \<Longrightarrow> (\<And>v. flat_le (f v) (f' v)) \<Longrightarrow> flat_le (ask x f) (ask x' f')"
  by (auto simp: flat_le_def ask_def split: option.splits)

lemma flat_le_union_loop [flat_intros]:
  "rec_le rec rec' \<Longrightarrow> flat_le (union_loop im rec flds m) (union_loop im rec' flds m)"
  by (induction flds arbitrary: m) (auto simp: Let_def split: prod.splits option.splits intro!: flat_intros flat_le_rec [where rec = rec and rec' = rec'])

lemma flat_le_union_struct_fields [flat_intros]:
  "rec_le rec rec' \<Longrightarrow> flat_le (union_struct_fields im rec fa fb) (union_struct_fields im rec' fa fb)"
  by (auto simp: union_struct_fields_def Let_def split: prod.splits intro!: flat_intros flat_le_rec [where rec = rec and rec' = rec'])

lemma flat_le_struct_zip_loop [flat_intros]:
  "rec_le rec rec' \<Longrightarrow> flat_le (struct_zip_loop im rec fa fb ps acc) (struct_zip_loop im rec' fa fb ps acc)"
  by (induction ps arbitrary: acc) (auto intro!: flat_intros flat_le_rec [where rec = rec and rec' = rec'])

lemma flat_le_struct_numeric_loop [flat_intros]:
  "rec_le rec rec' \<Longrightarrow> flat_le (struct_numeric_loop rec r fa acc) (struct_numeric_loop rec' r fa acc)"
  by (induction fa arbitrary: acc) (auto intro!: flat_intros flat_le_rec [where rec = rec and rec' = rec'])

lemma flat_le_struct_arm [flat_intros]:
  "rec_le rec rec' \<Longrightarrow> flat_le (struct_arm im rec fa r) (struct_arm im rec' fa r)"
  by (cases r) (auto simp: struct_arm_def super_type_structs_def intro!: flat_intros flat_le_rec [where rec = rec and rec' = rec'])

lemma flat_le_struct_unknown_arm [flat_intros]:
  "rec_le rec rec' \<Longrightarrow> flat_le (struct_unknown_arm rec flds k) (struct_unknown_arm rec' flds k)"
  by (cases flds) (auto simp: struct_unknown_arm_def intro!: flat_intros flat_le_rec [where rec = rec and rec' = rec'])

lemma flat_le_dyn_int_arm [flat_intros]:
  "rec_le rec rec' \<Longrightarrow> flat_le (dyn_int_arm rec t v) (dyn_int_arm rec' t v)"
  by (cases t) (auto simp: dyn_int_arm_def split: unknown_kind.split intro!: flat_intros flat_le_rec [where rec = rec and rec' = rec'])

lemma flat_le_unknown_arm [flat_intros]:
  "rec_le rec rec' \<Longrightarrow> flat_le (unknown_arm rec options t k) (unknown_arm rec' options t k)"
  by (cases k) (auto simp: unknown_arm_def intro!: flat_intros flat_le_rec [where rec = rec and rec' = rec'])

lemma nested_arm_None:
  "nested_arm rec options l r = None \<longleftrightarrow> nested_arm rec' options l r = None"
  by (cases l; cases r) (simp_all add: nested_arm_def)

lemma nested_arm_flat:
  assumes "rec_le rec rec'" and "nested_arm rec options l r = Some x"
    and "nested_arm rec' options l r = Some y"
  shows "flat_le x y"
  using assms(2,3)
  by (cases l; cases r) (auto simp: nested_arm_def split: if_splits intro!: flat_intros flat_le_rec [OF assms(1)])

lemma flat_le_last_arms [flat_intros]:
  assumes "rec_le rec rec'"
  shows "flat_le (last_arms e rec options l r) (last_arms e rec' options l r)"
proof (cases "nested_arm rec options l r")
  case None
  then have "nested_arm rec' options l r = None"
    using nested_arm_None by blast
  then show ?thesis
    using None assms
    by (auto simp: last_arms_def split: data_type.split intro!: flat_intros)
next
  case (Some x)
  then obtain y where "nested_arm rec' options l r = Some y"
    using nested_arm_None [of rec options l r rec'] by (cases "nested_arm rec' options l r") auto
  with Some nested_arm_flat [OF assms Some] show ?thesis
    by (simp add: last_arms_def)
qed

lemma flat_le_supertype_step:
  assumes "rec_le rec rec'"
  shows "flat_le (supertype_step e rec options l r) (supertype_step e rec' options l r)"
proof -
  have "flat_le (inner e rec options l r) (inner e rec' options l r)" for l r
    by (auto simp: inner_def split: option.split intro!: flat_intros assms)
  from this [of l r] this [of r l] show ?thesis
    unfolding supertype_step_def or_else_def flat_le_def
    by (cases "inner e rec options l r") (auto split: option.split)
qed

lemma get_supertype_fuel_Suc: "rec_le (get_supertype_fuel n e) (get_supertype_fuel (Suc n) e)"
proof (induction n)
  case (Suc n)
  have "flat_le (get_supertype_fuel (Suc n) e a b) (get_supertype_fuel (Suc (Suc n)) e a b)" for a b
    using flat_le_supertype_step [OF Suc, of e default_options a b]
    unfolding get_supertype_fuel.simps(2) [of n e a b] get_supertype_fuel.simps(2) [of "Suc n" e a b] .
  then show ?case
    unfolding rec_le_def by blast
qed (simp add: rec_le_def flat_le_def)

lemma get_supertype_fuel_mono:
  assumes "get_supertype_fuel n e l r = Some x" and "n \<le> m"
  shows "get_supertype_fuel m e l r = Some x"
  using assms(2,1)
proof (induction rule: dec_induct)
  case (step k)
  then show ?case
    using get_supertype_fuel_Suc [of k e] unfolding rec_le_def flat_le_def by (metis option.distinct(1))
qed

lemma get_supertype_fuel_eq:
  assumes "index_map_ok (imap e)" and "get_supertype_fuel n e l r = Some x"
  shows "x = get_supertype e l r"
proof -
  obtain y where y: "get_supertype_fuel (supertype_fuel l r) e l r = Some y"
    using get_supertype_fuel_total [OF assms(1) order_refl, of l r] unfolding bounded_def by blast
  have "Some x = Some y"
    using get_supertype_fuel_mono [OF assms(2), of "max n (supertype_fuel l r)"]
      get_supertype_fuel_mono [OF y, of "max n (supertype_fuel l r)"] by simp
  then show ?thesis
    using y by (simp add: get_supertype_def)
qed

lemma get_supertype_fuel_enough:
  assumes "index_map_ok (imap e)" and "supertype_fuel l r \<le> n"
  shows "get_supertype_fuel n e l r = Some (get_supertype e l r)"
  using get_supertype_fuel_total [OF assms] get_supertype_fuel_eq [OF assms(1)]
  unfolding bounded_def by blast

text \<open>The recursion equation of the code.\<close>

lemma get_supertype_rec:
  assumes "index_map_ok (imap e)"
  shows "supertype_step e (\<lambda>a b. Some (get_supertype e a b)) default_options l r
       = Some (get_supertype e l r)"
proof -
  let ?n = "supertype_fuel l r"
  have "rec_le (get_supertype_fuel ?n e) (\<lambda>a b. Some (get_supertype e a b))"
    unfolding rec_le_def flat_le_def using get_supertype_fuel_eq [OF assms] by (metis option.exhaust)
  from flat_le_supertype_step [OF this, of e default_options l r]
  show ?thesis
    using get_supertype_fuel_enough [OF assms, of l r "Suc ?n"] by (auto simp: flat_le_def)
qed

lemma get_supertype_depth:
  assumes "index_map_ok (imap e)" and "get_supertype e l r = Some t"
  shows "depth t \<le> max (depth l) (depth r)"
  using get_supertype_fuel_total [OF assms(1) order_refl, of l r]
    get_supertype_fuel_enough [OF assms(1) order_refl, of l r] assms(2)
  unfolding bounded_def by auto

text \<open>The insertion-ordered map as an association list.\<close>

definition alist_map :: "('k, 'v, ('k \<times> 'v) list) index_map" where
  "alist_map = \<lparr>im_from_iter = \<lambda>kvs. fold (\<lambda>(k, v). AList.update k v) kvs [],
     im_get = map_of, im_insert = \<lambda>m k v. AList.update k v m, im_iter = \<lambda>m. m\<rparr>"

lemma alist_map_ok: "index_map_ok alist_map"
  by (simp add: index_map_ok_def alist_map_def)

text \<open>
  C15.  The recursive search for a supertype terminates on all types, however nested, although
  it also recurses on types it has computed itself: with fuel two above the nesting depth of
  the arguments the call returns, more fuel gives the same result, the result satisfies
  the recursion equation of the code, and a returned type is never nested deeper than the
  arguments.
\<close>

theorem get_supertype_terminates:
  assumes "index_map_ok (imap e)" and "max (depth l) (depth r) + 2 \<le> n"
  shows "get_supertype_fuel n e l r = Some (get_supertype e l r)
    \<and> supertype_step e (\<lambda>a b. Some (get_supertype e a b)) default_options l r
        = Some (get_supertype e l r)
    \<and> (\<forall>t. get_supertype e l r = Some t \<longrightarrow> depth t \<le> max (depth l) (depth r))"
  using get_supertype_fuel_enough [OF assms(1)] get_supertype_rec [OF assms(1)]
    get_supertype_depth [OF assms(1)] assms(2) by (simp add: supertype_fuel_def)

theorem get_supertype_terminates_witness:
  "get_supertype_fuel 4 \<lparr>bigidx = False, imap = alist_map\<rparr>
     (Struct [Field ''a'' (List Int8), Field ''b'' Null]) (Struct [Field ''a'' (List UInt8)])
   = Some (get_supertype \<lparr>bigidx = False, imap = alist_map\<rparr>
     (Struct [Field ''a'' (List Int8), Field ''b'' Null]) (Struct [Field ''a'' (List UInt8)]))"
  using get_supertype_terminates [of "\<lparr>bigidx = False, imap = alist_map\<rparr>"
      "Struct [Field ''a'' (List Int8), Field ''b'' Null]" "Struct [Field ''a'' (List UInt8)]" 4]
  by (simp add: alist_map_ok)

end
