(* ===== verification/SupertypeLaws.thy ===== *)
theory SupertypeLaws
  imports Supertype
begin

section \<open>Supertypes of numbers, literals and lists of types\<close>

text \<open>
  What the supertype promises: the integers of two number types are integers of their
  supertype, unless 64-bit integers meet a type that cannot hold them; a literal fits the
  type it is given; the fold over a list of types gives a type for all of them.

  \<open>int_values t\<close> is the interval of integers around zero that the type represents exactly:
  \<open>2\<^sup>2\<^sup>4\<close> and \<open>2\<^sup>5\<^sup>3\<close> bound it for the two floating point types.
\<close>

fun int_lo :: "data_type \<Rightarrow> int" where
  "int_lo Int8 = - (2 ^ 7)"
| "int_lo Int16 = - (2 ^ 15)"
| "int_lo Int32 = - (2 ^ 31)"
| "int_lo Int64 = - (2 ^ 63)"
| "int_lo Float32 = - (2 ^ 24)"
| "int_lo Float64 = - (2 ^ 53)"
| "int_lo _ = 0"

fun int_hi :: "data_type \<Rightarrow> int" where
  "int_hi Boolean = 1"
| "int_hi UInt8 = 2 ^ 8 - 1"
| "int_hi UInt16 = 2 ^ 16 - 1"
| "int_hi UInt32 = 2 ^ 32 - 1"
| "int_hi UInt64 = 2 ^ 64 - 1"
| "int_hi Int8 = 2 ^ 7 - 1"
| "int_hi Int16 = 2 ^ 15 - 1"
| "int_hi Int32 = 2 ^ 31 - 1"
| "int_hi Int64 = 2 ^ 63 - 1"
| "int_hi Float32 = 2 ^ 24"
| "int_hi Float64 = 2 ^ 53"
| "int_hi _ = - 1"

definition int_values :: "data_type \<Rightarrow> int set" where
  "int_values t = {int_lo t..int_hi t}"

definition machine_float :: "data_type \<Rightarrow> bool" where
  "machine_float t \<longleftrightarrow> t = Float32 \<or> t = Float64"

definition number :: "data_type \<Rightarrow> bool" where
  "number t \<longleftrightarrow> t = Boolean \<or> machine_int t \<or> machine_float t"

definition wide :: "data_type \<Rightarrow> bool" where
  "wide t \<longleftrightarrow> t = Int64 \<or> t = UInt64"

text \<open>The pairs for which the source follows numpy or the feature \<open>bigidx\<close>.\<close>

definition lossy :: "data_type \<Rightarrow> data_type \<Rightarrow> bool" where
  "lossy l r \<longleftrightarrow> wide l \<and> machine_float r \<or> wide r \<and> machine_float l
     \<or> l = UInt64 \<and> is_signed_integer r \<or> r = UInt64 \<and> is_signed_integer l"

definition number_join :: "bool \<Rightarrow> data_type \<Rightarrow> data_type \<Rightarrow> data_type option" where
  "number_join big l r =
     (if l = r then Some l
      else case int_arm big l r of Some t \<Rightarrow> Some t | None \<Rightarrow>
        case bool_float_arm l r of Some t \<Rightarrow> Some t | None \<Rightarrow>
          case int_arm big r l of Some t \<Rightarrow> Some t | None \<Rightarrow> bool_float_arm r l)"

lemmas arm_defs = int_arm_def bool_float_arm_def time_arm_def string_arm_def temporal_arm_def
  nested_arm_def decimal_arm_def

lemma number_cases:
  "number t \<longleftrightarrow> t \<in> {Boolean, UInt8, UInt16, UInt32, UInt64, Int8, Int16, Int32, Int64, Float32, Float64}"
  by (cases t) (simp_all add: number_def machine_int_def machine_float_def dt_defs)

lemma number_no_arm:
  assumes "number t"
  shows "time_arm t r = None" "temporal_arm t r = None" "decimal_arm t r = None"
    "string_arm options l t = None"
  using assms unfolding number_cases
  by (elim insertE emptyE; simp add: time_arm_def temporal_arm_def decimal_arm_def string_arm_def)+

lemma number_nested_arm:
  assumes "number l" and "number r"
  shows "nested_arm rec options l r = None"
proof -
  have "nested_arm rec options l r =
      (case r of List b \<Rightarrow>
         (if allow_implode_list options
          then Some (ask (rec b l) (\<lambda>st. Some (Some (List st)))) else None)
       | _ \<Rightarrow> None)"
    using assms(1) unfolding number_cases
    by (elim insertE emptyE; hypsubst) (simp_all add: nested_arm_def)
  then show ?thesis
    using assms(2) unfolding number_cases by (elim insertE emptyE) simp_all
qed

lemma number_last_arms:
  assumes "number l" and "number r"
  shows "last_arms e rec options l r = Some None"
proof -
  have "last_arms e rec options l r = Some (decimal_arm l r)"
  proof -
    have "last_arms e rec options l r =
        (case l of Struct flds \<Rightarrow> struct_arm (imap e) rec flds r | _ \<Rightarrow> Some (decimal_arm l r))"
      using assms(2) number_nested_arm [OF assms] unfolding number_cases
      by (elim insertE emptyE; hypsubst) (simp_all add: last_arms_def)
    then show ?thesis
      using assms(1) unfolding number_cases by (elim insertE emptyE) simp_all
  qed
  then show ?thesis
    by (simp add: number_no_arm(3) [OF assms(1)])
qed

lemma number_dt_eq: "number l \<Longrightarrow> number r \<Longrightarrow> dt_eq l r \<longleftrightarrow> l = r"
  unfolding number_cases by (elim insertE emptyE) simp_all

lemma number_inner:
  assumes "number l" and "number r"
  shows "inner e rec options l r
       = Some (if l = r then Some l
               else case int_arm (bigidx e) l r of Some t \<Rightarrow> Some t | None \<Rightarrow> bool_float_arm l r)"
  using assms number_dt_eq [OF assms]
  by (simp add: inner_def first_arms_def number_no_arm number_last_arms split: option.split)

lemma get_supertype_number:
  assumes "number l" and "number r"
  shows "get_supertype e l r = number_join (bigidx e) l r"
proof -
  obtain n where n: "supertype_fuel l r = Suc n"
    by (simp add: supertype_fuel_def)
  show ?thesis
    using assms
    by (auto simp: get_supertype_def n supertype_step_def number_inner or_else_def number_join_def
        split: option.split)
qed

lemma number_join_table:
  assumes "number l" and "number r"
  shows "\<exists>t. number_join big l r = Some t \<and> number_join big r l = Some t \<and> number t
    \<and> (\<not> lossy l r \<longrightarrow> int_values l \<union> int_values r \<subseteq> int_values t)
    \<and> (machine_float t \<longleftrightarrow> machine_float l \<or> machine_float r
         \<or> \<not> (big \<and> (l = Int32 \<or> l = Int64 \<or> r = Int32 \<or> r = Int64))
           \<and> (l = UInt64 \<and> is_signed_integer r \<or> r = UInt64 \<and> is_signed_integer l))"
  using assms unfolding number_cases
  by (elim insertE emptyE; hypsubst; cases big)
    (simp_all add: number_join_def arm_defs int_values_def lossy_def wide_def machine_float_def dt_defs
      number_def machine_int_def)

definition integer_types :: "data_type list" where
  "integer_types = [Boolean, UInt8, UInt16, UInt32, UInt64, Int8, Int16, Int32, Int64]"

lemma number_join_least:
  assumes "number l" and "number r" and "number_join big l r = Some t" and "\<not> machine_float t"
  shows "list_all (\<lambda>u. int_values l \<union> int_values r \<subseteq> int_values u \<longrightarrow> int_values t \<subseteq> int_values u)
    integer_types"
  using assms unfolding number_cases
  by (elim insertE emptyE; hypsubst; cases big)
    (simp_all add: number_join_def int_arm_def bool_float_arm_def int_values_def machine_float_def
      integer_types_def)

lemma supertype_of_numbers_some: "number l \<Longrightarrow> number r \<Longrightarrow> get_supertype e l r \<noteq> None"
  using number_join_table [of l r "bigidx e"] by (auto simp: get_supertype_number)

text \<open>
  C14.  Two number types always have a supertype, the same in both orders, which is again a
  number type. It represents every integer of both, except when a 64-bit integer type meets a
  floating point type, or unsigned 64-bit integers meet a signed type. An integer supertype
  is the smallest: every integer type that represents both also represents all of it.
\<close>

theorem supertype_of_numbers:
  assumes "number l" and "number r"
  shows "\<exists>t. get_supertype e l r = Some t \<and> get_supertype e r l = Some t \<and> number t
    \<and> (\<not> lossy l r \<longrightarrow> int_values l \<union> int_values r \<subseteq> int_values t)
    \<and> (machine_float l \<or> machine_float r \<longrightarrow> machine_float t)
    \<and> (\<not> machine_float t \<longrightarrow>
         (\<forall>u \<in> set integer_types. int_values l \<union> int_values r \<subseteq> int_values u \<longrightarrow>
            int_values t \<subseteq> int_values u))"
proof -
  obtain t where t: "number_join (bigidx e) l r = Some t" "number_join (bigidx e) r l = Some t" "number t"
      "\<not> lossy l r \<longrightarrow> int_values l \<union> int_values r \<subseteq> int_values t"
      "machine_float l \<or> machine_float r \<longrightarrow> machine_float t"
    using number_join_table [OF assms, of "bigidx e"] by blast
  have "\<forall>u \<in> set integer_types. int_values l \<union> int_values r \<subseteq> int_values u \<longrightarrow>
            int_values t \<subseteq> int_values u" if "\<not> machine_float t"
    using number_join_least [OF assms t(1) that] by (simp add: list_all_iff)
  with t assms show ?thesis
    by (simp add: get_supertype_number)
qed

theorem supertype_of_numbers_witness:
  "\<exists>t. get_supertype \<lparr>bigidx = False, imap = alist_map\<rparr> Int8 UInt32 = Some t
     \<and> int_values Int8 \<union> int_values UInt32 \<subseteq> int_values t"
  using supertype_of_numbers [of Int8 UInt32 "\<lparr>bigidx = False, imap = alist_map\<rparr>"]
  by (auto simp: number_def machine_int_def machine_float_def lossy_def wide_def dt_defs)

subsection \<open>Equal types and the null type\<close>

lemma get_supertype_of_step:
  assumes "\<And>rec. supertype_step e rec default_options l r = Some x"
  shows "get_supertype e l r = x"
proof -
  obtain n where "supertype_fuel l r = Suc n"
    by (simp add: supertype_fuel_def)
  then show ?thesis
    using assms by (simp add: get_supertype_def)
qed

lemma get_supertype_equal: "dt_eq l r \<Longrightarrow> get_supertype e l r = Some l"
  by (rule get_supertype_of_step) (simp add: supertype_step_def inner_def or_else_def)

lemma inner_Null: "inner e rec options t Null = Some (Some t)"
  by (cases t) (simp_all add: inner_def first_arms_def arm_defs)

lemma get_supertype_Null_right: "get_supertype e t Null = Some t"
  by (rule get_supertype_of_step) (simp add: supertype_step_def inner_Null or_else_def)

lemma inner_Null_left:
  "inner e rec default_options Null t = Some None \<or> inner e rec default_options Null t = Some (Some t)"
  by (cases t)
    (simp_all add: inner_def first_arms_def last_arms_def arm_defs unknown_arm_def dt_defs dyn_number_def
      split: unknown_kind.split)

lemma get_supertype_Null_left: "get_supertype e Null t = Some t"
proof (rule get_supertype_of_step)
  show "supertype_step e rec default_options Null t = Some (Some t)" for rec
    using inner_Null_left [of e rec t]
    by (auto simp: supertype_step_def inner_Null or_else_def)
qed

text \<open>
  C30.  The null type is neutral on both sides, and types that compare equal have the left
  one as supertype. The second law takes precedence over the arms of the match that are meant
  to combine two decimals into the larger precision and scale, and two dynamic integers into
  the larger value: those arms are never reached, and the supertype of two decimals is the
  left decimal even when it cannot hold the right one.
\<close>

theorem supertype_keeps_left:
  "get_supertype e Null t = Some t \<and> get_supertype e t Null = Some t
   \<and> get_supertype e t t = Some t
   \<and> get_supertype e (Decimal p s) (Decimal p' s') = Some (Decimal p s)
   \<and> get_supertype e (Unknown (Kind_Int v)) (Unknown (Kind_Int w)) = Some (Unknown (Kind_Int v))"
  by (simp add: get_supertype_equal get_supertype_Null_left get_supertype_Null_right)

subsection \<open>Integer literals\<close>

lemma machine_int_number: "machine_int t \<Longrightarrow> number t"
  by (simp add: number_def)

lemma machine_int_cases:
  "machine_int t \<longleftrightarrow> t \<in> {UInt8, UInt16, UInt32, UInt64, Int8, Int16, Int32, Int64}"
  by (cases t) (simp_all add: machine_int_def dt_defs)

lemma machine_int_literal_step:
  assumes "machine_int t"
  shows "inner e rec default_options t (Unknown (Kind_Int v)) = dyn_int_arm rec t v"
proof -
  have "first_arms (bigidx e) default_options t (Unknown (Kind_Int v)) = None"
    and "\<not> dt_eq t (Unknown (Kind_Int v))"
    and "nested_arm rec default_options t (Unknown (Kind_Int v)) = None"
    using assms unfolding machine_int_cases
    by (elim insertE emptyE; hypsubst; simp add: first_arms_def arm_defs)+
  moreover have "unknown_arm rec default_options t (Kind_Int v) = dyn_int_arm rec t v"
    using assms unfolding machine_int_cases
    by (elim insertE emptyE; hypsubst) (simp_all add: unknown_arm_def dt_defs)
  moreover have "\<And>flds. t \<noteq> Struct flds"
    using assms by (auto simp: machine_int_def dt_defs)
  ultimately show ?thesis
    by (cases t) (auto simp: inner_def last_arms_def)
qed

lemma smallest_fitting_number:
  "smallest_fitting_dtype t v = Null \<or> number (smallest_fitting_dtype t v)"
  by (simp add: smallest_fitting_dtype_def materialize_dyn_int_pos_def materialize_smallest_dyn_int_def
      number_cases)

lemma get_supertype_literal:
  assumes im: "index_map_ok (imap e)" and t: "machine_int t"
  shows "get_supertype e t (Unknown (Kind_Int v)) =
    (if t = UInt64 \<and> is_signed_integer (smallest_fitting_dtype t v) then Some Int64
     else get_supertype e t (smallest_fitting_dtype t v))"
proof -
  let ?f = "\<lambda>a b. Some (get_supertype e a b)"
  have arm: "dyn_int_arm ?f t v = Some (if t = UInt64 \<and> is_signed_integer (smallest_fitting_dtype t v)
      then Some Int64 else get_supertype e t (smallest_fitting_dtype t v))"
    using t by (cases t) (auto simp: dyn_int_arm_def machine_int_def dt_defs)
  have "get_supertype e t (smallest_fitting_dtype t v) \<noteq> None"
    using smallest_fitting_number [of t v] supertype_of_numbers_some [OF machine_int_number [OF t]]
    by (auto simp: get_supertype_Null_right)
  then have "supertype_step e ?f default_options t (Unknown (Kind_Int v)) = dyn_int_arm ?f t v"
    unfolding supertype_step_def machine_int_literal_step [OF t] arm
    by (auto simp: or_else_def)
  then show ?thesis
    using get_supertype_rec [OF im, of t "Unknown (Kind_Int v)"] arm by simp
qed

lemma machine_int_not_float: "machine_int t \<Longrightarrow> \<not> machine_float t"
  by (auto simp: machine_int_def machine_float_def dt_defs)

lemma smallest_fitting_fits:
  assumes "- (2 ^ 63) \<le> v" and "v < 2 ^ 64"
  shows "v \<in> int_values (smallest_fitting_dtype t v) \<and> machine_int (smallest_fitting_dtype t v)"
  using assms
  by (auto simp: smallest_fitting_dtype_def materialize_dyn_int_pos_def materialize_smallest_dyn_int_def
      int_values_def fits_signed_def fits_unsigned_def machine_int_cases)

lemma smallest_fitting_none:
  assumes "v < - (2 ^ 63) \<or> 2 ^ 64 \<le> v"
  shows "smallest_fitting_dtype t v = Null"
  using assms
  by (auto simp: smallest_fitting_dtype_def materialize_dyn_int_pos_def materialize_smallest_dyn_int_def
      fits_signed_def fits_unsigned_def)

lemma smallest_fitting_UInt64:
  "smallest_fitting_dtype t v = UInt64 \<Longrightarrow> is_signed_integer t \<Longrightarrow> 2 ^ 63 \<le> v"
  by (cases t)
    (auto simp: smallest_fitting_dtype_def materialize_smallest_dyn_int_def fits_signed_def
      fits_unsigned_def dt_defs split: if_splits)

text \<open>
  With the feature \<^verbatim>\<open>bigidx\<close> the table sends the larger signed types and unsigned 64-bit to signed
  64-bit, which does not hold the literals in the upper half of the unsigned range.
\<close>

definition overlong :: "bool \<Rightarrow> data_type \<Rightarrow> int \<Rightarrow> bool" where
  "overlong big t v \<longleftrightarrow> big \<and> t \<in> {Int32, Int64} \<and> 2 ^ 63 \<le> v"

lemma signed_UInt64_join:
  assumes "is_signed_integer t"
  shows "number_join big t UInt64 = Some (if big \<and> t \<in> {Int32, Int64} then Int64 else Float64)"
  using assms by (cases t) (auto simp: number_join_def arm_defs dt_defs)

lemma literal_in_range:
  assumes "index_map_ok (imap e)" and "machine_int t"
    and v: "- (2 ^ 63) \<le> v" "v < 2 ^ 64" "\<not> overlong (bigidx e) t v"
  shows "\<exists>u. get_supertype e t (Unknown (Kind_Int v)) = Some u
         \<and> (u = Float64 \<or> machine_int u \<and> v \<in> int_values u
              \<and> (t \<noteq> UInt64 \<longrightarrow> int_values t \<subseteq> int_values u))"
proof -
  let ?s = "smallest_fitting_dtype t v"
  have s: "v \<in> int_values ?s" "machine_int ?s"
    using smallest_fitting_fits [of v t] v by (auto split: if_splits)
  note lit = get_supertype_literal [OF assms(1,2), of v]
  consider (signed) "t = UInt64" "is_signed_integer ?s" | (wide) "?s = UInt64" "is_signed_integer t"
    | (plain) "\<not> lossy t ?s"
    using machine_int_not_float [OF s(2)] machine_int_not_float [OF assms(2)]
    unfolding lossy_def by blast
  then show ?thesis
  proof cases
    case signed
    have "v \<in> int_values Int64"
      using signed(2) s(1) by (cases ?s) (simp_all add: dt_defs int_values_def)
    then show ?thesis
      using lit signed by (auto simp: machine_int_cases)
  next
    case wide
    have "number_join (bigidx e) t UInt64 = Some Float64"
      using smallest_fitting_UInt64 [OF wide] v(3) signed_UInt64_join [OF wide(2), of "bigidx e"]
      by (auto simp: overlong_def)
    then show ?thesis
      using lit wide get_supertype_number [of t UInt64 e] machine_int_number [OF assms(2)]
      by (auto simp: number_cases dt_defs)
  next
    case plain
    obtain u where u: "number_join (bigidx e) t ?s = Some u" "number u"
        "int_values t \<union> int_values ?s \<subseteq> int_values u" "\<not> machine_float u"
      using number_join_table [OF machine_int_number [OF assms(2)] machine_int_number [OF s(2)], of "bigidx e"]
        plain machine_int_not_float [OF s(2)] machine_int_not_float [OF assms(2)]
      unfolding lossy_def by blast
    have "u \<noteq> Boolean"
      using u(3) assms(2) unfolding machine_int_cases by (auto simp: int_values_def)
    moreover have "\<not> (t = UInt64 \<and> is_signed_integer ?s)"
      using plain unfolding lossy_def by blast
    ultimately show ?thesis
      using lit u s get_supertype_number [OF machine_int_number [OF assms(2)] machine_int_number [OF s(2)], of e]
      by (auto simp: number_def)
  qed
qed

lemma literal_overlong:
  assumes "index_map_ok (imap e)" and "overlong (bigidx e) t v" and "v < 2 ^ 64"
  shows "get_supertype e t (Unknown (Kind_Int v)) = Some Int64 \<and> v \<notin> int_values Int64"
proof -
  have t: "t \<in> {Int32, Int64}" "bigidx e" "2 ^ 63 \<le> v" using assms(2) by (auto simp: overlong_def)
  then have "machine_int t" "is_signed_integer t" by (auto simp: machine_int_cases dt_defs)
  moreover have "smallest_fitting_dtype t v = UInt64"
    using t assms(3)
    by (auto simp: smallest_fitting_dtype_def materialize_smallest_dyn_int_def fits_signed_def fits_unsigned_def
        dt_defs)
  ultimately show ?thesis
    using get_supertype_literal [OF assms(1), of t v] t signed_UInt64_join [of t "bigidx e"]
      get_supertype_number [of t UInt64 e] machine_int_number
    by (auto simp: number_cases dt_defs int_values_def)
qed

lemma literal_out_of_range:
  assumes "index_map_ok (imap e)" and "machine_int t" and "v < - (2 ^ 63) \<or> 2 ^ 64 \<le> v"
  shows "get_supertype e t (Unknown (Kind_Int v)) = Some t \<and> v \<notin> int_values t"
  using get_supertype_literal [OF assms(1,2), of v] assms(2,3)
  by (auto simp: smallest_fitting_none get_supertype_Null_right dt_defs machine_int_cases int_values_def)

text \<open>
  C17.  An integer literal in the range of the signed or the unsigned 64-bit type takes, against
  an integer column type, a number type: when that is an integer type it represents the literal,
  and every value of the column unless the column is unsigned 64-bit. There is one exception:
  with the feature \<^verbatim>\<open>bigidx\<close>, a literal from \<open>2 ^ 63\<close> on takes, against a signed 32-bit or 64-bit
  column, the signed 64-bit type, which cannot represent it. A literal outside the 64-bit
  ranges is disregarded, and the column type is returned although it cannot represent
  the literal.
\<close>

theorem literal_supertype_fits:
  assumes "index_map_ok (imap e)" and "machine_int t"
  shows "(- (2 ^ 63) \<le> v \<and> v < 2 ^ 64 \<and> \<not> (bigidx e \<and> t \<in> {Int32, Int64} \<and> 2 ^ 63 \<le> v) \<longrightarrow>
      (\<exists>u. get_supertype e t (Unknown (Kind_Int v)) = Some u
         \<and> (u = Float64 \<or> machine_int u \<and> v \<in> int_values u
              \<and> (t \<noteq> UInt64 \<longrightarrow> int_values t \<subseteq> int_values u))))
    \<and> (bigidx e \<and> t \<in> {Int32, Int64} \<and> 2 ^ 63 \<le> v \<and> v < 2 ^ 64 \<longrightarrow>
        get_supertype e t (Unknown (Kind_Int v)) = Some Int64 \<and> v \<notin> int_values Int64)
    \<and> (v < - (2 ^ 63) \<or> 2 ^ 64 \<le> v \<longrightarrow>
        get_supertype e t (Unknown (Kind_Int v)) = Some t \<and> v \<notin> int_values t)"
  using literal_in_range [OF assms, of v] literal_overlong [OF assms(1), of t v]
    literal_out_of_range [OF assms, of v]
  unfolding overlong_def by blast

theorem literal_supertype_fits_witness:
  "(\<exists>u. get_supertype \<lparr>bigidx = False, imap = alist_map\<rparr> Int8 (Unknown (Kind_Int 300)) = Some u
      \<and> (u = Float64 \<or> machine_int u \<and> 300 \<in> int_values u \<and> int_values Int8 \<subseteq> int_values u))
   \<and> get_supertype \<lparr>bigidx = True, imap = alist_map\<rparr> Int64 (Unknown (Kind_Int (2 ^ 63))) = Some Int64
   \<and> get_supertype \<lparr>bigidx = False, imap = alist_map\<rparr> Int8 (Unknown (Kind_Int (2 ^ 64))) = Some Int8"
  using literal_supertype_fits [of "\<lparr>bigidx = False, imap = alist_map\<rparr>" Int8 300]
    literal_supertype_fits [of "\<lparr>bigidx = True, imap = alist_map\<rparr>" Int64 "2 ^ 63"]
    literal_supertype_fits [of "\<lparr>bigidx = False, imap = alist_map\<rparr>" Int8 "2 ^ 64"]
  by (simp add: alist_map_ok machine_int_cases)

subsection \<open>The supertype of a list of types\<close>

text \<open>
  The contract under which a fold of partial joins gives a value above every element: \<open>ok\<close>
  holds of the running value, \<open>elem\<close> of the elements, and a join keeps the elements that
  the running value is above.
\<close>

locale join_fold =
  fixes join :: "'a \<Rightarrow> 'a \<Rightarrow> 'a option"
    and ok :: "'a \<Rightarrow> bool"
    and elem :: "'a \<Rightarrow> bool"
    and below :: "'a \<Rightarrow> 'a \<Rightarrow> bool"
  assumes join_step: "ok s \<Longrightarrow> elem d \<Longrightarrow>
    \<exists>t. join s d = Some t \<and> ok t \<and> below d t \<and> (\<forall>x. elem x \<longrightarrow> below x s \<longrightarrow> below x t)"
begin

lemma join_fold_above:
  "ok s \<Longrightarrow> list_all elem ds \<Longrightarrow> (\<And>x. x \<in> X \<Longrightarrow> elem x \<and> below x s) \<Longrightarrow>
   \<exists>t. fold (\<lambda>d acc. Option.bind acc (\<lambda>s. join s d)) ds (Some s) = Some t \<and> ok t
     \<and> (\<forall>x \<in> X \<union> set ds. below x t)"
proof (induction ds arbitrary: s X)
  case (Cons d ds)
  then obtain t where t: "join s d = Some t" "ok t" "below d t"
      "\<forall>x. elem x \<longrightarrow> below x s \<longrightarrow> below x t"
    using join_step [of s d] by auto
  with Cons.IH [of t "insert d X"] Cons.prems show ?case
    by fastforce
qed auto

end

definition narrow :: "data_type \<Rightarrow> bool" where
  "narrow t \<longleftrightarrow> number t \<and> \<not> wide t"

definition running_type :: "data_type \<Rightarrow> bool" where
  "running_type t \<longleftrightarrow> t = Null \<or> number t \<and> t \<noteq> UInt64"

lemma narrow_Float64: "narrow t \<Longrightarrow> int_values t \<subseteq> int_values Float64"
  unfolding narrow_def number_cases wide_def
  by (auto simp: int_values_def)

lemma running_join:
  assumes "number s" and "s \<noteq> UInt64" and "narrow d"
  shows "\<exists>t. number_join big s d = Some t \<and> number t \<and> t \<noteq> UInt64
    \<and> int_values d \<subseteq> int_values t \<and> (int_values s \<subseteq> int_values t \<or> t = Float64)"
  using assms unfolding narrow_def number_cases wide_def
  by (elim conjE insertE emptyE; hypsubst)
    (simp_all add: number_join_def int_arm_def bool_float_arm_def int_values_def)

interpretation st: join_fold "get_supertype e" running_type narrow
    "\<lambda>d t. int_values d \<subseteq> int_values t" for e
proof
  fix s d
  assume s: "running_type s" and d: "narrow d"
  show "\<exists>t. get_supertype e s d = Some t \<and> running_type t \<and> int_values d \<subseteq> int_values t
      \<and> (\<forall>x. narrow x \<longrightarrow> int_values x \<subseteq> int_values s \<longrightarrow> int_values x \<subseteq> int_values t)"
  proof (cases "s = Null")
    case True
    have "int_values x = {}" if "int_values x \<subseteq> int_values Null" for x
      using that by (simp add: int_values_def)
    then show ?thesis
      using True d by (auto simp: get_supertype_Null_left running_type_def narrow_def wide_def)
  next
    case False
    with s have "number s" "s \<noteq> UInt64"
      by (auto simp: running_type_def)
    from running_join [OF this d, of "bigidx e"] obtain t where
      "number_join (bigidx e) s d = Some t" "number t" "t \<noteq> UInt64" "int_values d \<subseteq> int_values t"
      "int_values s \<subseteq> int_values t \<or> t = Float64"
      by blast
    moreover have "get_supertype e s d = number_join (bigidx e) s d"
      using \<open>number s\<close> d by (intro get_supertype_number) (simp_all add: narrow_def)
    ultimately show ?thesis
      using narrow_Float64 unfolding running_type_def by fastforce
  qed
qed

lemma dtypes_to_supertype_from_fold:
  "dtypes_to_supertype_from e s ds =
     (case fold (\<lambda>d acc. Option.bind acc (\<lambda>s. get_supertype e s d)) ds (Some s) of
        Some t \<Rightarrow> Inr t | None \<Rightarrow> Inl (Err ''failed to determine supertype''))"
proof (induction ds arbitrary: s)
  case (Cons d ds)
  have none: "fold (\<lambda>d acc. Option.bind acc (\<lambda>s. get_supertype e s d)) ds None = None"
    by (induction ds) simp_all
  show ?case
    using Cons.IH by (cases "get_supertype e s d") (simp_all add: try_get_supertype_def none)
qed simp

text \<open>
  C20.  The supertype of a list of number types of at most 32 bits always exists and
  represents every integer of every type in the list exactly, in whatever order the types come
  and even when an intermediate supertype is a 64-bit integer type.
\<close>

theorem dtypes_to_supertype_exact:
  assumes "list_all narrow dtypes"
  shows "\<exists>t. dtypes_to_supertype e dtypes = Inr t
    \<and> (\<forall>d \<in> set dtypes. int_values d \<subseteq> int_values t)"
  using st.join_fold_above [of Null dtypes "{}" e] assms
  by (auto simp: dtypes_to_supertype_def dtypes_to_supertype_from_fold running_type_def)

theorem dtypes_to_supertype_exact_witness:
  "\<exists>t. dtypes_to_supertype \<lparr>bigidx = False, imap = alist_map\<rparr> [Int8, UInt32, Float32] = Inr t
    \<and> (\<forall>d \<in> {Int8, UInt32, Float32}. int_values d \<subseteq> int_values t)"
  using dtypes_to_supertype_exact [of "[Int8, UInt32, Float32]" "\<lparr>bigidx = False, imap = alist_map\<rparr>"]
  by (simp add: narrow_def wide_def number_cases)

end
