(* ===== verification/RevMap.thy ===== *)
theory RevMap
  imports DataTypes
begin

section \<open>Reverse mappings of categoricals and the merge of types\<close>

text \<open>
  \<open>RevMapping\<close> (\<open>chunked_array/logical/categorical/revmap.rs\<close>) resolves the physical codes
  of a categorical column to strings; \<open>GlobalRevMapMerger\<close> (\<open>merge.rs\<close>) combines two of
  them that come from the same string cache, and \<open>merge_dtypes\<close> (\<open>datatypes/dtype.rs\<close>)
  merges the types of two columns that are appended.

  The hash map of a global mapping is the list of its entries in iteration order. The
  identity of two \<open>Arc\<close> pointers is the parameter \<open>ptr_eq\<close>; identical pointers hold the
  same mapping. The slot of a null category holds the empty string.
\<close>

subsection \<open>Lookup\<close>

definition value_unchecked :: "string option list \<Rightarrow> nat \<Rightarrow> string res" where
  "value_unchecked a i =
     (if i < length a then Inr (case a ! i of Some s \<Rightarrow> s | None \<Rightarrow> '''') else Inl UB)"

definition array_value :: "string option list \<Rightarrow> nat \<Rightarrow> string res" where
  "array_value a i = (if i < length a then value_unchecked a i else Inl Panic)"

definition array_get :: "string option list \<Rightarrow> nat \<Rightarrow> string option" where
  "array_get a i = (if i < length a then a ! i else None)"

definition rev_len :: "rev_mapping \<Rightarrow> nat" where
  "rev_len m = length (get_categories m)"

definition rev_get :: "rev_mapping \<Rightarrow> u32 \<Rightarrow> string res" where
  "rev_get m idx =
     (case m of
        Global em a _ \<Rightarrow>
          (case map_of em idx of None \<Rightarrow> Inl Panic | Some i \<Rightarrow> array_value a (unat i))
      | Local a _ \<Rightarrow> array_value a (unat idx))"

definition rev_get_optional :: "rev_mapping \<Rightarrow> u32 \<Rightarrow> string option" where
  "rev_get_optional m idx =
     (case m of
        Global em a _ \<Rightarrow> Option.bind (map_of em idx) (\<lambda>i. array_get a (unat i))
      | Local a _ \<Rightarrow> array_get a (unat idx))"

definition rev_get_unchecked :: "rev_mapping \<Rightarrow> u32 \<Rightarrow> string res" where
  "rev_get_unchecked m idx =
     (case m of
        Global em a _ \<Rightarrow>
          (case map_of em idx of None \<Rightarrow> Inl Panic | Some i \<Rightarrow> value_unchecked a (unat i))
      | Local a _ \<Rightarrow> value_unchecked a (unat idx))"

subsection \<open>The merger\<close>

record merge_state =
  ms_map :: "(u32 \<times> u32) list"
  ms_slots :: "string option list"

record rev_map_merger =
  mg_id :: u32
  mg_original :: rev_mapping
  mg_state :: "merge_state option"

definition merger_new :: "rev_mapping \<Rightarrow> rev_map_merger res" where
  "merger_new rev_map =
     (case rev_map of
        Global _ _ i \<Rightarrow> Inr \<lparr>mg_id = i, mg_original = rev_map, mg_state = None\<rparr>
      | Local _ _ \<Rightarrow> Inl Panic)"

definition merger_init_state :: "rev_map_merger \<Rightarrow> rev_map_merger res" where
  "merger_init_state mg =
     (case mg_original mg of
        Global em slots _ \<Rightarrow> Inr (mg\<lparr>mg_state := Some \<lparr>ms_map = em, ms_slots = slots\<rparr>\<rparr>)
      | Local _ _ \<Rightarrow> Inl Panic)"

fun merge_entries :: "string option list \<Rightarrow> (u32 \<times> u32) list \<Rightarrow> merge_state \<Rightarrow> merge_state res" where
  "merge_entries slots [] st = Inr st"
| "merge_entries slots ((cat, idx) # entries) st =
     (case map_of (ms_map st) cat of
        Some _ \<Rightarrow> merge_entries slots entries st
      | None \<Rightarrow>
          rbind (value_unchecked slots (unat idx)) (\<lambda>str_val.
            let new_idx = of_nat (length (ms_slots st)) in
            merge_entries slots entries
              (st\<lparr>ms_slots := ms_slots st @ [Some str_val], ms_map := ms_map st @ [(cat, new_idx)]\<rparr>)))"

definition merge_map :: "(rev_mapping \<Rightarrow> rev_mapping \<Rightarrow> bool) \<Rightarrow> rev_map_merger \<Rightarrow> rev_mapping \<Rightarrow> rev_map_merger res"
where
  "merge_map ptr_eq mg rev_map =
     (if ptr_eq (mg_original mg) rev_map then Inr mg
      else case rev_map of
        Local _ _ \<Rightarrow> Inl (Err ''string cache mismatch'')
      | Global em slots i \<Rightarrow>
          (if i \<noteq> mg_id mg then Inl (Err ''string cache mismatch'')
           else rbind (case mg_state mg of None \<Rightarrow> merger_init_state mg | Some _ \<Rightarrow> Inr mg) (\<lambda>mg.
             case mg_state mg of
               None \<Rightarrow> Inl Panic
             | Some st \<Rightarrow>
                 rbind (merge_entries slots em st) (\<lambda>st. Inr (mg\<lparr>mg_state := Some st\<rparr>)))))"

definition merger_finish :: "rev_map_merger \<Rightarrow> rev_mapping" where
  "merger_finish mg =
     (case mg_state mg of
        None \<Rightarrow> mg_original mg
      | Some st \<Rightarrow> Global (ms_map st) (ms_slots st) (mg_id mg))"

subsection \<open>The merge of types\<close>

definition merge_rest :: "data_type \<Rightarrow> data_type \<Rightarrow> data_type res" where
  "merge_rest left right =
     (if dt_eq left right then Inr left else Inl (Err ''unable to merge datatypes''))"

fun merge_dtypes :: "(rev_mapping \<Rightarrow> rev_mapping \<Rightarrow> bool) \<Rightarrow> data_type \<Rightarrow> data_type \<Rightarrow> data_type res" where
  "merge_dtypes ptr_eq (Categorical l ord) right =
     (case (l, right) of
        (Some rev_map_l, Categorical (Some rev_map_r) _) \<Rightarrow>
          (case (rev_map_l, rev_map_r) of
             (Global _ _ idl, Global _ _ idr) \<Rightarrow>
               (if idl = idr
                then rbind (merger_new rev_map_l) (\<lambda>mg.
                  rbind (merge_map ptr_eq mg rev_map_r) (\<lambda>mg.
                    Inr (Categorical (Some (merger_finish mg)) ord)))
                else Inl (Err ''string cache mismatch''))
           | (Local _ idl, Local _ idr) \<Rightarrow>
               (if idl = idr then Inr (Categorical l ord) else Inl (Err ''string cache mismatch''))
           | _ \<Rightarrow> Inl (Err ''string cache mismatch''))
      | _ \<Rightarrow> merge_rest (Categorical l ord) right)"
| "merge_dtypes ptr_eq (Enum l ord) right =
     (case (l, right) of
        (Some rev_map_l, Enum (Some rev_map_r) _) \<Rightarrow>
          (case (rev_map_l, rev_map_r) of
             (Local _ idl, Local _ idr) \<Rightarrow>
               (if idl = idr then Inr (Enum l ord)
                else Inl (Err ''can not combine with different categories''))
           | _ \<Rightarrow> Inl (Err ''can not combine with different categories''))
      | _ \<Rightarrow> merge_rest (Enum l ord) right)"
| "merge_dtypes ptr_eq (List inner_l) right =
     (case right of
        List inner_r \<Rightarrow> rbind (merge_dtypes ptr_eq inner_l inner_r) (\<lambda>merged. Inr (List merged))
      | _ \<Rightarrow> merge_rest (List inner_l) right)"
| "merge_dtypes ptr_eq (Array inner_l width_l) right =
     (case right of
        Array inner_r width_r \<Rightarrow>
          (if width_l = width_r
           then rbind (merge_dtypes ptr_eq inner_l inner_r) (\<lambda>merged. Inr (Array merged width_l))
           else Inl (Err ''widths of FixedSizeWidth Series are not equal''))
      | _ \<Rightarrow> merge_rest (Array inner_l width_l) right)"
| "merge_dtypes ptr_eq left right = merge_rest left right"

subsection \<open>Merged mappings resolve both\<close>

text \<open>Every code of a well-formed mapping leads to a category.\<close>

definition entries_ok :: "(u32 \<times> u32) list \<Rightarrow> string option list \<Rightarrow> bool" where
  "entries_ok em a \<longleftrightarrow> list_all (\<lambda>(_, i). unat i < length a \<and> a ! unat i \<noteq> None) em"

lemma entries_ok_lookup:
  assumes "entries_ok em a" and "map_of em k = Some i"
  shows "unat i < length a" and "a ! unat i \<noteq> None"
  using assms map_of_SomeD [of em k i] by (auto simp: entries_ok_def list_all_iff)

definition state_get :: "merge_state \<Rightarrow> u32 \<Rightarrow> string option" where
  "state_get st = (\<lambda>k. Option.bind (map_of (ms_map st) k) (\<lambda>i. array_get (ms_slots st) (unat i)))"

definition state_ok :: "merge_state \<Rightarrow> bool" where
  "state_ok st \<longleftrightarrow> entries_ok (ms_map st) (ms_slots st)"

lemma state_get_dom: "state_ok st \<Longrightarrow> state_get st k = None \<longleftrightarrow> map_of (ms_map st) k = None"
  using entries_ok_lookup [of "ms_map st" "ms_slots st" k]
  by (auto simp: state_ok_def state_get_def array_get_def split: Option.bind_split)

text \<open>One new category: the old codes keep their strings, the new code gets its own.\<close>

lemma state_push:
  fixes st :: merge_state and s :: string
  assumes ok: "state_ok st" and new: "map_of (ms_map st) cat = None"
    and len: "length (ms_slots st) < 2 ^ 32"
  defines "st' \<equiv> st\<lparr>ms_slots := ms_slots st @ [Some s],
      ms_map := ms_map st @ [(cat, of_nat (length (ms_slots st)))]\<rparr>"
  shows "state_ok st'" and "state_get st' = (state_get st)(cat \<mapsto> s)"
proof -
  have n: "unat (of_nat (length (ms_slots st)) :: u32) = length (ms_slots st)"
    using len by (simp add: unat_of_nat)
  show "state_ok st'"
    using ok n by (auto simp: state_ok_def st'_def entries_ok_def list_all_iff nth_append)
  show "state_get st' = (state_get st)(cat \<mapsto> s)"
  proof (rule ext)
    fix k
    show "state_get st' k = ((state_get st)(cat \<mapsto> s)) k"
    proof (cases "map_of (ms_map st) k")
      case None
      then show ?thesis
        using n by (auto simp: state_get_def st'_def array_get_def map_add_def)
    next
      case (Some i)
      with new entries_ok_lookup [OF ok [unfolded state_ok_def] Some] show ?thesis
        by (auto simp: state_get_def st'_def array_get_def nth_append map_add_def)
    qed
  qed
qed

lemma merge_entries_correct:
  assumes slots: "entries_ok entries slots"
  shows "state_ok st \<Longrightarrow> length (ms_slots st) + length entries \<le> 2 ^ 32 \<Longrightarrow>
    \<exists>st'. merge_entries slots entries st = Inr st' \<and> state_ok st'
      \<and> state_get st' = (\<lambda>k. Option.bind (map_of entries k) (\<lambda>i. array_get slots (unat i))) ++ state_get st"
  using slots
proof (induction entries arbitrary: st)
  case Nil
  then show ?case
    by (simp add: map_add_def)
next
  case (Cons e entries)
  obtain cat idx where e: "e = (cat, idx)"
    by (cases e)
  have ok: "entries_ok entries slots" and idx: "unat idx < length slots" "slots ! unat idx \<noteq> None"
    using Cons.prems(3) by (auto simp: entries_ok_def e)
  show ?case
  proof (cases "map_of (ms_map st) cat")
    case (Some i)
    then obtain s where "state_get st cat = Some s"
      using state_get_dom [OF Cons.prems(1), of cat] by (cases "state_get st cat") auto
    with Some Cons.IH [OF Cons.prems(1) _ ok] Cons.prems(2) show ?thesis
      by (auto simp: e map_add_def fun_eq_iff split: option.split)
  next
    case None
    obtain s where s: "slots ! unat idx = Some s"
      using idx(2) by blast
    let ?st = "st\<lparr>ms_slots := ms_slots st @ [Some s],
      ms_map := ms_map st @ [(cat, of_nat (length (ms_slots st)))]\<rparr>"
    note push = state_push [OF Cons.prems(1) None, of s]
    have "state_ok ?st" "state_get ?st = (state_get st)(cat \<mapsto> s)"
      using push Cons.prems(2) by simp_all
    moreover have "state_get st cat = None"
      using None state_get_dom [OF Cons.prems(1)] by blast
    ultimately show ?thesis
      using Cons.IH [of ?st, OF _ _ ok] None Cons.prems(2) idx s
      by (auto simp: e value_unchecked_def map_add_def fun_eq_iff array_get_def split: option.split)
  qed
qed

definition rev_map_ok :: "rev_mapping \<Rightarrow> bool" where
  "rev_map_ok m = (case m of Global em a _ \<Rightarrow> entries_ok em a | Local a _ \<Rightarrow> list_all (\<lambda>s. s \<noteq> None) a)"

lemma rev_get_optional_global:
  "rev_get_optional (Global em a i) = (\<lambda>k. Option.bind (map_of em k) (\<lambda>i. array_get a (unat i)))"
  by (simp add: rev_get_optional_def fun_eq_iff)

text \<open>
  C19.  Merging the types of two categorical columns from the same string cache gives a
  mapping that resolves every code of the left column to its string, and every other code
  of the right column to its string there, whatever the order in which the hash map is
  iterated; it reads no slot out of bounds. Columns from different caches are refused.
\<close>

theorem merge_dtypes_resolves:
  fixes m1 m2 :: "(u32 \<times> u32) list"
  assumes ptr: "\<And>a b. ptr_eq a b \<Longrightarrow> a = b"
    and l: "rev_map_ok (Global m1 a1 i1)" and r: "rev_map_ok (Global m2 a2 i2)"
    and len: "length a1 + length m2 \<le> 2 ^ 32"
  shows "(i1 = i2 \<longrightarrow>
      (\<exists>m. merge_dtypes ptr_eq (Categorical (Some (Global m1 a1 i1)) o1)
             (Categorical (Some (Global m2 a2 i2)) o2) = Inr (Categorical (Some m) o1)
         \<and> rev_map_ok m
         \<and> rev_get_optional m
             = rev_get_optional (Global m2 a2 i2) ++ rev_get_optional (Global m1 a1 i1)))
    \<and> (i1 \<noteq> i2 \<longrightarrow>
        merge_dtypes ptr_eq (Categorical (Some (Global m1 a1 i1)) o1)
             (Categorical (Some (Global m2 a2 i2)) o2) = Inl (Err ''string cache mismatch''))"
proof (intro conjI impI)
  assume i: "i1 = i2"
  show "\<exists>m. merge_dtypes ptr_eq (Categorical (Some (Global m1 a1 i1)) o1)
             (Categorical (Some (Global m2 a2 i2)) o2) = Inr (Categorical (Some m) o1)
         \<and> rev_map_ok m
         \<and> rev_get_optional m
             = rev_get_optional (Global m2 a2 i2) ++ rev_get_optional (Global m1 a1 i1)"
  proof (cases "ptr_eq (Global m1 a1 i1) (Global m2 a2 i2)")
    case True
    then have "Global m1 a1 i1 = Global m2 a2 i2"
      by (rule ptr)
    then show ?thesis
      using True l i
      by (simp add: merger_new_def merge_map_def merger_finish_def map_add_def fun_eq_iff split: option.split)
  next
    case False
    from l r have "state_ok \<lparr>ms_map = m1, ms_slots = a1\<rparr>" "entries_ok m2 a2"
      by (simp_all add: state_ok_def rev_map_ok_def)
    from merge_entries_correct [OF this(2,1)] len obtain st where
      "merge_entries a2 m2 \<lparr>ms_map = m1, ms_slots = a1\<rparr> = Inr st" "state_ok st"
      "state_get st = rev_get_optional (Global m2 a2 i2) ++ rev_get_optional (Global m1 a1 i1)"
      by (auto simp: rev_get_optional_global state_get_def)
    then show ?thesis
      using False i
      by (simp add: merger_new_def merge_map_def merger_init_state_def merger_finish_def
          rev_map_ok_def state_ok_def state_get_def rev_get_optional_global)
  qed
qed simp

theorem merge_dtypes_resolves_witness:
  "\<exists>m. merge_dtypes (\<lambda>_ _. False)
        (Categorical (Some (Global [(7, 0)] [Some ''a''] 1)) Physical)
        (Categorical (Some (Global [(9, 1), (7, 0)] [Some ''a'', Some ''b''] 1)) Lexical)
      = Inr (Categorical (Some m) Physical)
    \<and> rev_get_optional m 9 = Some ''b'' \<and> rev_get_optional m 7 = Some ''a''"
proof -
  have "rev_map_ok (Global [(7, 0)] [Some ''a''] 1)"
    "rev_map_ok (Global [(9, 1), (7, 0)] [Some ''a'', Some ''b''] 1)"
    by (simp_all add: rev_map_ok_def entries_ok_def)
  from merge_dtypes_resolves [OF _ this, of "\<lambda>_ _. False" Physical Lexical]
  obtain m where m: "merge_dtypes (\<lambda>_ _. False)
        (Categorical (Some (Global [(7, 0)] [Some ''a''] 1)) Physical)
        (Categorical (Some (Global [(9, 1), (7, 0)] [Some ''a'', Some ''b''] 1)) Lexical)
      = Inr (Categorical (Some m) Physical)"
    "rev_get_optional m = rev_get_optional (Global [(9, 1), (7, 0)] [Some ''a'', Some ''b''] 1)
       ++ rev_get_optional (Global [(7, 0)] [Some ''a''] 1)"
    by (auto simp del: merge_dtypes.simps)
  have "rev_get_optional m 9 = Some ''b''" "rev_get_optional m 7 = Some ''a''"
    unfolding m(2) by (simp_all add: rev_get_optional_def map_add_def array_get_def)
  with m(1) show ?thesis
    by blast
qed

end
