(* ===== verification/StreamGraph.thy ===== *)
theory StreamGraph
  imports Prelude
begin

section \<open>The compute graph of the streaming engine\<close>

text \<open>
  \<open>polars-stream/src/graph.rs\<close>: nodes connected by pipes, and the loop
  \<open>update_all_states\<close> that lets every node react to the states of the ports it is connected
  to until nothing changes.

  A key is the position of a node or pipe, since the graph only grows. What a node does with
  the port states is a parameter \<open>upd\<close>, the method \<open>update_state\<close> of the trait
  \<open>ComputeNode\<close>: it maps the state of the node and the states it sees on its inputs and
  outputs to the new state of the node and the states it wants to show there. The
  order in which the node keys are listed is a parameter, too. The stack
  \<open>to_update\<close> has its top at the head. The loop is partial: \<open>None\<close> means that it does not
  return.
\<close>

datatype port_state = Blocked | Ready | Done

record pipe =
  sender :: nat
  send_port :: nat
  send_state :: port_state
  receiver :: nat
  recv_port :: nat
  recv_state :: port_state

record 'c graph_node =
  compute :: 'c
  inputs :: "nat list"
  outputs :: "nat list"

record 'c graph =
  nodes :: "'c graph_node list"
  pipes :: "pipe list"

type_synonym 'c update_fn =
  "'c \<Rightarrow> port_state list \<Rightarrow> port_state list \<Rightarrow> ('c \<times> port_state list \<times> port_state list) res"

definition graph_new :: "'c graph" where
  "graph_new = \<lparr>nodes = [], pipes = []\<rparr>"

subsection \<open>Building the graph\<close>

definition connect :: "nat \<Rightarrow> nat \<Rightarrow> nat \<Rightarrow> 'c graph \<Rightarrow> 'c graph res" where
  "connect node_key port s g =
     (if s < length (nodes g)
      then
        let pipe_key = length (pipes g);
            p = \<lparr>sender = s, send_port = length (outputs (nodes g ! s)), send_state = Blocked,
                 receiver = node_key, recv_port = port, recv_state = Blocked\<rparr>;
            ns = (nodes g)[node_key := (nodes g ! node_key)\<lparr>inputs := inputs (nodes g ! node_key) @ [pipe_key]\<rparr>]
        in Inr \<lparr>nodes = ns[s := (ns ! s)\<lparr>outputs := outputs (ns ! s) @ [pipe_key]\<rparr>],
                pipes = pipes g @ [p]\<rparr>
      else Inl Panic)"

fun connect_all :: "nat \<Rightarrow> nat \<Rightarrow> nat list \<Rightarrow> 'c graph \<Rightarrow> 'c graph res" where
  "connect_all node_key port [] g = Inr g"
| "connect_all node_key port (s # ss) g =
     rbind (connect node_key port s g) (connect_all node_key (Suc port) ss)"

definition add_node :: "'c \<Rightarrow> nat list \<Rightarrow> 'c graph \<Rightarrow> (nat \<times> 'c graph) res" where
  "add_node c ins g =
     (let node_key = length (nodes g);
          g' = g\<lparr>nodes := nodes g @ [\<lparr>compute = c, inputs = [], outputs = []\<rparr>]\<rparr>
      in rbind (connect_all node_key 0 ins g') (\<lambda>g''. Inr (node_key, g'')))"

subsection \<open>Updating the states\<close>

definition recv_env :: "'c graph \<Rightarrow> nat \<Rightarrow> port_state list" where
  "recv_env g k = map (\<lambda>i. send_state (pipes g ! i)) (inputs (nodes g ! k))"

definition send_env :: "'c graph \<Rightarrow> nat \<Rightarrow> port_state list" where
  "send_env g k = map (\<lambda>i. recv_state (pipes g ! i)) (outputs (nodes g ! k))"

record work =
  w_pipes :: "pipe list"
  to_update :: "nat list"
  scheduled :: "nat set"

definition schedule :: "nat \<Rightarrow> work \<Rightarrow> work" where
  "schedule k w =
     (if k \<in> scheduled w then w
      else w\<lparr>to_update := k # to_update w, scheduled := insert k (scheduled w)\<rparr>)"

text \<open>
  The two loops that propagate the new states differ in the end of the pipe they write
  and in the node they wake up: \<open>get\<close> and \<open>put\<close> access the end, \<open>neighbour\<close> is the node.
\<close>

fun propagate ::
    "(pipe \<Rightarrow> port_state) \<Rightarrow> (port_state \<Rightarrow> pipe \<Rightarrow> pipe) \<Rightarrow> (pipe \<Rightarrow> nat)
      \<Rightarrow> (nat \<times> port_state) list \<Rightarrow> work \<Rightarrow> work res" where
  "propagate get put neighbour [] w = Inr w"
| "propagate get put neighbour ((i, st) # xs) w =
     (let p = w_pipes w ! i in
      if get p \<noteq> st then
        (if get p \<noteq> Done then
           propagate get put neighbour xs
             (schedule (neighbour p) (w\<lparr>w_pipes := (w_pipes w)[i := put st p]\<rparr>))
         else Inl Panic)
      else propagate get put neighbour xs w)"

definition propagate_recv :: "(nat \<times> port_state) list \<Rightarrow> work \<Rightarrow> work res" where
  "propagate_recv = propagate recv_state (\<lambda>st p. p\<lparr>recv_state := st\<rparr>) sender"

definition propagate_send :: "(nat \<times> port_state) list \<Rightarrow> work \<Rightarrow> work res" where
  "propagate_send = propagate send_state (\<lambda>st p. p\<lparr>send_state := st\<rparr>) receiver"

definition update_node ::
    "'c update_fn \<Rightarrow> 'c graph \<Rightarrow> nat \<Rightarrow> nat list \<Rightarrow> nat set \<Rightarrow> ('c graph \<times> nat list \<times> nat set) res" where
  "update_node upd g k rest sched =
     (let node = nodes g ! k in
      rbind (upd (compute node) (recv_env g k) (send_env g k)) (\<lambda>(c, recv, send).
        rbind (propagate_recv (zip (inputs node) recv)
                 \<lparr>w_pipes = pipes g, to_update = rest, scheduled = sched\<rparr>) (\<lambda>w.
          rbind (propagate_send (zip (outputs node) send) w) (\<lambda>w.
            Inr (\<lparr>nodes = (nodes g)[k := node\<lparr>compute := c\<rparr>], pipes = w_pipes w\<rparr>,
                 to_update w, scheduled w)))))"

partial_function (option) update_loop ::
    "'c update_fn \<Rightarrow> 'c graph \<Rightarrow> nat list \<Rightarrow> nat set \<Rightarrow> 'c graph res option" where
  "update_loop upd g tu sched =
     (case tu of
        [] \<Rightarrow> Some (Inr g)
      | k # rest \<Rightarrow>
          (case update_node upd g k rest (sched - {k}) of
             Inl e \<Rightarrow> Some (Inl e)
           | Inr (g', tu', sched') \<Rightarrow> update_loop upd g' tu' sched'))"

declare update_loop.simps [code]

definition update_all_states :: "'c update_fn \<Rightarrow> nat list \<Rightarrow> 'c graph \<Rightarrow> 'c graph res option" where
  "update_all_states upd keys g = update_loop upd g (rev keys) (set keys)"

subsection \<open>Well-formed graphs\<close>

text \<open>
  Every pipe is listed at the ports it names, and leads from an older node to a newer one.
\<close>

definition wf_graph :: "'c graph \<Rightarrow> bool" where
  "wf_graph g \<longleftrightarrow>
     (\<forall>k < length (nodes g).
        (\<forall>i < length (inputs (nodes g ! k)).
           inputs (nodes g ! k) ! i < length (pipes g)
           \<and> receiver (pipes g ! (inputs (nodes g ! k) ! i)) = k
           \<and> recv_port (pipes g ! (inputs (nodes g ! k) ! i)) = i)
        \<and> (\<forall>i < length (outputs (nodes g ! k)).
           outputs (nodes g ! k) ! i < length (pipes g)
           \<and> sender (pipes g ! (outputs (nodes g ! k) ! i)) = k
           \<and> send_port (pipes g ! (outputs (nodes g ! k) ! i)) = i))
     \<and> (\<forall>p < length (pipes g).
          sender (pipes g ! p) < receiver (pipes g ! p)
          \<and> receiver (pipes g ! p) < length (nodes g)
          \<and> p \<in> set (inputs (nodes g ! receiver (pipes g ! p)))
          \<and> p \<in> set (outputs (nodes g ! sender (pipes g ! p))))"

subsection \<open>Propagation\<close>

text \<open>
  The contract of one end of a pipe, and what the propagation of states to that end does:
  it writes the states, refuses to leave \<open>Done\<close>, and wakes exactly nodes at the other end
  of a pipe whose state changed.
\<close>

locale pipe_end =
  fixes get :: "pipe \<Rightarrow> port_state"
    and put :: "port_state \<Rightarrow> pipe \<Rightarrow> pipe"
    and neighbour :: "pipe \<Rightarrow> nat"
  assumes get_put: "get (put st p) = st"
    and put_get: "put (get p) p = p"
    and neighbour_put: "neighbour (put st p) = neighbour p"
begin

lemma propagate_Cons:
  assumes run: "propagate get put neighbour ((i, st) # xs) w = Inr w'"
  obtains w1 pre where "propagate get put neighbour xs w1 = Inr w'"
    and "w_pipes w1 = (w_pipes w)[i := put st (w_pipes w ! i)]"
    and "get (w_pipes w ! i) = Done \<Longrightarrow> st = Done"
    and "to_update w1 = pre @ to_update w" and "scheduled w1 = scheduled w \<union> set pre"
    and "set pre \<subseteq> {neighbour (w_pipes w ! i)}"
    and "get (w_pipes w ! i) \<noteq> st \<Longrightarrow> neighbour (w_pipes w ! i) \<in> scheduled w1"
    and "get (w_pipes w ! i) = st \<Longrightarrow> pre = []"
proof (cases "get (w_pipes w ! i) = st")
  case True
  then have "put st (w_pipes w ! i) = w_pipes w ! i"
    using put_get by blast
  then show thesis
    using run True by (intro that [of w "[]"]) simp_all
next
  case False
  define w1 where "w1 = schedule (neighbour (w_pipes w ! i)) (w\<lparr>w_pipes := (w_pipes w)[i := put st (w_pipes w ! i)]\<rparr>)"
  have step: "get (w_pipes w ! i) \<noteq> Done" "propagate get put neighbour xs w1 = Inr w'"
    using run False by (auto simp: w1_def Let_def split: if_splits)
  show thesis
    using False step
    by (intro that [of w1 "if neighbour (w_pipes w ! i) \<in> scheduled w then [] else [neighbour (w_pipes w ! i)]"])
      (auto simp: w1_def schedule_def)
qed

lemma propagate_pipes:
  assumes "propagate get put neighbour xs w = Inr w'" and "distinct (map fst xs)"
    and "\<forall>x \<in> set xs. fst x < length (w_pipes w)"
  shows "length (w_pipes w') = length (w_pipes w)
    \<and> (\<forall>j < length (w_pipes w). w_pipes w' ! j =
         (case map_of xs j of Some st \<Rightarrow> put st (w_pipes w ! j) | None \<Rightarrow> w_pipes w ! j))
    \<and> (\<forall>x \<in> set xs. get (w_pipes w ! fst x) = Done \<longrightarrow> snd x = Done)"
  using assms
proof (induction xs arbitrary: w)
  case (Cons x xs)
  obtain i st where x: "x = (i, st)"
    by (cases x)
  obtain w1 where w1: "propagate get put neighbour xs w1 = Inr w'"
      "w_pipes w1 = (w_pipes w)[i := put st (w_pipes w ! i)]" "get (w_pipes w ! i) = Done \<Longrightarrow> st = Done"
    using propagate_Cons [OF Cons.prems(1) [unfolded x]] by metis
  have i: "i < length (w_pipes w)" "i \<notin> fst ` set xs"
    using Cons.prems(2,3) x by auto
  have none: "map_of xs i = None"
    using i(2) by (simp add: map_of_eq_None_iff)
  have IH: "length (w_pipes w') = length (w_pipes w)"
    "\<forall>j < length (w_pipes w). w_pipes w' ! j =
       (case map_of xs j of Some st \<Rightarrow> put st (w_pipes w1 ! j) | None \<Rightarrow> w_pipes w1 ! j)"
    "\<forall>y \<in> set xs. get (w_pipes w1 ! fst y) = Done \<longrightarrow> snd y = Done"
    using Cons.IH [OF w1(1)] Cons.prems(2,3) by (simp_all add: w1(2))
  have "w_pipes w' ! j =
      (case map_of (x # xs) j of Some st \<Rightarrow> put st (w_pipes w ! j) | None \<Rightarrow> w_pipes w ! j)"
    if "j < length (w_pipes w)" for j
    using IH(2) i that none by (cases "j = i") (simp_all add: x w1(2) split: option.split)
  moreover have "snd y = Done" if "y \<in> set (x # xs)" "get (w_pipes w ! fst y) = Done" for y
  proof (cases "y = x")
    case False
    then have "fst y \<noteq> i" "y \<in> set xs"
      using that(1) i(2) by auto
    then show ?thesis
      using IH(3) that(2) by (simp add: w1(2))
  qed (use that w1(3) x in simp)
  ultimately show ?case
    using IH(1) by blast
qed simp

lemma propagate_wakes:
  assumes "propagate get put neighbour xs w = Inr w'" and "distinct (map fst xs)"
    and "\<forall>x \<in> set xs. fst x < length (w_pipes w)"
  shows "\<exists>new. to_update w' = new @ to_update w \<and> scheduled w' = scheduled w \<union> set new
    \<and> set new \<subseteq> (\<lambda>x. neighbour (w_pipes w ! fst x)) ` set xs
    \<and> (\<forall>x \<in> set xs. get (w_pipes w ! fst x) \<noteq> snd x \<longrightarrow> neighbour (w_pipes w ! fst x) \<in> scheduled w')
    \<and> ((\<forall>x \<in> set xs. get (w_pipes w ! fst x) = snd x) \<longrightarrow> new = [])"
  using assms
proof (induction xs arbitrary: w)
  case (Cons x xs)
  obtain i st where x: "x = (i, st)"
    by (cases x)
  obtain w1 pre where w1: "propagate get put neighbour xs w1 = Inr w'"
      "w_pipes w1 = (w_pipes w)[i := put st (w_pipes w ! i)]"
    and pre: "to_update w1 = pre @ to_update w" "scheduled w1 = scheduled w \<union> set pre"
      "set pre \<subseteq> {neighbour (w_pipes w ! i)}"
      "get (w_pipes w ! i) \<noteq> st \<Longrightarrow> neighbour (w_pipes w ! i) \<in> scheduled w1"
      "get (w_pipes w ! i) = st \<Longrightarrow> pre = []"
    using propagate_Cons [OF Cons.prems(1) [unfolded x]] by metis
  have same: "w_pipes w1 ! fst y = w_pipes w ! fst y" if "y \<in> set xs" for y
    using Cons.prems(2) that by (auto simp: x w1(2) nth_list_update image_iff)
  have len: "distinct (map fst xs)" "\<forall>x \<in> set xs. fst x < length (w_pipes w1)"
    using Cons.prems(2,3) by (simp_all add: w1(2))
  obtain new where new: "to_update w' = new @ to_update w1" "scheduled w' = scheduled w1 \<union> set new"
      "set new \<subseteq> (\<lambda>x. neighbour (w_pipes w1 ! fst x)) ` set xs"
      "\<forall>x \<in> set xs. get (w_pipes w1 ! fst x) \<noteq> snd x \<longrightarrow> neighbour (w_pipes w1 ! fst x) \<in> scheduled w'"
      "(\<forall>x \<in> set xs. get (w_pipes w1 ! fst x) = snd x) \<longrightarrow> new = []"
    using Cons.IH [OF w1(1) len] by blast
  have "\<forall>y \<in> set xs. get (w_pipes w ! fst y) \<noteq> snd y \<longrightarrow> neighbour (w_pipes w ! fst y) \<in> scheduled w'"
    using new(4) same by auto
  moreover have "set new \<subseteq> (\<lambda>x. neighbour (w_pipes w ! fst x)) ` set xs"
    using new(3) same by (auto simp: image_iff)
  moreover have "(\<forall>y \<in> set xs. get (w_pipes w ! fst y) = snd y) \<longrightarrow> new = []"
    using new(5) same by simp
  ultimately show ?case
    using new(1,2) pre by (intro exI [of _ "new @ pre"]) (auto simp: x)
qed simp

end

subsection \<open>One iteration\<close>

text \<open>What a node shows on its ports.\<close>

definition recv_shown :: "'c graph \<Rightarrow> nat \<Rightarrow> port_state list" where
  "recv_shown g k = map (\<lambda>i. recv_state (pipes g ! i)) (inputs (nodes g ! k))"

definition send_shown :: "'c graph \<Rightarrow> nat \<Rightarrow> port_state list" where
  "send_shown g k = map (\<lambda>i. send_state (pipes g ! i)) (outputs (nodes g ! k))"

definition same_shape :: "'c graph \<Rightarrow> 'c graph \<Rightarrow> bool" where
  "same_shape g h \<longleftrightarrow>
     length (nodes h) = length (nodes g)
     \<and> (\<forall>k < length (nodes g). inputs (nodes h ! k) = inputs (nodes g ! k)
                               \<and> outputs (nodes h ! k) = outputs (nodes g ! k))
     \<and> length (pipes h) = length (pipes g)
     \<and> (\<forall>p < length (pipes g). sender (pipes h ! p) = sender (pipes g ! p)
          \<and> receiver (pipes h ! p) = receiver (pipes g ! p)
          \<and> send_port (pipes h ! p) = send_port (pipes g ! p)
          \<and> recv_port (pipes h ! p) = recv_port (pipes g ! p))"

lemma same_shape_refl [simp]: "same_shape g g"
  by (simp add: same_shape_def)

lemma same_shape_trans: "same_shape g h \<Longrightarrow> same_shape h i \<Longrightarrow> same_shape g i"
  by (simp add: same_shape_def)

lemma wf_inputs_at:
  assumes "wf_graph g" and "k < length (nodes g)" and "i < length (inputs (nodes g ! k))"
  shows "inputs (nodes g ! k) ! i < length (pipes g)"
    and "receiver (pipes g ! (inputs (nodes g ! k) ! i)) = k"
    and "recv_port (pipes g ! (inputs (nodes g ! k) ! i)) = i"
  using assms unfolding wf_graph_def by blast+

lemma wf_outputs_at:
  assumes "wf_graph g" and "k < length (nodes g)" and "i < length (outputs (nodes g ! k))"
  shows "outputs (nodes g ! k) ! i < length (pipes g)"
    and "sender (pipes g ! (outputs (nodes g ! k) ! i)) = k"
    and "send_port (pipes g ! (outputs (nodes g ! k) ! i)) = i"
  using assms unfolding wf_graph_def by blast+

lemma wf_pipe:
  assumes "wf_graph g" and "p < length (pipes g)"
  shows "sender (pipes g ! p) < receiver (pipes g ! p)" "receiver (pipes g ! p) < length (nodes g)"
    "sender (pipes g ! p) < length (nodes g)"
    "p \<in> set (inputs (nodes g ! receiver (pipes g ! p)))"
    "p \<in> set (outputs (nodes g ! sender (pipes g ! p)))"
  using assms unfolding wf_graph_def by (auto intro: less_trans)

lemma wf_input:
  assumes "wf_graph g" and "k < length (nodes g)"
  shows "p \<in> set (inputs (nodes g ! k)) \<longleftrightarrow> p < length (pipes g) \<and> receiver (pipes g ! p) = k"
  using wf_inputs_at [OF assms] wf_pipe(4) [OF assms(1)] by (auto simp: in_set_conv_nth)

lemma wf_output:
  assumes "wf_graph g" and "k < length (nodes g)"
  shows "p \<in> set (outputs (nodes g ! k)) \<longleftrightarrow> p < length (pipes g) \<and> sender (pipes g ! p) = k"
  using wf_outputs_at [OF assms] wf_pipe(5) [OF assms(1)] by (auto simp: in_set_conv_nth)

lemma wf_input_port:
  assumes "wf_graph g" and "p < length (pipes g)"
  shows "recv_port (pipes g ! p) < length (inputs (nodes g ! receiver (pipes g ! p)))
    \<and> inputs (nodes g ! receiver (pipes g ! p)) ! recv_port (pipes g ! p) = p"
proof -
  obtain i where i: "i < length (inputs (nodes g ! receiver (pipes g ! p)))"
      "inputs (nodes g ! receiver (pipes g ! p)) ! i = p"
    using wf_pipe(4) [OF assms] by (auto simp: in_set_conv_nth)
  then show ?thesis
    using wf_inputs_at(3) [OF assms(1) wf_pipe(2) [OF assms] i(1)] by simp
qed

lemma wf_output_port:
  assumes "wf_graph g" and "p < length (pipes g)"
  shows "send_port (pipes g ! p) < length (outputs (nodes g ! sender (pipes g ! p)))
    \<and> outputs (nodes g ! sender (pipes g ! p)) ! send_port (pipes g ! p) = p"
proof -
  obtain i where i: "i < length (outputs (nodes g ! sender (pipes g ! p)))"
      "outputs (nodes g ! sender (pipes g ! p)) ! i = p"
    using wf_pipe(5) [OF assms] by (auto simp: in_set_conv_nth)
  then show ?thesis
    using wf_outputs_at(3) [OF assms(1) wf_pipe(3) [OF assms] i(1)] by simp
qed

lemma wf_distinct_ports:
  assumes "wf_graph g" and "k < length (nodes g)"
  shows "distinct (inputs (nodes g ! k))" and "distinct (outputs (nodes g ! k))"
  using wf_inputs_at(3) [OF assms] wf_outputs_at(3) [OF assms] unfolding distinct_conv_nth by metis+

lemma same_shape_wf:
  assumes wf: "wf_graph g" and shape: "same_shape g h"
  shows "wf_graph h"
  unfolding wf_graph_def
proof (intro conjI allI impI)
  fix k i
  assume k: "k < length (nodes h)" and i: "i < length (inputs (nodes h ! k))"
  then have "k < length (nodes g)" "i < length (inputs (nodes g ! k))" "inputs (nodes h ! k) = inputs (nodes g ! k)"
    using shape by (auto simp: same_shape_def)
  with wf_inputs_at [OF wf this(1,2)] shape show "inputs (nodes h ! k) ! i < length (pipes h)"
    "receiver (pipes h ! (inputs (nodes h ! k) ! i)) = k"
    "recv_port (pipes h ! (inputs (nodes h ! k) ! i)) = i"
    by (auto simp: same_shape_def)
next
  fix k i
  assume k: "k < length (nodes h)" and i: "i < length (outputs (nodes h ! k))"
  then have "k < length (nodes g)" "i < length (outputs (nodes g ! k))" "outputs (nodes h ! k) = outputs (nodes g ! k)"
    using shape by (auto simp: same_shape_def)
  with wf_outputs_at [OF wf this(1,2)] shape show "outputs (nodes h ! k) ! i < length (pipes h)"
    "sender (pipes h ! (outputs (nodes h ! k) ! i)) = k"
    "send_port (pipes h ! (outputs (nodes h ! k) ! i)) = i"
    by (auto simp: same_shape_def)
next
  fix p
  assume "p < length (pipes h)"
  then have "p < length (pipes g)"
    using shape by (simp add: same_shape_def)
  with wf_pipe [OF wf this] shape show "sender (pipes h ! p) < receiver (pipes h ! p)"
    "receiver (pipes h ! p) < length (nodes h)"
    "p \<in> set (inputs (nodes h ! receiver (pipes h ! p)))"
    "p \<in> set (outputs (nodes h ! sender (pipes h ! p)))"
    by (auto simp: same_shape_def)
qed

lemma map_of_zip_port:
  assumes "distinct xs" and "length ys = length xs" and "i < length xs" and "xs ! i = p"
  shows "map_of (zip xs ys) p = Some (ys ! i)"
  using assms map_of_zip_nth [of xs ys i] by auto

lemma zip_fst_props:
  assumes "length ys = length xs" and "distinct xs" and "\<forall>x \<in> set xs. x < n"
  shows "distinct (map fst (zip xs ys))" and "\<forall>z \<in> set (zip xs ys). fst z < n"
  using assms by (auto dest: set_zip_leftD)

text \<open>
  One side of a pipe is an end together with the node that has it as a port. The
  propagation of the states of all ports of a node on one side is proved once for both sides.
\<close>

definition wakes :: "nat set \<Rightarrow> nat \<Rightarrow> work \<Rightarrow> work \<Rightarrow> bool" where
  "wakes changed n w w' \<longleftrightarrow>
     (\<exists>new. to_update w' = new @ to_update w \<and> scheduled w' = scheduled w \<union> set new
        \<and> set new \<subseteq> {..<n} \<and> (changed = {} \<longrightarrow> new = []))
     \<and> changed \<subseteq> scheduled w'"

lemma wakesI:
  assumes "to_update w' = new @ to_update w" "scheduled w' = scheduled w \<union> set new"
    "set new \<subseteq> f ` set xs" "\<forall>x \<in> set xs. c x \<longrightarrow> f x \<in> scheduled w'" "(\<forall>x \<in> set xs. \<not> c x) \<longrightarrow> new = []"
    "f ` set xs \<subseteq> {..<n}"
  shows "wakes {f x | x. x \<in> set xs \<and> c x} n w w'"
  unfolding wakes_def
proof (intro conjI exI [of _ new])
  show "{f x | x. x \<in> set xs \<and> c x} = {} \<longrightarrow> new = []"
    using assms(5) by blast
  show "{f x | x. x \<in> set xs \<and> c x} \<subseteq> scheduled w'"
    using assms(4) by blast
qed (use assms(1-3,6) in auto)

lemma wakes_trans:
  assumes "wakes A n w w1" and "wakes B n w1 w2"
  shows "wakes (A \<union> B) n w w2"
proof -
  obtain new1 new2 where
    "to_update w1 = new1 @ to_update w" "scheduled w1 = scheduled w \<union> set new1" "set new1 \<subseteq> {..<n}" "A = {} \<longrightarrow> new1 = []"
    "to_update w2 = new2 @ to_update w1" "scheduled w2 = scheduled w1 \<union> set new2" "set new2 \<subseteq> {..<n}" "B = {} \<longrightarrow> new2 = []"
    "A \<subseteq> scheduled w1" "B \<subseteq> scheduled w2"
    using assms unfolding wakes_def by blast
  then show ?thesis
    unfolding wakes_def by (intro conjI exI [of _ "new2 @ new1"]) auto
qed

locale pipe_side = pipe_end +
  fixes own :: "pipe \<Rightarrow> nat"
    and port :: "pipe \<Rightarrow> nat"
    and ends :: "'c graph_node \<Rightarrow> nat list"
  assumes ends_distinct: "wf_graph g \<Longrightarrow> k < length (nodes g) \<Longrightarrow> distinct (ends (nodes g ! k))"
    and ends_own: "wf_graph g \<Longrightarrow> k < length (nodes g) \<Longrightarrow>
      p \<in> set (ends (nodes g ! k)) \<longleftrightarrow> p < length (pipes g) \<and> own (pipes g ! p) = k"
    and ends_port: "wf_graph g \<Longrightarrow> p < length (pipes g) \<Longrightarrow>
      port (pipes g ! p) < length (ends (nodes g ! own (pipes g ! p)))
      \<and> ends (nodes g ! own (pipes g ! p)) ! port (pipes g ! p) = p"
    and neighbour_node: "wf_graph g \<Longrightarrow> p < length (pipes g) \<Longrightarrow> neighbour (pipes g ! p) < length (nodes g)"
begin

lemma map_of_ends:
  assumes wf: "wf_graph g" and k: "k < length (nodes g)" and p: "p < length (pipes g)"
    and len: "length sts = length (ends (nodes g ! k))"
  shows "map_of (zip (ends (nodes g ! k)) sts) p =
    (if own (pipes g ! p) = k then Some (sts ! port (pipes g ! p)) else None)"
proof (cases "own (pipes g ! p) = k")
  case True
  then show ?thesis
    using ends_port [OF wf p] map_of_zip_port [OF ends_distinct [OF wf k] len, of "port (pipes g ! p)" p] by simp
next
  case False
  then have "p \<notin> set (ends (nodes g ! k))"
    using ends_own [OF wf k] by blast
  then show ?thesis
    using False len by (auto simp: map_of_eq_None_iff dest: set_zip_leftD)
qed

lemma in_zip_ends:
  assumes wf: "wf_graph g" and k: "k < length (nodes g)"
    and len: "length sts = length (ends (nodes g ! k))"
  shows "(p, st) \<in> set (zip (ends (nodes g ! k)) sts) \<longleftrightarrow>
    p < length (pipes g) \<and> own (pipes g ! p) = k \<and> st = sts ! port (pipes g ! p)"
proof
  assume in_zip: "(p, st) \<in> set (zip (ends (nodes g ! k)) sts)"
  then have p: "p < length (pipes g)" "own (pipes g ! p) = k"
    using ends_own [OF wf k] by (auto dest: set_zip_leftD)
  have "map_of (zip (ends (nodes g ! k)) sts) p = Some st"
    using in_zip ends_distinct [OF wf k] len by (intro map_of_is_SomeI) simp_all
  then show "p < length (pipes g) \<and> own (pipes g ! p) = k \<and> st = sts ! port (pipes g ! p)"
    using map_of_ends [OF wf k p(1) len] p by simp
next
  assume p: "p < length (pipes g) \<and> own (pipes g ! p) = k \<and> st = sts ! port (pipes g ! p)"
  have "map_of (zip (ends (nodes g ! k)) sts) p = Some st"
    unfolding map_of_ends [OF wf k conjunct1 [OF p] len] using p by simp
  then show "(p, st) \<in> set (zip (ends (nodes g ! k)) sts)"
    by (rule map_of_SomeD)
qed

lemma propagate_ends:
  assumes wf: "wf_graph g" and k: "k < length (nodes g)" and w: "w_pipes w = pipes g"
    and len: "length sts = length (ends (nodes g ! k))"
    and run: "propagate get put neighbour (zip (ends (nodes g ! k)) sts) w = Inr w'"
  shows "length (w_pipes w') = length (pipes g)"
    and "\<And>p. p < length (pipes g) \<Longrightarrow> w_pipes w' ! p =
      (if own (pipes g ! p) = k then put (sts ! port (pipes g ! p)) (pipes g ! p) else pipes g ! p)"
    and "\<And>p. p < length (pipes g) \<Longrightarrow> own (pipes g ! p) = k \<Longrightarrow> get (pipes g ! p) = Done \<Longrightarrow>
      sts ! port (pipes g ! p) = Done"
    and "wakes {neighbour (pipes g ! p) | p. p < length (pipes g) \<and> own (pipes g ! p) = k
      \<and> get (pipes g ! p) \<noteq> sts ! port (pipes g ! p)} (length (nodes g)) w w'"
proof -
  let ?xs = "zip (ends (nodes g ! k)) sts"
  have xs: "distinct (map fst ?xs)" "\<forall>z \<in> set ?xs. fst z < length (w_pipes w)"
    using zip_fst_props [OF len ends_distinct [OF wf k], of "length (pipes g)"] ends_own [OF wf k] w by auto
  note r = propagate_pipes [OF run xs, unfolded w]
  show "length (w_pipes w') = length (pipes g)"
    using r by blast
  show "w_pipes w' ! p = (if own (pipes g ! p) = k then put (sts ! port (pipes g ! p)) (pipes g ! p) else pipes g ! p)"
    if "p < length (pipes g)" for p
    using r that map_of_ends [OF wf k that len] by simp
  show "sts ! port (pipes g ! p) = Done"
    if "p < length (pipes g)" "own (pipes g ! p) = k" "get (pipes g ! p) = Done" for p
    using bspec [OF conjunct2 [OF conjunct2 [OF r]], of "(p, sts ! port (pipes g ! p))"]
      in_zip_ends [OF wf k len, of p] that by simp
  have "(\<lambda>x. neighbour (pipes g ! fst x)) ` set ?xs \<subseteq> {..<length (nodes g)}"
    using xs(2) neighbour_node [OF wf] w by auto
  with propagate_wakes [OF run xs, unfolded w]
  have "wakes {neighbour (pipes g ! fst x) | x. x \<in> set ?xs \<and> get (pipes g ! fst x) \<noteq> snd x} (length (nodes g)) w w'"
    by (elim exE conjE) (rule wakesI, auto)
  moreover have "{neighbour (pipes g ! fst x) | x. x \<in> set ?xs \<and> get (pipes g ! fst x) \<noteq> snd x} =
     {neighbour (pipes g ! p) | p. p < length (pipes g) \<and> own (pipes g ! p) = k
      \<and> get (pipes g ! p) \<noteq> sts ! port (pipes g ! p)}"
    using in_zip_ends [OF wf k len] by (auto simp: split_paired_Ex)
  ultimately show "wakes {neighbour (pipes g ! p) | p. p < length (pipes g) \<and> own (pipes g ! p) = k
      \<and> get (pipes g ! p) \<noteq> sts ! port (pipes g ! p)} (length (nodes g)) w w'"
    by simp
qed

end

interpretation recv_side: pipe_side recv_state "\<lambda>st p. p\<lparr>recv_state := st\<rparr>" sender receiver recv_port inputs
  by unfold_locales
    (simp, simp, simp, rule wf_distinct_ports, assumption+, rule wf_input, assumption+, rule wf_input_port, assumption+, rule wf_pipe, assumption+)

interpretation send_side: pipe_side send_state "\<lambda>st p. p\<lparr>send_state := st\<rparr>" receiver sender send_port outputs
  by unfold_locales
    (simp, simp, simp, rule wf_distinct_ports, assumption+, rule wf_output, assumption+, rule wf_output_port, assumption+, rule wf_pipe, assumption+)

text \<open>The effect of an iteration on the graph and on the work list.\<close>

definition node_step ::
    "'c graph \<Rightarrow> nat \<Rightarrow> 'c \<Rightarrow> port_state list \<Rightarrow> port_state list \<Rightarrow> 'c graph \<Rightarrow> bool" where
  "node_step g k c recv send h \<longleftrightarrow>
     same_shape g h
     \<and> (\<forall>j < length (nodes g). compute (nodes h ! j) = (if j = k then c else compute (nodes g ! j)))
     \<and> (\<forall>p < length (pipes g).
          recv_state (pipes h ! p) =
            (if receiver (pipes g ! p) = k then recv ! recv_port (pipes g ! p) else recv_state (pipes g ! p))
          \<and> send_state (pipes h ! p) =
            (if sender (pipes g ! p) = k then send ! send_port (pipes g ! p) else send_state (pipes g ! p))
          \<and> (recv_state (pipes g ! p) = Done \<longrightarrow> recv_state (pipes h ! p) = Done)
          \<and> (send_state (pipes g ! p) = Done \<longrightarrow> send_state (pipes h ! p) = Done))"

definition work_step :: "'c graph \<Rightarrow> 'c graph \<Rightarrow> nat list \<Rightarrow> nat set \<Rightarrow> nat list \<Rightarrow> nat set \<Rightarrow> bool" where
  "work_step g h rest sched tu sched' \<longleftrightarrow>
     (\<exists>new. tu = new @ rest \<and> sched' = sched \<union> set new \<and> set new \<subseteq> {..<length (nodes g)}
        \<and> (pipes h = pipes g \<longrightarrow> new = []))
     \<and> (\<forall>p < length (pipes g).
          (recv_state (pipes h ! p) \<noteq> recv_state (pipes g ! p) \<longrightarrow> sender (pipes g ! p) \<in> sched')
          \<and> (send_state (pipes h ! p) \<noteq> send_state (pipes g ! p) \<longrightarrow> receiver (pipes g ! p) \<in> sched'))"

lemma wakes_work_step:
  assumes st: "node_step g k c recv send h"
    and wk: "wakes ({sender (pipes g ! p) | p. p < length (pipes g) \<and> receiver (pipes g ! p) = k
        \<and> recv_state (pipes g ! p) \<noteq> recv ! recv_port (pipes g ! p)}
      \<union> {receiver (pipes g ! p) | p. p < length (pipes g) \<and> sender (pipes g ! p) = k
        \<and> send_state (pipes g ! p) \<noteq> send ! send_port (pipes g ! p)}) (length (nodes g)) w w'"
      (is "wakes (?A \<union> ?B) _ _ _")
  shows "work_step g h (to_update w) (scheduled w) (to_update w') (scheduled w')"
proof -
  have rs: "recv_state (pipes h ! p) = (if receiver (pipes g ! p) = k then recv ! recv_port (pipes g ! p) else recv_state (pipes g ! p))"
    and ss: "send_state (pipes h ! p) = (if sender (pipes g ! p) = k then send ! send_port (pipes g ! p) else send_state (pipes g ! p))"
    if "p < length (pipes g)" for p
    using st that unfolding node_step_def by blast+
  obtain new where new: "to_update w' = new @ to_update w" "scheduled w' = scheduled w \<union> set new"
      "set new \<subseteq> {..<length (nodes g)}" "?A \<union> ?B = {} \<longrightarrow> new = []"
    using wk unfolding wakes_def by blast
  have "pipes h = pipes g \<longrightarrow> new = []"
  proof
    assume same: "pipes h = pipes g"
    have "recv_state (pipes g ! p) = recv ! recv_port (pipes g ! p)"
      if "p < length (pipes g)" "receiver (pipes g ! p) = k" for p
      using rs [OF that(1)] that(2) same by simp
    moreover have "send_state (pipes g ! p) = send ! send_port (pipes g ! p)"
      if "p < length (pipes g)" "sender (pipes g ! p) = k" for p
      using ss [OF that(1)] that(2) same by simp
    ultimately have "?A \<union> ?B = {}"
      by blast
    then show "new = []"
      using new(4) by blast
  qed
  moreover have "sender (pipes g ! p) \<in> scheduled w'"
    if "p < length (pipes g)" "recv_state (pipes h ! p) \<noteq> recv_state (pipes g ! p)" for p
  proof -
    have "sender (pipes g ! p) \<in> ?A"
      using rs [OF that(1)] that by (auto split: if_splits)
    then show ?thesis
      using wk unfolding wakes_def by blast
  qed
  moreover have "receiver (pipes g ! p) \<in> scheduled w'"
    if "p < length (pipes g)" "send_state (pipes h ! p) \<noteq> send_state (pipes g ! p)" for p
  proof -
    have "receiver (pipes g ! p) \<in> ?B"
      using ss [OF that(1)] that by (auto split: if_splits)
    then show ?thesis
      using wk unfolding wakes_def by blast
  qed
  ultimately show ?thesis
    unfolding work_step_def using new(1-3) by blast
qed

lemma update_node_step:
  assumes wf: "wf_graph g" and k: "k < length (nodes g)"
    and upd: "upd (compute (nodes g ! k)) (recv_env g k) (send_env g k) = Inr (c, recv, send)"
    and lr: "length recv = length (inputs (nodes g ! k))"
    and ls: "length send = length (outputs (nodes g ! k))"
    and step: "update_node upd g k rest sched = Inr (h, tu, sched')"
  shows "node_step g k c recv send h" and "work_step g h rest sched tu sched'"
proof -
  let ?w = "\<lparr>w_pipes = pipes g, to_update = rest, scheduled = sched\<rparr>"
  obtain w1 w2 where w1: "propagate_recv (zip (inputs (nodes g ! k)) recv) ?w = Inr w1"
    and w2: "propagate_send (zip (outputs (nodes g ! k)) send) w1 = Inr w2"
    and h: "h = \<lparr>nodes = (nodes g)[k := (nodes g ! k)\<lparr>compute := c\<rparr>], pipes = w_pipes w2\<rparr>"
    and tu: "tu = to_update w2" "sched' = scheduled w2"
    using step upd by (auto simp: update_node_def Let_def rbind_eq_Inr_iff)
  note r = recv_side.propagate_ends [OF wf k _ lr w1 [unfolded propagate_recv_def], simplified]
  define g1 where "g1 = g\<lparr>pipes := w_pipes w1\<rparr>"
  have p1: "sender (pipes g1 ! p) = sender (pipes g ! p)" "receiver (pipes g1 ! p) = receiver (pipes g ! p)"
    "send_port (pipes g1 ! p) = send_port (pipes g ! p)" "recv_port (pipes g1 ! p) = recv_port (pipes g ! p)"
    "send_state (pipes g1 ! p) = send_state (pipes g ! p)"
    if "p < length (pipes g)" for p
    using r(2) [OF that] by (simp_all add: g1_def)
  have "same_shape g g1"
    using p1 r(1) by (simp add: same_shape_def g1_def)
  then have wf1: "wf_graph g1" and k1: "k < length (nodes g1)" and n1: "nodes g1 = nodes g"
    and l1: "length (pipes g1) = length (pipes g)"
    using same_shape_wf [OF wf] k r(1) by (simp_all add: g1_def)
  note s = send_side.propagate_ends [OF wf1 k1 _ _ w2 [unfolded propagate_send_def n1 [symmetric]], unfolded l1 n1]
  have s2: "w_pipes w2 ! p = (if sender (pipes g ! p) = k
      then (pipes g1 ! p)\<lparr>send_state := send ! send_port (pipes g ! p)\<rparr> else pipes g1 ! p)" if "p < length (pipes g)" for p
    using s(2) [OF _ ls that] p1 [OF that] by (simp add: g1_def)
  show st: "node_step g k c recv send h"
    unfolding node_step_def same_shape_def
    using r s2 s(1) s(3) ls p1 k by (auto simp: h nth_list_update g1_def)
  let ?A = "{sender (pipes g ! p) | p. p < length (pipes g) \<and> receiver (pipes g ! p) = k
        \<and> recv_state (pipes g ! p) \<noteq> recv ! recv_port (pipes g ! p)}"
  let ?B = "{receiver (pipes g ! p) | p. p < length (pipes g) \<and> sender (pipes g ! p) = k
        \<and> send_state (pipes g ! p) \<noteq> send ! send_port (pipes g ! p)}"
  have "{receiver (pipes g1 ! p) | p. p < length (pipes g) \<and> sender (pipes g1 ! p) = k
        \<and> send_state (pipes g1 ! p) \<noteq> send ! send_port (pipes g1 ! p)} = ?B"
    using p1 by (intro Collect_cong ex_cong1) auto
  then have "wakes (?A \<union> ?B) (length (nodes g)) ?w w2"
    using wakes_trans [OF r(4)] s(4) ls by (simp add: g1_def)
  then show "work_step g h rest sched tu sched'"
    using wakes_work_step [OF st] tu by fastforce
qed

text \<open>What an iteration at a node leaves unchanged elsewhere.\<close>

lemma node_step_shape: "node_step g k c recv send h \<Longrightarrow> same_shape g h"
  by (simp add: node_step_def)

lemma node_step_nodes:
  assumes "node_step g k c recv send h" and "j < length (nodes g)"
  shows "inputs (nodes h ! j) = inputs (nodes g ! j)" "outputs (nodes h ! j) = outputs (nodes g ! j)"
    "compute (nodes h ! j) = (if j = k then c else compute (nodes g ! j))"
  using assms by (auto simp: node_step_def same_shape_def)

lemma node_step_shown:
  assumes wf: "wf_graph g" and k: "k < length (nodes g)" and st: "node_step g k c recv send h"
    and lr: "length recv = length (inputs (nodes g ! k))"
    and ls: "length send = length (outputs (nodes g ! k))"
    and j: "j < length (nodes g)"
  shows "recv_shown h j = (if j = k then recv else recv_shown g j)"
    and "send_shown h j = (if j = k then send else send_shown g j)"
proof -
  show "recv_shown h j = (if j = k then recv else recv_shown g j)"
  proof (rule nth_equalityI)
    fix i
    assume "i < length (recv_shown h j)"
    then have i: "i < length (inputs (nodes g ! j))"
      by (simp add: recv_shown_def node_step_nodes(1) [OF st j])
    with wf_inputs_at [OF wf j i] st show "recv_shown h j ! i = (if j = k then recv else recv_shown g j) ! i"
      by (auto simp: recv_shown_def node_step_nodes(1) [OF st j] node_step_def)
  qed (use lr in \<open>auto simp: recv_shown_def node_step_nodes(1) [OF st j]\<close>)
  show "send_shown h j = (if j = k then send else send_shown g j)"
  proof (rule nth_equalityI)
    fix i
    assume "i < length (send_shown h j)"
    then have i: "i < length (outputs (nodes g ! j))"
      by (simp add: send_shown_def node_step_nodes(2) [OF st j])
    with wf_outputs_at [OF wf j i] st show "send_shown h j ! i = (if j = k then send else send_shown g j) ! i"
      by (auto simp: send_shown_def node_step_nodes(2) [OF st j] node_step_def)
  qed (use ls in \<open>auto simp: send_shown_def node_step_nodes(2) [OF st j]\<close>)
qed

lemma node_step_recv_env:
  assumes wf: "wf_graph g" and st: "node_step g k c recv send h" and j: "j < length (nodes g)"
    and same: "\<And>p. p < length (pipes g) \<Longrightarrow> receiver (pipes g ! p) = j \<Longrightarrow> sender (pipes g ! p) = k \<Longrightarrow>
      send_state (pipes h ! p) = send_state (pipes g ! p)"
  shows "recv_env h j = recv_env g j"
proof -
  have "send_state (pipes h ! p) = send_state (pipes g ! p)" if "p \<in> set (inputs (nodes g ! j))" for p
    using st same [of p] that wf_input [OF wf j, of p]
    by (cases "sender (pipes g ! p) = k") (auto simp: node_step_def)
  then show ?thesis
    by (auto simp: recv_env_def node_step_nodes(1) [OF st j])
qed

lemma node_step_send_env:
  assumes wf: "wf_graph g" and st: "node_step g k c recv send h" and j: "j < length (nodes g)"
    and same: "\<And>p. p < length (pipes g) \<Longrightarrow> sender (pipes g ! p) = j \<Longrightarrow> receiver (pipes g ! p) = k \<Longrightarrow>
      recv_state (pipes h ! p) = recv_state (pipes g ! p)"
  shows "send_env h j = send_env g j"
proof -
  have "recv_state (pipes h ! p) = recv_state (pipes g ! p)" if "p \<in> set (outputs (nodes g ! j))" for p
    using st same [of p] that wf_output [OF wf j, of p]
    by (cases "receiver (pipes g ! p) = k") (auto simp: node_step_def)
  then show ?thesis
    by (auto simp: send_env_def node_step_nodes(2) [OF st j])
qed

text \<open>Information flows from older to newer nodes forwards, and from newer to older ones backwards.\<close>

lemma node_step_recv_env_le:
  assumes "wf_graph g" and "node_step g k c recv send h" and "j < length (nodes g)" and "j \<le> k"
  shows "recv_env h j = recv_env g j"
  using assms wf_pipe(1) [OF assms(1)] by (intro node_step_recv_env) fastforce+

lemma node_step_send_env_ge:
  assumes "wf_graph g" and "node_step g k c recv send h" and "j < length (nodes g)" and "k \<le> j"
  shows "send_env h j = send_env g j"
  using assms wf_pipe(1) [OF assms(1)] by (intro node_step_send_env) fastforce+

lemma shown_send_state:
  assumes "wf_graph g" and "p < length (pipes g)"
  shows "send_state (pipes g ! p) = send_shown g (sender (pipes g ! p)) ! send_port (pipes g ! p)"
  using wf_output_port [OF assms] by (simp add: send_shown_def)

lemma shown_recv_state:
  assumes "wf_graph g" and "p < length (pipes g)"
  shows "recv_state (pipes g ! p) = recv_shown g (receiver (pipes g ! p)) ! recv_port (pipes g ! p)"
  using wf_input_port [OF assms] by (simp add: recv_shown_def)

lemma node_step_recv_env_quiet:
  assumes "wf_graph g" and "node_step g k c recv (send_shown g k) h" and "j < length (nodes g)"
  shows "recv_env h j = recv_env g j"
proof (rule node_step_recv_env [OF assms])
  fix p
  assume p: "p < length (pipes g)" and "sender (pipes g ! p) = k"
  then show "send_state (pipes h ! p) = send_state (pipes g ! p)"
    using assms(2) shown_send_state [OF assms(1) p] by (simp add: node_step_def)
qed

lemma node_step_send_env_quiet:
  assumes "wf_graph g" and "node_step g k c (recv_shown g k) send h" and "j < length (nodes g)"
  shows "send_env h j = send_env g j"
proof (rule node_step_send_env [OF assms])
  fix p
  assume p: "p < length (pipes g)" and "receiver (pipes g ! p) = k"
  then show "recv_state (pipes h ! p) = recv_state (pipes g ! p)"
    using assms(2) shown_recv_state [OF assms(1) p] by (simp add: node_step_def)
qed

lemma node_step_idle:
  assumes "wf_graph g" and "node_step g k c (recv_shown g k) (send_shown g k) h"
  shows "pipes h = pipes g"
proof (rule nth_equalityI)
  show "length (pipes h) = length (pipes g)"
    using assms(2) by (simp add: node_step_def same_shape_def)
  fix p
  assume "p < length (pipes h)"
  then have p: "p < length (pipes g)"
    using assms(2) by (simp add: node_step_def same_shape_def)
  then show "pipes h ! p = pipes g ! p"
    using assms(2) shown_recv_state [OF assms(1) p] shown_send_state [OF assms(1) p]
    by (auto simp: node_step_def same_shape_def intro!: pipe.equality)
qed

end
