(* ===== verification/StreamFixpoint.thy ===== *)
theory StreamFixpoint
  imports StreamGraph
begin

section \<open>The state update of the compute graph reaches a fixed point\<close>

text \<open>
  The contract of \<open>ComputeNode::update_state\<close>, and what it implies for the loop
  \<open>update_all_states\<close>: the loop returns on every well-formed graph, and when it returns
  without an error every node agrees with the states it sees.

  The contract holds for a node with the ports it is made for (\<open>ports\<close>): it keeps the number
  of its ports; asked again with the same port states it
  answers the same and does not change; and what it shows on its outputs depends on the
  receivers only through which of them are done. The last law makes the forward states
  independent of the backward ones, apart from the finitely many changes to \<open>Done\<close>. The
  termination measure is lexicographic: the pipe ends that are not done, the nodes whose
  outputs are out of date weighted towards the oldest, the nodes whose inputs are out
  of date weighted towards the newest, and the length of the work list.
\<close>

definition done_pattern :: "port_state list \<Rightarrow> bool list" where
  "done_pattern xs = map (\<lambda>p. p = Done) xs"

definition settled :: "'c update_fn \<Rightarrow> 'c graph \<Rightarrow> nat \<Rightarrow> bool" where
  "settled upd g k \<longleftrightarrow>
     upd (compute (nodes g ! k)) (recv_env g k) (send_env g k)
     = Inr (compute (nodes g ! k), recv_shown g k, send_shown g k)"

definition fwd_ok :: "'c update_fn \<Rightarrow> 'c graph \<Rightarrow> nat \<Rightarrow> bool" where
  "fwd_ok upd g k \<longleftrightarrow>
     (\<forall>s c r' s'. done_pattern s = done_pattern (send_env g k) \<longrightarrow>
        upd (compute (nodes g ! k)) (recv_env g k) s = Inr (c, r', s') \<longrightarrow> s' = send_shown g k)"

definition bwd_ok :: "'c update_fn \<Rightarrow> 'c graph \<Rightarrow> nat \<Rightarrow> bool" where
  "bwd_ok upd g k \<longleftrightarrow>
     (\<forall>c r' s'. upd (compute (nodes g ! k)) (recv_env g k) (send_env g k) = Inr (c, r', s') \<longrightarrow>
        r' = recv_shown g k)"

definition ported :: "('c \<Rightarrow> nat \<Rightarrow> nat \<Rightarrow> bool) \<Rightarrow> 'c graph \<Rightarrow> bool" where
  "ported ports g \<longleftrightarrow> (\<forall>k < length (nodes g).
     ports (compute (nodes g ! k)) (length (inputs (nodes g ! k))) (length (outputs (nodes g ! k))))"

definition open_ends :: "'c graph \<Rightarrow> nat" where
  "open_ends g = length (filter (\<lambda>p. recv_state p \<noteq> Done) (pipes g))
     + length (filter (\<lambda>p. send_state p \<noteq> Done) (pipes g))"

definition fwd_weight :: "'c update_fn \<Rightarrow> 'c graph \<Rightarrow> nat" where
  "fwd_weight upd g = (\<Sum>k | k < length (nodes g) \<and> \<not> fwd_ok upd g k. 2 ^ (length (nodes g) - Suc k))"

definition bwd_weight :: "'c update_fn \<Rightarrow> 'c graph \<Rightarrow> nat" where
  "bwd_weight upd g = (\<Sum>k | k < length (nodes g) \<and> \<not> bwd_ok upd g k. 2 ^ k)"

definition done_kept :: "'c graph \<Rightarrow> 'c graph \<Rightarrow> bool" where
  "done_kept g h \<longleftrightarrow> (\<forall>p < length (pipes g).
     (recv_state (pipes g ! p) = Done \<longrightarrow> recv_state (pipes h ! p) = Done)
     \<and> (send_state (pipes g ! p) = Done \<longrightarrow> send_state (pipes h ! p) = Done))"

text \<open>One iteration of the loop, as a step of the graph.\<close>

inductive update_step :: "'c update_fn \<Rightarrow> 'c graph \<Rightarrow> 'c graph \<Rightarrow> bool" for upd :: "'c update_fn" where
  "update_step upd g h"
    if "k < length (nodes g)"
      and "upd (compute (nodes g ! k)) (recv_env g k) (send_env g k) = Inr (c, recv, send)"
      and "node_step g k c recv send h"

definition update_rel :: "'c update_fn \<Rightarrow> (('c graph \<times> nat list) \<times> ('c graph \<times> nat list)) set" where
  "update_rel upd = measures
     [\<lambda>(g, tu). open_ends g, \<lambda>(g, tu). fwd_weight upd g, \<lambda>(g, tu). bwd_weight upd g, \<lambda>(g, tu). length tu]"

lemma wf_update_rel: "wf (update_rel upd)"
  by (simp add: update_rel_def)

subsection \<open>Weights\<close>

lemma sum_pow2_less:
  fixes A B :: "nat set"
  assumes "finite A" and "finite B" and "k \<in> A" and "k \<notin> B" and "\<And>j. j \<in> B \<Longrightarrow> j \<notin> A \<Longrightarrow> j < k"
  shows "(\<Sum>j \<in> B. 2 ^ j) < (\<Sum>j \<in> A. (2::nat) ^ j)"
proof -
  have "B \<subseteq> (A - {k}) \<union> {..<k}"
    using assms(4,5) by auto
  then have "(\<Sum>j \<in> B. 2 ^ j) \<le> (\<Sum>j \<in> (A - {k}) \<union> {..<k}. (2::nat) ^ j)"
    using assms(1) by (intro sum_mono2) auto
  also have "\<dots> \<le> (\<Sum>j \<in> A - {k}. 2 ^ j) + (\<Sum>j < k. (2::nat) ^ j)"
    using assms(1) by (intro order_trans [OF sum_Un_nat [THEN eq_imp_le]]) auto
  also have "(\<Sum>j < k. (2::nat) ^ j) < 2 ^ k"
    by (induction k) auto
  also have "(\<Sum>j \<in> A - {k}. 2 ^ j) + 2 ^ k = (\<Sum>j \<in> A. (2::nat) ^ j)"
    using assms(1,3) by (simp add: sum.remove)
  finally show ?thesis
    by simp
qed

lemma sum_pow2_mirror:
  fixes A :: "nat set"
  assumes "A \<subseteq> {..<n}"
  shows "(\<Sum>j \<in> A. 2 ^ (n - Suc j)) = (\<Sum>j \<in> (\<lambda>j. n - Suc j) ` A. (2::nat) ^ j)"
proof -
  have "inj_on (\<lambda>j. n - Suc j) A"
  proof (rule inj_onI)
    fix x y
    assume "x \<in> A" and "y \<in> A" and eq: "n - Suc x = n - Suc y"
    then have "x < n" "y < n"
      using assms by auto
    with eq show "x = y"
      by linarith
  qed
  then show ?thesis
    by (simp add: sum.reindex)
qed

lemma fwd_weight_less:
  assumes "length (nodes h) = length (nodes g)" and "k < length (nodes g)"
    and "\<not> fwd_ok upd g k" and "fwd_ok upd h k"
    and "\<And>j. j < k \<Longrightarrow> fwd_ok upd g j \<Longrightarrow> fwd_ok upd h j"
  shows "fwd_weight upd h < fwd_weight upd g"
proof -
  let ?n = "length (nodes g)"
  let ?A = "{k. k < ?n \<and> \<not> fwd_ok upd g k}" and ?B = "{k. k < ?n \<and> \<not> fwd_ok upd h k}"
  have "(\<Sum>j \<in> (\<lambda>j. ?n - Suc j) ` ?B. 2 ^ j) < (\<Sum>j \<in> (\<lambda>j. ?n - Suc j) ` ?A. (2::nat) ^ j)"
  proof (rule sum_pow2_less [where k = "?n - Suc k"])
    show "?n - Suc k \<in> (\<lambda>j. ?n - Suc j) ` ?A"
      using assms(2,3) by auto
    show "?n - Suc k \<notin> (\<lambda>j. ?n - Suc j) ` ?B"
      using assms(2,4) by (auto simp: image_iff) (metis Suc_diff_Suc Suc_inject diff_diff_cancel less_or_eq_imp_le)
    fix i
    assume "i \<in> (\<lambda>j. ?n - Suc j) ` ?B" "i \<notin> (\<lambda>j. ?n - Suc j) ` ?A"
    then obtain j where "i = ?n - Suc j" "j < ?n" "\<not> fwd_ok upd h j" "fwd_ok upd g j"
      by auto
    moreover from this have "\<not> j < k" "j \<noteq> k"
      using assms(3,5) by auto
    ultimately show "i < ?n - Suc k"
      using assms(2) by linarith
  qed auto
  then show ?thesis
    using assms(1) sum_pow2_mirror [of ?A ?n] sum_pow2_mirror [of ?B ?n] by (simp add: fwd_weight_def subset_iff)
qed

lemma bwd_weight_less:
  assumes "length (nodes h) = length (nodes g)" and "k < length (nodes g)"
    and "\<not> bwd_ok upd g k" and "bwd_ok upd h k"
    and "\<And>j. k < j \<Longrightarrow> j < length (nodes g) \<Longrightarrow> bwd_ok upd g j \<Longrightarrow> bwd_ok upd h j"
  shows "bwd_weight upd h < bwd_weight upd g"
  unfolding bwd_weight_def
proof (rule sum_pow2_less [where k = k])
  fix j
  assume "j \<in> {k. k < length (nodes h) \<and> \<not> bwd_ok upd h k}" "j \<notin> {k. k < length (nodes g) \<and> \<not> bwd_ok upd g k}"
  then show "j < k"
    using assms by (cases j k rule: linorder_cases) auto
qed (use assms in auto)

lemma fwd_weight_le:
  assumes "length (nodes h) = length (nodes g)"
    and "\<And>j. j < length (nodes g) \<Longrightarrow> fwd_ok upd g j \<Longrightarrow> fwd_ok upd h j"
  shows "fwd_weight upd h \<le> fwd_weight upd g"
  unfolding fwd_weight_def using assms by (auto intro!: sum_mono2)

lemma bwd_weight_le:
  assumes "length (nodes h) = length (nodes g)"
    and "\<And>j. j < length (nodes g) \<Longrightarrow> bwd_ok upd g j \<Longrightarrow> bwd_ok upd h j"
  shows "bwd_weight upd h \<le> bwd_weight upd g"
  unfolding bwd_weight_def using assms by (auto intro!: sum_mono2)

lemma filter_count_le:
  assumes "length xs = length ys" and "\<And>i. i < length xs \<Longrightarrow> P (ys ! i) \<Longrightarrow> P (xs ! i)"
  shows "length (filter P ys) \<le> length (filter P xs)"
    and "i < length xs \<Longrightarrow> P (xs ! i) \<Longrightarrow> \<not> P (ys ! i) \<Longrightarrow> length (filter P ys) < length (filter P xs)"
proof -
  have sub: "{i. i < length ys \<and> P (ys ! i)} \<subseteq> {i. i < length xs \<and> P (xs ! i)}"
    using assms by auto
  then show "length (filter P ys) \<le> length (filter P xs)"
    unfolding length_filter_conv_card by (intro card_mono) auto
  show "length (filter P ys) < length (filter P xs)" if "i < length xs" "P (xs ! i)" "\<not> P (ys ! i)"
    unfolding length_filter_conv_card using sub that by (intro psubset_card_mono) auto
qed

subsection \<open>The contract and its consequences\<close>

locale compute_node =
  fixes upd :: "'c update_fn"
    and ports :: "'c \<Rightarrow> nat \<Rightarrow> nat \<Rightarrow> bool"
  assumes upd_length: "ports c (length r) (length s) \<Longrightarrow> upd c r s = Inr (c', r', s') \<Longrightarrow>
      length r' = length r \<and> length s' = length s \<and> ports c' (length r) (length s)"
    and upd_idem: "ports c (length r) (length s) \<Longrightarrow> upd c r s = Inr (c', r', s') \<Longrightarrow>
      upd c' r s = Inr (c', r', s')"
    and upd_forward: "ports c (length r) (length s) \<Longrightarrow> upd c r s = Inr (c1, r1, s1) \<Longrightarrow>
      upd c r t = Inr (c2, r2, s2) \<Longrightarrow> done_pattern s = done_pattern t \<Longrightarrow> s1 = s2"
begin

lemma ported_env:
  assumes "ported ports g" and "k < length (nodes g)"
  shows "ports (compute (nodes g ! k)) (length (recv_env g k)) (length (send_env g k))"
  using assms by (simp add: ported_def recv_env_def send_env_def)

lemma answer_length:
  assumes "ported ports g" and "k < length (nodes g)"
    and "upd (compute (nodes g ! k)) (recv_env g k) (send_env g k) = Inr (c', recv, send)"
  shows "length recv = length (inputs (nodes g ! k))" and "length send = length (outputs (nodes g ! k))"
  using upd_length [OF ported_env [OF assms(1,2)] assms(3)] by (simp_all add: recv_env_def send_env_def)

lemma step_ported:
  assumes pt: "ported ports g" and k: "k < length (nodes g)"
    and ans: "upd (compute (nodes g ! k)) (recv_env g k) (send_env g k) = Inr (c, recv, send)"
    and st: "node_step g k c recv send h"
  shows "ported ports h"
proof -
  have "ports c (length (inputs (nodes g ! k))) (length (outputs (nodes g ! k)))"
    using upd_length [OF ported_env [OF pt k] ans] by (simp add: recv_env_def send_env_def)
  then show ?thesis
    using pt st by (auto simp: ported_def node_step_def same_shape_def)
qed

lemma step_settled:
  assumes wf: "wf_graph g" and pt: "ported ports g" and k: "k < length (nodes g)"
    and ans: "upd (compute (nodes g ! k)) (recv_env g k) (send_env g k) = Inr (c, recv, send)"
    and st: "node_step g k c recv send h"
  shows "settled upd h k"
proof -
  have "recv_env h k = recv_env g k" "send_env h k = send_env g k" "compute (nodes h ! k) = c"
    using node_step_recv_env_le [OF wf st k] node_step_send_env_ge [OF wf st k] node_step_nodes(3) [OF st k]
    by simp_all
  moreover have "recv_shown h k = recv" "send_shown h k = send"
    using node_step_shown [OF wf k st answer_length [OF pt k ans] k] by simp_all
  ultimately show ?thesis
    using upd_idem [OF ported_env [OF pt k] ans] by (simp add: settled_def)
qed

lemma settled_fwd_ok:
  assumes "ported ports g" and "k < length (nodes g)" and "settled upd g k"
  shows "fwd_ok upd g k"
  unfolding fwd_ok_def
proof (intro allI impI)
  fix s c r' s'
  assume "done_pattern s = done_pattern (send_env g k)"
    and "upd (compute (nodes g ! k)) (recv_env g k) s = Inr (c, r', s')"
  then show "s' = send_shown g k"
    using upd_forward [OF ported_env [OF assms(1,2)] assms(3) [unfolded settled_def]] by metis
qed

lemma settled_bwd_ok: "settled upd g k \<Longrightarrow> bwd_ok upd g k"
  by (simp add: settled_def bwd_ok_def)

text \<open>While no end becomes done, forward states depend on forward states only.\<close>

lemma fwd_ok_keeps:
  assumes wf: "wf_graph g" and pt: "ported ports g" and k: "k < length (nodes g)"
    and ans: "upd (compute (nodes g ! k)) (recv_env g k) (send_env g k) = Inr (c, recv, send)"
    and st: "node_step g k c recv send h" and j: "j < length (nodes g)" "j \<noteq> k"
    and env: "recv_env h j = recv_env g j"
    and dn: "done_pattern (send_env h j) = done_pattern (send_env g j)"
    and ok: "fwd_ok upd g j"
  shows "fwd_ok upd h j"
  using ok j node_step_shown(2) [OF wf k st answer_length [OF pt k ans] j(1)] node_step_nodes(3) [OF st j(1)]
  by (simp add: fwd_ok_def env dn)

lemma bwd_ok_keeps:
  assumes wf: "wf_graph g" and pt: "ported ports g" and k: "k < length (nodes g)"
    and ans: "upd (compute (nodes g ! k)) (recv_env g k) (send_env g k) = Inr (c, recv, send)"
    and st: "node_step g k c recv send h" and j: "j < length (nodes g)" "j \<noteq> k"
    and env: "recv_env h j = recv_env g j" "send_env h j = send_env g j"
    and ok: "bwd_ok upd g j"
  shows "bwd_ok upd h j"
  using ok j node_step_shown(1) [OF wf k st answer_length [OF pt k ans] j(1)] node_step_nodes(3) [OF st j(1)]
  by (simp add: bwd_ok_def env)

lemma open_ends_less:
  assumes wf: "wf_graph g" and st: "node_step g k c recv send h"
    and p: "p < length (pipes g)"
    and change: "(recv_state (pipes h ! p) = Done) \<noteq> (recv_state (pipes g ! p) = Done)
      \<or> (send_state (pipes h ! p) = Done) \<noteq> (send_state (pipes g ! p) = Done)"
  shows "open_ends h < open_ends g"
proof -
  have len: "length (pipes g) = length (pipes h)"
    using st by (simp add: node_step_def same_shape_def)
  have mono: "recv_state (pipes h ! i) \<noteq> Done \<Longrightarrow> recv_state (pipes g ! i) \<noteq> Done"
    "send_state (pipes h ! i) \<noteq> Done \<Longrightarrow> send_state (pipes g ! i) \<noteq> Done" if "i < length (pipes g)" for i
    using st that unfolding node_step_def by blast+
  let ?r = "\<lambda>p. recv_state p \<noteq> Done" and ?s = "\<lambda>p. send_state p \<noteq> Done"
  have le: "length (filter ?r (pipes h)) \<le> length (filter ?r (pipes g))"
    "length (filter ?s (pipes h)) \<le> length (filter ?s (pipes g))"
    by (intro filter_count_le(1) [OF len]; use mono in blast)+
  from change consider "?r (pipes g ! p)" "\<not> ?r (pipes h ! p)" | "?s (pipes g ! p)" "\<not> ?s (pipes h ! p)"
    using mono [OF p] by blast
  then have "length (filter ?r (pipes h)) < length (filter ?r (pipes g))
      \<or> length (filter ?s (pipes h)) < length (filter ?s (pipes g))"
  proof cases
    case 1
    have "length (filter ?r (pipes h)) < length (filter ?r (pipes g))"
      by (rule filter_count_le(2) [OF len _ p 1]) (use mono in blast)
    then show ?thesis ..
  next
    case 2
    have "length (filter ?s (pipes h)) < length (filter ?s (pipes g))"
      by (rule filter_count_le(2) [OF len _ p 2]) (use mono in blast)
    then show ?thesis ..
  qed
  with le show ?thesis
    unfolding open_ends_def by linarith
qed

lemma done_pattern_keeps:
  assumes wf: "wf_graph g" and st: "node_step g k c recv send h" and j: "j < length (nodes g)"
    and same: "\<And>p. p < length (pipes g) \<Longrightarrow>
      (recv_state (pipes h ! p) = Done) = (recv_state (pipes g ! p) = Done)"
  shows "done_pattern (send_env h j) = done_pattern (send_env g j)"
  using same wf_output [OF wf j] by (simp add: done_pattern_def send_env_def node_step_nodes(2) [OF st j])

text \<open>
  Every iteration makes progress in the measure: it closes a port, or what the node shows
  forwards becomes right, or what it shows backwards, or there is less to do.
\<close>

lemma forward_progress:
  assumes wf: "wf_graph g" and pt: "ported ports g" and k: "k < length (nodes g)"
    and ans: "upd (compute (nodes g ! k)) (recv_env g k) (send_env g k) = Inr (c, recv, send)"
    and st: "node_step g k c recv send h"
    and dp: "\<And>j. j < length (nodes g) \<Longrightarrow> done_pattern (send_env h j) = done_pattern (send_env g j)"
    and news: "send \<noteq> send_shown g k"
  shows "fwd_weight upd h < fwd_weight upd g"
proof -
  have n: "length (nodes h) = length (nodes g)"
    using st by (simp add: node_step_def same_shape_def)
  show ?thesis
  proof (rule fwd_weight_less [OF n k])
    show "\<not> fwd_ok upd g k"
      using ans news by (auto simp: fwd_ok_def)
    show "fwd_ok upd h k"
      using settled_fwd_ok [OF step_ported [OF pt k ans st] _ step_settled [OF wf pt k ans st]] k n by simp
    show "fwd_ok upd h j" if "j < k" "fwd_ok upd g j" for j
      using that k node_step_recv_env_le [OF wf st, of j] by (intro fwd_ok_keeps [OF wf pt k ans st _ _ _ dp]) auto
  qed
qed

lemma backward_progress:
  assumes wf: "wf_graph g" and pt: "ported ports g" and k: "k < length (nodes g)"
    and ans: "upd (compute (nodes g ! k)) (recv_env g k) (send_env g k) = Inr (c, recv, send)"
    and st: "node_step g k c recv send h" and wk: "work_step g h rest sched tu sched'"
    and quiet: "send = send_shown g k"
  shows "bwd_weight upd h < bwd_weight upd g \<or> bwd_weight upd h \<le> bwd_weight upd g \<and> tu = rest"
proof -
  have n: "length (nodes h) = length (nodes g)"
    using st by (simp add: node_step_def same_shape_def)
  note stab = step_settled [OF wf pt k ans st] and bwd = bwd_ok_keeps [OF wf pt k ans st]
  have env: "recv_env h j = recv_env g j" if "j < length (nodes g)" for j
    using node_step_recv_env_quiet [OF wf st [unfolded quiet] that] .
  show ?thesis
  proof (cases "recv = recv_shown g k")
    case False
    have "bwd_weight upd h < bwd_weight upd g"
    proof (rule bwd_weight_less [OF n k])
      show "\<not> bwd_ok upd g k"
        using ans False by (auto simp: bwd_ok_def)
      show "bwd_ok upd h k"
        by (rule settled_bwd_ok [OF stab])
      show "bwd_ok upd h j" if "k < j" "j < length (nodes g)" "bwd_ok upd g j" for j
        using that env node_step_send_env_ge [OF wf st, of j] by (intro bwd) auto
    qed
    then show ?thesis ..
  next
    case silent: True
    have "pipes h = pipes g"
      using node_step_idle [OF wf st [unfolded quiet silent]] .
    then have "tu = rest"
      using wk by (auto simp: work_step_def)
    moreover have "bwd_weight upd h \<le> bwd_weight upd g"
      using settled_bwd_ok [OF stab] bwd env node_step_send_env_quiet [OF wf st [unfolded silent]]
      by (intro bwd_weight_le [OF n]) metis
    ultimately show ?thesis
      by blast
  qed
qed

lemma step_progress:
  assumes wf: "wf_graph g" and pt: "ported ports g" and k: "k < length (nodes g)"
    and ans: "upd (compute (nodes g ! k)) (recv_env g k) (send_env g k) = Inr (c, recv, send)"
    and st: "node_step g k c recv send h" and wk: "work_step g h rest sched tu sched'"
  shows "((h, tu), (g, k # rest)) \<in> update_rel upd"
proof (cases "\<forall>p < length (pipes g).
    (recv_state (pipes h ! p) = Done) = (recv_state (pipes g ! p) = Done)
    \<and> (send_state (pipes h ! p) = Done) = (send_state (pipes g ! p) = Done)")
  case False
  then show ?thesis
    using open_ends_less [OF wf st] by (auto simp: update_rel_def)
next
  case True
  have n: "length (nodes h) = length (nodes g)" and m: "length (pipes h) = length (pipes g)"
    using st by (simp_all add: node_step_def same_shape_def)
  have open_same: "open_ends h = open_ends g"
    using True m by (simp add: open_ends_def length_filter_conv_card cong: conj_cong)
  have dp: "done_pattern (send_env h j) = done_pattern (send_env g j)" if "j < length (nodes g)" for j
    using done_pattern_keeps [OF wf st that] True by blast
  show ?thesis
  proof (cases "send = send_shown g k")
    case False
    then show ?thesis
      using open_same forward_progress [OF wf pt k ans st dp False] by (simp add: update_rel_def)
  next
    case quiet: True
    have "fwd_ok upd h k"
      using settled_fwd_ok [OF step_ported [OF pt k ans st] _ step_settled [OF wf pt k ans st]] k n by simp
    then have "fwd_weight upd h \<le> fwd_weight upd g"
      using fwd_ok_keeps [OF wf pt k ans st _ _ _ dp] node_step_recv_env_quiet [OF wf st [unfolded quiet]]
      by (intro fwd_weight_le [OF n]) metis
    then show ?thesis
      using open_same backward_progress [OF wf pt k ans st wk quiet] by (auto simp: update_rel_def)
  qed
qed

lemma other_settled:
  assumes wf: "wf_graph g" and pt: "ported ports g" and k: "k < length (nodes g)"
    and ans: "upd (compute (nodes g ! k)) (recv_env g k) (send_env g k) = Inr (c, recv, send)"
    and st: "node_step g k c recv send h" and wk: "work_step g h rest sched tu sched'"
    and j: "j < length (nodes g)" "j \<noteq> k" "j \<notin> sched'" and ok: "settled upd g j"
  shows "settled upd h j"
proof -
  have "recv_env h j = recv_env g j"
    by (rule node_step_recv_env [OF wf st j(1)]) (use wk j(3) in \<open>auto simp: work_step_def\<close>)
  moreover have "send_env h j = send_env g j"
    by (rule node_step_send_env [OF wf st j(1)]) (use wk j(3) in \<open>auto simp: work_step_def\<close>)
  ultimately show ?thesis
    using ok j node_step_shown [OF wf k st answer_length [OF pt k ans] j(1)] node_step_nodes(3) [OF st j(1)]
    by (simp add: settled_def)
qed

lemma update_step_keeps:
  assumes wf: "wf_graph g" and pt: "ported ports g" and st: "update_step upd g h"
  shows "wf_graph h" and "ported ports h" and "same_shape g h" and "done_kept g h"
proof -
  obtain k c recv send where k: "k < length (nodes g)"
      "upd (compute (nodes g ! k)) (recv_env g k) (send_env g k) = Inr (c, recv, send)" "node_step g k c recv send h"
    using st by (auto elim: update_step.cases)
  show "wf_graph h" "ported ports h" "same_shape g h"
    using same_shape_wf [OF wf node_step_shape [OF k(3)]] step_ported [OF pt k] node_step_shape [OF k(3)] by blast+
  show "done_kept g h"
    using k(3) unfolding node_step_def done_kept_def by blast
qed

lemma loop_iteration:
  assumes wf: "wf_graph g" and pt: "ported ports g" and tu: "set (k # rest) \<subseteq> {..<length (nodes g)}"
    and sched: "sched \<subseteq> set (k # rest)"
    and ok: "\<And>j. j < length (nodes g) \<Longrightarrow> j \<notin> set (k # rest) \<Longrightarrow> settled upd g j"
    and run: "update_node upd g k rest (sched - {k}) = Inr (h, tu', sched')"
  shows "update_step upd g h" and "((h, tu'), (g, k # rest)) \<in> update_rel upd"
    and "set tu' \<subseteq> {..<length (nodes h)}" and "sched' \<subseteq> set tu'"
    and "\<And>j. j < length (nodes h) \<Longrightarrow> j \<notin> set tu' \<Longrightarrow> settled upd h j"
proof -
  have k: "k < length (nodes g)"
    using tu by simp
  obtain c recv send where ans: "upd (compute (nodes g ! k)) (recv_env g k) (send_env g k) = Inr (c, recv, send)"
    using run by (auto simp: update_node_def Let_def rbind_eq_Inr_iff)
  note steps = update_node_step [OF wf k ans answer_length [OF pt k ans] run]
  have n: "length (nodes h) = length (nodes g)"
    using node_step_shape [OF steps(1)] by (simp add: same_shape_def)
  obtain new where new: "tu' = new @ rest" "sched' = (sched - {k}) \<union> set new" "set new \<subseteq> {..<length (nodes g)}"
    using steps(2) unfolding work_step_def by blast
  show "update_step upd g h"
    using k ans steps(1) by (rule update_step.intros)
  show "((h, tu'), (g, k # rest)) \<in> update_rel upd"
    by (rule step_progress [OF wf pt k ans steps])
  show sub: "set tu' \<subseteq> {..<length (nodes h)}" "sched' \<subseteq> set tu'"
    using new tu sched n by auto
  show "settled upd h j" if "j < length (nodes h)" "j \<notin> set tu'" for j
  proof (cases "j = k")
    case True
    then show ?thesis
      using step_settled [OF wf pt k ans steps(1)] by simp
  next
    case False
    then show ?thesis
      using that n new sub(2) ok [of j] by (intro other_settled [OF wf pt k ans steps]) auto
  qed
qed

lemma update_loop_returns:
  "wf_graph g \<Longrightarrow> ported ports g \<Longrightarrow> set tu \<subseteq> {..<length (nodes g)} \<Longrightarrow> sched \<subseteq> set tu \<Longrightarrow>
   (\<And>j. j < length (nodes g) \<Longrightarrow> j \<notin> set tu \<Longrightarrow> settled upd g j) \<Longrightarrow>
   \<exists>res. update_loop upd g tu sched = Some res
     \<and> (\<forall>h. res = Inr h \<longrightarrow> (update_step upd)\<^sup>*\<^sup>* g h \<and> (\<forall>j < length (nodes g). settled upd h j))"
proof (induction "(g, tu)" arbitrary: g tu sched rule: wf_induct_rule [OF wf_update_rel [of upd]])
  case (1 g tu sched)
  show ?case
  proof (cases tu)
    case Nil
    then show ?thesis
      using "1.prems" by (subst update_loop.simps) simp
  next
    case (Cons k rest)
    show ?thesis
    proof (cases "update_node upd g k rest (sched - {k})")
      case (Inl e)
      then show ?thesis
        by (subst update_loop.simps) (simp add: Cons)
    next
      case (Inr res)
      obtain h tu' sched' where res: "res = (h, tu', sched')"
        by (cases res)
      note it = loop_iteration [OF "1.prems" [unfolded Cons] Inr [unfolded res]]
      note kept = update_step_keeps [OF "1.prems"(1,2) it(1)]
      obtain r where "update_loop upd h tu' sched' = Some r"
        "\<forall>h'. r = Inr h' \<longrightarrow> (update_step upd)\<^sup>*\<^sup>* h h' \<and> (\<forall>j < length (nodes h). settled upd h' j)"
        using "1.hyps" [OF it(2) [folded Cons] kept(1,2) it(3-5)] by blast
      moreover have "length (nodes h) = length (nodes g)"
        using kept(3) by (simp add: same_shape_def)
      ultimately show ?thesis
        using Inr res converse_rtranclp_into_rtranclp [of "update_step upd", OF it(1)]
        by (subst update_loop.simps) (simp add: Cons)
    qed
  qed
qed

lemma update_steps_keep:
  "(update_step upd)\<^sup>*\<^sup>* g h \<Longrightarrow> wf_graph g \<Longrightarrow> ported ports g \<Longrightarrow>
     wf_graph h \<and> ported ports h \<and> same_shape g h \<and> done_kept g h"
proof (induction rule: rtranclp_induct)
  case (step h i)
  then show ?case
    using update_step_keeps [of h i] same_shape_trans [of g h i]
    by (auto simp: done_kept_def same_shape_def)
qed (simp add: done_kept_def)

lemma update_all_states_returns:
  assumes "wf_graph g" and "ported ports g" and "set keys = {..<length (nodes g)}"
  shows "\<exists>res. update_all_states upd keys g = Some res
    \<and> (\<forall>h. res = Inr h \<longrightarrow> (update_step upd)\<^sup>*\<^sup>* g h \<and> (\<forall>j < length (nodes g). settled upd h j))"
  using update_loop_returns [OF assms(1,2), of "rev keys" "set keys"] assms(3)
  by (simp add: update_all_states_def)

end

end
