(* ===== verification/StreamNodes.thy ===== *)
theory StreamNodes
  imports StreamFixpoint
begin

section \<open>The nodes of the compute graph\<close>

text \<open>
  \<open>polars-stream/src/nodes\<close>: the state of every kind of node and its method
  \<open>update_state\<close>, and the proof that each keeps the contract \<open>compute_node\<close>.

  Of a data frame only the height matters for the port states. What a sink would hand to
  the function of an in-memory map, and what the reductions would produce, is part of the
  state of the node: the height of the resulting frame, or the error. The ideal morsel
  size is a parameter, since it is read from the environment. Offsets and lengths of a slice
  are unbounded.
\<close>

subsection \<open>Node states\<close>

record source_node =
  src_height :: "nat option"
  morsel_size :: nat
  src_seq :: u64

datatype map_node = MapSink nat "nat res" | MapSource source_node | MapDone

datatype reduce_state = ReduceSink "nat res" | ReduceSource "nat option" | ReduceDone

record union_node =
  cur_input_idx :: nat
  max_morsel_seq_sent :: u64
  morsel_offset :: u64

datatype buffered_stream = Open "nat list" | Closed

record input_head =
  is_broadcast :: "bool option"
  stream_exhausted :: bool
  morsels :: "nat list"
  total_len :: nat

record zip_node =
  null_extend :: bool
  input_heads :: "input_head list"

record slice_node =
  start_offset :: nat
  slice_length :: nat
  stream_offset :: nat

definition ordered_union_new :: union_node where
  "ordered_union_new = \<lparr>cur_input_idx = 0, max_morsel_seq_sent = 0, morsel_offset = 0\<rparr>"

definition multiplexer_new :: "buffered_stream list" where
  "multiplexer_new = []"

definition input_head_new :: "bool \<Rightarrow> input_head" where
  "input_head_new may_broadcast =
     \<lparr>is_broadcast = (if may_broadcast then None else Some False), stream_exhausted = False, morsels = [],
      total_len = 0\<rparr>"

definition zip_new :: "bool \<Rightarrow> nat \<Rightarrow> zip_node" where
  "zip_new ext n = \<lparr>null_extend = ext, input_heads = map (\<lambda>_. input_head_new (\<not> ext)) [0..<n]\<rparr>"

subsection \<open>Nodes that pass data through\<close>

definition swap_update :: "port_state list \<Rightarrow> port_state list \<Rightarrow> (port_state list \<times> port_state list) res" where
  "swap_update recv send = assert_that (length recv = 1 \<and> length send = 1) (Inr (send, recv))"

definition filter_update :: "unit update_fn" where
  "filter_update c recv send = rbind (swap_update recv send) (\<lambda>(r, s). Inr (c, r, s))"

definition map_update :: "unit update_fn" where
  "map_update c recv send = rbind (swap_update recv send) (\<lambda>(r, s). Inr (c, r, s))"

definition select_update :: "unit update_fn" where
  "select_update c recv send = rbind (swap_update recv send) (\<lambda>(r, s). Inr (c, r, s))"

definition simple_projection_update :: "unit update_fn" where
  "simple_projection_update c recv send = rbind (swap_update recv send) (\<lambda>(r, s). Inr (c, r, s))"

definition slice_update :: "slice_node update_fn" where
  "slice_update c recv send =
     (if start_offset c + slice_length c \<le> stream_offset c \<or> slice_length c = 0
      then assert_that (recv \<noteq> [] \<and> send \<noteq> []) (Inr (c, recv[0 := Done], send[0 := Done]))
      else assert_that (length recv = length send) (Inr (c, send, recv)))"

subsection \<open>In-memory sinks, sources and maps\<close>

definition sink_update :: "unit update_fn" where
  "sink_update c recv send =
     assert_that (send = []) (assert_that (length recv = 1)
       (Inr (c, if recv ! 0 \<noteq> Done then recv[0 := Ready] else recv, send)))"

definition source_new :: "nat \<Rightarrow> source_node" where
  "source_new h = \<lparr>src_height = Some h, morsel_size = 0, src_seq = 0\<rparr>"

definition next_multiple_of :: "nat \<Rightarrow> nat \<Rightarrow> nat" where
  "next_multiple_of a b = (if a mod b = 0 then a else a + (b - a mod b))"

definition div_ceil :: "nat \<Rightarrow> nat \<Rightarrow> nat" where
  "div_ceil a b = (a + b - 1) div b"

definition source_initialize :: "nat \<Rightarrow> nat \<Rightarrow> source_node \<Rightarrow> source_node res" where
  "source_initialize ideal num_pipelines c =
     (case src_height c of
        None \<Rightarrow> Inl Panic
      | Some len \<Rightarrow>
          assert_that (0 < ideal) (assert_that (0 < num_pipelines)
            (let ideal_morsel_count = max (len div ideal) 1;
                 morsel_count = next_multiple_of ideal_morsel_count num_pipelines
             in Inr (c\<lparr>morsel_size := max (div_ceil len morsel_count) 1, src_seq := 0\<rparr>))))"

definition source_exhausted :: "source_node \<Rightarrow> bool" where
  "source_exhausted c =
     (case src_height c of
        None \<Rightarrow> True
      | Some h \<Rightarrow> (of_nat h :: u64) \<le> src_seq c * of_nat (morsel_size c))"

definition source_update :: "source_node update_fn" where
  "source_update c recv send =
     assert_that (recv = []) (assert_that (length send = 1)
       (if send ! 0 = Done \<or> source_exhausted c
        then Inr (c\<lparr>src_height := None\<rparr>, recv, send[0 := Done])
        else Inr (c, recv, send[0 := Ready])))"

definition map_finish_sink :: "nat \<Rightarrow> port_state \<Rightarrow> map_node \<Rightarrow> map_node res" where
  "map_finish_sink ideal r c =
     (case c of
        MapSink num_pipelines out \<Rightarrow>
          (if r = Done
           then rbind out (\<lambda>h. rbind (source_initialize ideal num_pipelines (source_new h))
                  (\<lambda>src. Inr (MapSource src)))
           else Inr c)
      | _ \<Rightarrow> Inr c)"

definition in_memory_map_update :: "nat \<Rightarrow> map_node update_fn" where
  "in_memory_map_update ideal c recv send =
     assert_that (length recv = 1 \<and> length send = 1)
       (let c1 = (if send ! 0 = Done \<and> c \<noteq> MapDone then MapDone else c) in
        rbind (map_finish_sink ideal (recv ! 0) c1) (\<lambda>c2.
          case c2 of
            MapSink _ _ \<Rightarrow>
              rbind (sink_update () recv []) (\<lambda>(_, r, _). Inr (c2, r, send[0 := Blocked]))
          | MapSource src \<Rightarrow>
              rbind (source_update src [] send) (\<lambda>(src', _, s). Inr (MapSource src', recv[0 := Done], s))
          | MapDone \<Rightarrow> Inr (c2, recv[0 := Done], send[0 := Done])))"

definition reduce_transition :: "port_state \<Rightarrow> port_state \<Rightarrow> reduce_state \<Rightarrow> reduce_state res" where
  "reduce_transition r s c =
     (if s = Done then Inr ReduceDone
      else case c of
        ReduceSink out \<Rightarrow> (if r = Done then rbind out (\<lambda>h. Inr (ReduceSource (Some h))) else Inr c)
      | ReduceSource None \<Rightarrow> Inr ReduceDone
      | _ \<Rightarrow> Inr c)"

definition reduce_update :: "reduce_state update_fn" where
  "reduce_update c recv send =
     assert_that (length recv = 1 \<and> length send = 1)
       (rbind (reduce_transition (recv ! 0) (send ! 0) c) (\<lambda>c'.
          Inr (case c' of
                 ReduceSink _ \<Rightarrow> (c', recv[0 := Ready], send[0 := Blocked])
               | ReduceSource _ \<Rightarrow> (c', recv[0 := Done], send[0 := Ready])
               | ReduceDone \<Rightarrow> (c', recv[0 := Done], send[0 := Done]))))"

subsection \<open>Nodes with several inputs or outputs\<close>

definition morsel_seq_successor :: "u64 \<Rightarrow> u64 res" where
  "morsel_seq_successor n = (if n \<le> - 3 then Inr (n + 2) else Inl Panic)"

function skip_done :: "nat \<Rightarrow> port_state list \<Rightarrow> nat" where
  "skip_done cur recv = (if cur < length recv \<and> recv ! cur = Done then skip_done (Suc cur) recv else cur)"
  by pat_completeness auto

termination
  by (relation "measure (\<lambda>(cur, recv). length recv - cur)") auto

declare skip_done.simps [simp del]

definition ordered_union_update :: "union_node update_fn" where
  "ordered_union_update c recv send =
     assert_that (cur_input_idx c \<le> length recv \<and> length send = 1)
       (let cur = skip_done (cur_input_idx c) recv;
            recv1 = (if cur < length recv then recv[cur := send ! 0] else recv);
            send1 = (if cur < length recv then send[0 := recv ! cur] else send[0 := Done]);
            recv2 = take (Suc cur) recv1 @ replicate (length recv - Suc cur) Blocked
        in rbind (morsel_seq_successor (max_morsel_seq_sent c)) (\<lambda>off.
             Inr (c\<lparr>cur_input_idx := cur, morsel_offset := off\<rparr>, recv2, send1)))"

definition buffer_empty :: "buffered_stream \<Rightarrow> bool" where
  "buffer_empty b = (case b of Open v \<Rightarrow> v = [] | Closed \<Rightarrow> True)"

definition resize_buffers :: "nat \<Rightarrow> buffered_stream list \<Rightarrow> buffered_stream list" where
  "resize_buffers n bs = take n bs @ replicate (n - length bs) (Open [])"

definition close_done :: "port_state list \<Rightarrow> buffered_stream list \<Rightarrow> buffered_stream list" where
  "close_done send bs = map2 (\<lambda>s b. if s = Done then Closed else b) send bs"

definition multiplexer_update :: "buffered_stream list update_fn" where
  "multiplexer_update c recv send =
     assert_that (length recv = 1 \<and> send \<noteq> [])
       (let bs = close_done send (resize_buffers (length send) c);
            input_done = (recv ! 0 = Done \<and> list_all buffer_empty bs);
            output_done = list_all (\<lambda>p. p = Done) send
        in if input_done \<or> output_done
           then Inr (bs, recv[0 := Done], replicate (length send) Done)
           else
             let all_blocked = list_all (\<lambda>p. p = Blocked) send;
                 send' = map (\<lambda>b. if buffer_empty b \<and> recv ! 0 = Done then Done
                                   else if \<not> buffer_empty b \<or> recv ! 0 = Ready then Ready
                                   else Blocked) bs
             in Inr (bs, recv[0 := (if all_blocked then Blocked else Ready)], send'))"

definition notify_no_more_morsels :: "input_head \<Rightarrow> input_head" where
  "notify_no_more_morsels h =
     (let h1 = (if is_broadcast h = None then h\<lparr>is_broadcast := Some (total_len h = 1)\<rparr> else h)
      in h1\<lparr>stream_exhausted := True\<rparr>)"

definition head_clear :: "input_head \<Rightarrow> input_head" where
  "head_clear h = h\<lparr>total_len := 0, is_broadcast := Some False, morsels := []\<rparr>"

definition zip_update :: "zip_node update_fn" where
  "zip_update c recv send =
     assert_that (length send = 1) (assert_that (length recv = length (input_heads c))
       (let any_input_blocked = list_ex (\<lambda>s. s = Blocked) recv;
            heads = map2 (\<lambda>r h. if r = Done then notify_no_more_morsels h else h) recv (input_heads c);
            all_done_or_broadcast =
              list_all (\<lambda>(r, h). r = Done \<and> (is_broadcast h = Some True \<or> total_len h = 0)) (zip recv heads);
            all_broadcast = list_all (\<lambda>h. is_broadcast h = Some True) heads;
            non_broadcast_done =
              list_ex (\<lambda>(r, h). r = Done \<and> is_broadcast h = Some False \<and> total_len h = 0) (zip recv heads);
            non_broadcast_nonempty = list_ex (\<lambda>h. is_broadcast h = Some False \<and> 0 < total_len h) heads
        in if \<not> null_extend c \<and> non_broadcast_done \<and> non_broadcast_nonempty
           then Inl (Err ''zip node received non-equal length inputs'')
           else
             let all_output_sent = (all_done_or_broadcast \<and> \<not> all_broadcast)
             in if send ! 0 = Done \<or> all_output_sent
                then Inr (c\<lparr>input_heads := map head_clear heads\<rparr>, replicate (length recv) Done, send[0 := Done])
                else if send ! 0 = Blocked \<or> any_input_blocked
                then Inr (c\<lparr>input_heads := heads\<rparr>, replicate (length recv) Blocked,
                          send[0 := (if any_input_blocked then Blocked else Ready)])
                else Inr (c\<lparr>input_heads := heads\<rparr>, replicate (length recv) Ready, send[0 := Ready])))"

subsection \<open>The trait object\<close>

datatype node_kind =
    FilterNode | MapNode | SelectNode | SimpleProjectionNode
  | StreamingSliceNode slice_node
  | InMemorySinkNode
  | InMemorySourceNode source_node
  | InMemoryMapNode map_node
  | ReduceNode reduce_state
  | OrderedUnionNode union_node
  | MultiplexerNode "buffered_stream list"
  | ZipNode zip_node

definition tagged :: "('c \<Rightarrow> node_kind) \<Rightarrow> ('c \<times> port_state list \<times> port_state list) res
    \<Rightarrow> (node_kind \<times> port_state list \<times> port_state list) res" where
  "tagged tag r = rbind r (\<lambda>(c, recv, send). Inr (tag c, recv, send))"

fun node_update :: "nat \<Rightarrow> node_kind update_fn" where
  "node_update ideal FilterNode recv send = tagged (\<lambda>_. FilterNode) (filter_update () recv send)"
| "node_update ideal MapNode recv send = tagged (\<lambda>_. MapNode) (map_update () recv send)"
| "node_update ideal SelectNode recv send = tagged (\<lambda>_. SelectNode) (select_update () recv send)"
| "node_update ideal SimpleProjectionNode recv send =
     tagged (\<lambda>_. SimpleProjectionNode) (simple_projection_update () recv send)"
| "node_update ideal (StreamingSliceNode c) recv send = tagged StreamingSliceNode (slice_update c recv send)"
| "node_update ideal InMemorySinkNode recv send = tagged (\<lambda>_. InMemorySinkNode) (sink_update () recv send)"
| "node_update ideal (InMemorySourceNode c) recv send = tagged InMemorySourceNode (source_update c recv send)"
| "node_update ideal (InMemoryMapNode c) recv send =
     tagged InMemoryMapNode (in_memory_map_update ideal c recv send)"
| "node_update ideal (ReduceNode c) recv send = tagged ReduceNode (reduce_update c recv send)"
| "node_update ideal (OrderedUnionNode c) recv send = tagged OrderedUnionNode (ordered_union_update c recv send)"
| "node_update ideal (MultiplexerNode c) recv send = tagged MultiplexerNode (multiplexer_update c recv send)"
| "node_update ideal (ZipNode c) recv send = tagged ZipNode (zip_update c recv send)"

subsection \<open>Every node keeps the contract\<close>

lemma assert_that_Inr [simp]: "assert_that b r = Inr x \<longleftrightarrow> b \<and> r = Inr x"
  by (simp add: assert_that_def)

lemma length_one: "length xs = Suc 0 \<longleftrightarrow> (\<exists>x. xs = [x])"
  by (cases xs) auto

lemma swap_update_Inr [simp]:
  "swap_update recv send = Inr (r, s) \<longleftrightarrow> length recv = 1 \<and> length send = 1 \<and> r = send \<and> s = recv"
  by (auto simp: swap_update_def)

lemma done_pattern_Cons [simp]:
  "done_pattern [] = []" "done_pattern (x # xs) = (x = Done) # done_pattern xs"
  by (simp_all add: done_pattern_def)

lemma done_pattern_length: "done_pattern s = done_pattern t \<Longrightarrow> length s = length t"
  unfolding done_pattern_def by (metis length_map)

interpretation filter_node: compute_node filter_update "\<lambda>_ _ _. True"
  by unfold_locales (auto simp: filter_update_def rbind_eq_Inr_iff)

interpretation map_node: compute_node map_update "\<lambda>_ _ _. True"
  by unfold_locales (auto simp: map_update_def rbind_eq_Inr_iff)

interpretation select_node: compute_node select_update "\<lambda>_ _ _. True"
  by unfold_locales (auto simp: select_update_def rbind_eq_Inr_iff)

interpretation projection_node: compute_node simple_projection_update "\<lambda>_ _ _. True"
  by unfold_locales (auto simp: simple_projection_update_def rbind_eq_Inr_iff)

lemma slice_update_one:
  "slice_update c [x] [y] =
     (if start_offset c + slice_length c \<le> stream_offset c \<or> slice_length c = 0
      then Inr (c, [Done], [Done]) else Inr (c, [y], [x]))"
  by (simp add: slice_update_def)

interpretation slice_node: compute_node slice_update "\<lambda>_ n m. n = 1 \<and> m = 1"
proof unfold_locales
  fix c c' :: slice_node and r s r' s' :: "port_state list"
  assume "length r = 1 \<and> length s = 1"
  then obtain x y where rs: "r = [x]" "s = [y]"
    by (auto simp: length_one)
  assume "slice_update c r s = Inr (c', r', s')"
  then show "length r' = length r \<and> length s' = length s \<and> length r = 1 \<and> length s = 1"
    and "slice_update c' r s = Inr (c', r', s')"
    by (auto simp: rs slice_update_one split: if_splits)
next
  fix c c1 c2 :: slice_node and r s t r1 s1 r2 s2 :: "port_state list"
  assume "length r = 1 \<and> length s = 1" and d: "done_pattern s = done_pattern t"
  then obtain x y z where rs: "r = [x]" "s = [y]" "t = [z]"
    using done_pattern_length [OF d] by (auto simp: length_one)
  assume "slice_update c r s = Inr (c1, r1, s1)" "slice_update c r t = Inr (c2, r2, s2)"
  then show "s1 = s2"
    by (auto simp: rs slice_update_one split: if_splits)
qed

interpretation sink_node: compute_node sink_update "\<lambda>_ _ _. True"
  by unfold_locales (auto simp: sink_update_def)

interpretation source_node: compute_node source_update "\<lambda>_ _ _. True"
  by unfold_locales (auto simp: source_update_def source_exhausted_def length_one split: if_splits option.splits)

definition reduce_ports :: "reduce_state \<Rightarrow> port_state \<times> port_state" where
  "reduce_ports c = (case c of ReduceSink _ \<Rightarrow> (Ready, Blocked) | ReduceSource _ \<Rightarrow> (Done, Ready)
     | ReduceDone \<Rightarrow> (Done, Done))"

lemma reduce_update_Inr:
  "reduce_update c [r] [s] =
     rbind (reduce_transition r s c) (\<lambda>c'. Inr (c', [fst (reduce_ports c')], [snd (reduce_ports c')]))"
  by (cases "reduce_transition r s c")
    (simp_all add: reduce_update_def reduce_ports_def split: reduce_state.split)

lemma reduce_update_one:
  "reduce_update c recv send = Inr x \<Longrightarrow> \<exists>r s. recv = [r] \<and> send = [s]"
  by (simp add: reduce_update_def length_one)

lemma reduce_transition_idem: "reduce_transition r s c = Inr c' \<Longrightarrow> reduce_transition r s c' = Inr c'"
  by (cases c) (auto simp: reduce_transition_def rbind_eq_Inr_iff split: if_splits option.splits)

lemma reduce_transition_done:
  "(s = Done) = (t = Done) \<Longrightarrow> reduce_transition r s c = reduce_transition r t c"
  by (simp add: reduce_transition_def)

interpretation reduce_node: compute_node reduce_update "\<lambda>_ _ _. True"
proof unfold_locales
  fix c c' :: reduce_state and r s r' s' :: "port_state list"
  assume upd: "reduce_update c r s = Inr (c', r', s')"
  then obtain x y where rs: "r = [x]" "s = [y]"
    using reduce_update_one by blast
  with upd have "reduce_transition x y c = Inr c'" "r' = [fst (reduce_ports c')]" "s' = [snd (reduce_ports c')]"
    by (auto simp: reduce_update_Inr rbind_eq_Inr_iff)
  then show "length r' = length r \<and> length s' = length s \<and> True"
    and "reduce_update c' r s = Inr (c', r', s')"
    by (simp_all add: rs reduce_update_Inr reduce_transition_idem [of x y c])
next
  fix c c1 c2 :: reduce_state and r s t r1 s1 r2 s2 :: "port_state list"
  assume 1: "reduce_update c r s = Inr (c1, r1, s1)" and 2: "reduce_update c r t = Inr (c2, r2, s2)"
    and d: "done_pattern s = done_pattern t"
  then obtain x y z where rs: "r = [x]" "s = [y]" "t = [z]"
    using reduce_update_one [OF 1] reduce_update_one [OF 2] by blast
  then have "reduce_transition x y c = reduce_transition x z c"
    using d by (intro reduce_transition_done) simp
  with 1 2 show "s1 = s2"
    by (auto simp: rs reduce_update_Inr rbind_eq_Inr_iff)
qed

lemma map_finish_sink_idem: "map_finish_sink ideal r c = Inr c' \<Longrightarrow> map_finish_sink ideal r c' = Inr c'"
  by (cases c) (auto simp: map_finish_sink_def rbind_eq_Inr_iff split: if_splits)

text \<open>An in-memory map first changes its phase and then communicates it.\<close>

definition map_phase :: "nat \<Rightarrow> port_state \<Rightarrow> port_state \<Rightarrow> map_node \<Rightarrow> map_node res" where
  "map_phase ideal r s c = (if s = Done then Inr MapDone else map_finish_sink ideal r c)"

lemma map_finish_sink_Sink:
  "map_finish_sink ideal r c = Inr (MapSink n out) \<Longrightarrow> r \<noteq> Done"
  by (cases c) (auto simp: map_finish_sink_def rbind_eq_Inr_iff split: if_splits)

definition map_emit :: "map_node \<Rightarrow> map_node \<times> port_state list \<times> port_state list" where
  "map_emit p =
     (case p of
        MapSink _ _ \<Rightarrow> (p, [Ready], [Blocked])
      | MapSource src \<Rightarrow>
          (if source_exhausted src then (MapSource (src\<lparr>src_height := None\<rparr>), [Done], [Done])
           else (p, [Done], [Ready]))
      | MapDone \<Rightarrow> (p, [Done], [Done]))"

lemma in_memory_map_update_one:
  "in_memory_map_update ideal c [r] [s] = rbind (map_phase ideal r s c) (\<lambda>p. Inr (map_emit p))"
proof (cases "s = Done")
  case True
  then show ?thesis
    by (simp add: in_memory_map_update_def map_phase_def map_finish_sink_def map_emit_def)
next
  case False
  show ?thesis
  proof (cases "map_finish_sink ideal r c")
    case (Inl e)
    then show ?thesis
      using False by (simp add: in_memory_map_update_def map_phase_def)
  next
    case (Inr p)
    then show ?thesis
      using False map_finish_sink_Sink [of ideal r c]
      by (cases p)
        (simp_all add: in_memory_map_update_def map_phase_def sink_update_def source_update_def map_emit_def)
  qed
qed

lemma in_memory_map_ports:
  "in_memory_map_update ideal c recv send = Inr x \<Longrightarrow> \<exists>r s. recv = [r] \<and> send = [s]"
  by (simp add: in_memory_map_update_def length_one)

lemma map_phase_emit:
  assumes "map_phase ideal r s c = Inr p" and "map_emit p = (c', r', s')"
  shows "\<exists>p'. map_phase ideal r s c' = Inr p' \<and> map_emit p' = (c', r', s')"
proof (cases p)
  case (MapSource src)
  then have "s \<noteq> Done"
    using assms by (auto simp: map_phase_def)
  then show ?thesis
    using assms MapSource
    by (auto simp: map_phase_def map_emit_def map_finish_sink_def source_exhausted_def split: if_splits)
next
  case (MapSink n out)
  then show ?thesis
    using assms map_finish_sink_idem [of ideal r c p] by (auto simp: map_phase_def map_emit_def split: if_splits)
next
  case MapDone
  then show ?thesis
    using assms by (auto simp: map_phase_def map_emit_def map_finish_sink_def)
qed

lemma map_emit_lengths: "map_emit p = (c', r', s') \<Longrightarrow> length r' = 1 \<and> length s' = 1"
  by (cases p) (auto simp: map_emit_def split: if_splits)

interpretation in_memory_map_node: compute_node "in_memory_map_update ideal" "\<lambda>_ _ _. True" for ideal
proof unfold_locales
  fix c c' :: map_node and r s r' s' :: "port_state list"
  assume upd: "in_memory_map_update ideal c r s = Inr (c', r', s')"
  then obtain x y where rs: "r = [x]" "s = [y]"
    using in_memory_map_ports by blast
  with upd obtain p where p: "map_phase ideal x y c = Inr p" "map_emit p = (c', r', s')"
    by (auto simp: in_memory_map_update_one rbind_eq_Inr_iff)
  show "length r' = length r \<and> length s' = length s \<and> True"
    using map_emit_lengths [OF p(2)] by (simp add: rs)
  show "in_memory_map_update ideal c' r s = Inr (c', r', s')"
    using map_phase_emit [OF p] by (auto simp: rs in_memory_map_update_one)
next
  fix c c1 c2 :: map_node and r s t r1 s1 r2 s2 :: "port_state list"
  assume 1: "in_memory_map_update ideal c r s = Inr (c1, r1, s1)"
    and 2: "in_memory_map_update ideal c r t = Inr (c2, r2, s2)"
    and d: "done_pattern s = done_pattern t"
  then obtain x y z where rs: "r = [x]" "s = [y]" "t = [z]"
    using in_memory_map_ports [OF 1] in_memory_map_ports [OF 2] by blast
  with d have "map_phase ideal x y c = map_phase ideal x z c"
    by (simp add: map_phase_def)
  then show "s1 = s2"
    using 1 2 by (auto simp: rs in_memory_map_update_one rbind_eq_Inr_iff)
qed

lemma skip_done_stop [simp]: "skip_done (skip_done cur recv) recv = skip_done cur recv"
proof (induction cur recv rule: skip_done.induct)
  case (1 cur recv)
  then show ?case
    by (cases "cur < length recv \<and> recv ! cur = Done") (auto simp: skip_done.simps [of cur recv])
qed

lemma skip_done_le: "cur \<le> length recv \<Longrightarrow> skip_done cur recv \<le> length recv"
  by (induction cur recv rule: skip_done.induct) (subst skip_done.simps, simp)

interpretation ordered_union_node: compute_node ordered_union_update "\<lambda>_ _ _. True"
  by unfold_locales
    (auto simp: ordered_union_update_def Let_def rbind_eq_Inr_iff skip_done_le length_one)

lemma close_done_length [simp]: "length (close_done send (resize_buffers (length send) c)) = length send"
  by (simp add: close_done_def resize_buffers_def)

lemma close_done_idem [simp]:
  "close_done send (resize_buffers (length send) (close_done send (resize_buffers (length send) c))) =
   close_done send (resize_buffers (length send) c)"
  by (rule nth_equalityI) (simp_all add: close_done_def resize_buffers_def)

lemma close_done_pattern:
  assumes d: "done_pattern s = done_pattern t"
  shows "close_done s bs = close_done t bs"
proof -
  have "(s ! i = Done) = (t ! i = Done)" if "i < length t" for i
    using arg_cong [OF d, of "\<lambda>l. l ! i"] done_pattern_length [OF d] that by (simp add: done_pattern_def)
  then show ?thesis
    using done_pattern_length [OF d] unfolding close_done_def by (intro nth_equalityI) auto
qed

lemma done_pattern_all: "list_all (\<lambda>p. p = Done) s \<longleftrightarrow> list_all id (done_pattern s)"
  by (simp add: done_pattern_def list_all_iff)

interpretation multiplexer_node: compute_node multiplexer_update "\<lambda>_ _ _. True"
proof unfold_locales
  fix c c' :: "buffered_stream list" and r s r' s' :: "port_state list"
  assume "multiplexer_update c r s = Inr (c', r', s')"
  then show "length r' = length r \<and> length s' = length s \<and> True"
    and "multiplexer_update c' r s = Inr (c', r', s')"
    unfolding multiplexer_update_def Let_def by (auto split: if_splits)
next
  fix c c1 c2 :: "buffered_stream list" and r s t r1 s1 r2 s2 :: "port_state list"
  assume "multiplexer_update c r s = Inr (c1, r1, s1)" "multiplexer_update c r t = Inr (c2, r2, s2)"
    and d: "done_pattern s = done_pattern t"
  then show "s1 = s2"
    using close_done_pattern [OF d] done_pattern_length [OF d]
    unfolding multiplexer_update_def Let_def done_pattern_all by (auto split: if_splits)
qed

lemma notify_idem [simp]: "notify_no_more_morsels (notify_no_more_morsels h) = notify_no_more_morsels h"
  by (simp add: notify_no_more_morsels_def Let_def)

lemma notify_clear [simp]:
  "notify_no_more_morsels (head_clear (notify_no_more_morsels h)) = head_clear (notify_no_more_morsels h)"
  by (simp add: notify_no_more_morsels_def head_clear_def Let_def)

lemma head_clear_simps [simp]:
  "is_broadcast (head_clear h) = Some False" "total_len (head_clear h) = 0"
  "head_clear (head_clear h) = head_clear h"
  by (simp_all add: head_clear_def)

definition notify_heads :: "port_state list \<Rightarrow> input_head list \<Rightarrow> input_head list" where
  "notify_heads recv hs = map2 (\<lambda>r h. if r = Done then notify_no_more_morsels h else h) recv hs"

lemma notify_heads_simps [simp]:
  "length (notify_heads recv hs) = min (length recv) (length hs)"
  "notify_heads recv (notify_heads recv hs) = notify_heads recv hs"
  "notify_heads recv (map head_clear (notify_heads recv hs)) = map head_clear (notify_heads recv hs)"
  by (auto simp: notify_heads_def intro!: nth_equalityI)

lemma notify_heads_empty: "notify_heads recv hs = [] \<longleftrightarrow> recv = [] \<or> hs = []"
  by (cases recv; cases hs) (simp_all add: notify_heads_def)

definition zip_finished :: "port_state list \<Rightarrow> input_head list \<Rightarrow> bool" where
  "zip_finished recv hs \<longleftrightarrow>
     list_all (\<lambda>(r, h). r = Done \<and> (is_broadcast h = Some True \<or> total_len h = 0)) (zip recv hs)
     \<and> \<not> list_all (\<lambda>h. is_broadcast h = Some True) hs"

definition zip_uneven :: "port_state list \<Rightarrow> input_head list \<Rightarrow> bool" where
  "zip_uneven recv hs \<longleftrightarrow>
     list_ex (\<lambda>(r, h). r = Done \<and> is_broadcast h = Some False \<and> total_len h = 0) (zip recv hs)
     \<and> list_ex (\<lambda>h. is_broadcast h = Some False \<and> 0 < total_len h) hs"

lemma zip_update_eq:
  "zip_update c recv send =
     assert_that (length send = 1) (assert_that (length recv = length (input_heads c))
       (let blocked = list_ex (\<lambda>s. s = Blocked) recv; hs = notify_heads recv (input_heads c)
        in if \<not> null_extend c \<and> zip_uneven recv hs
           then Inl (Err ''zip node received non-equal length inputs'')
           else if send ! 0 = Done \<or> zip_finished recv hs
           then Inr (c\<lparr>input_heads := map head_clear hs\<rparr>, replicate (length recv) Done, send[0 := Done])
           else if send ! 0 = Blocked \<or> blocked
           then Inr (c\<lparr>input_heads := hs\<rparr>, replicate (length recv) Blocked,
                     send[0 := (if blocked then Blocked else Ready)])
           else Inr (c\<lparr>input_heads := hs\<rparr>, replicate (length recv) Ready, send[0 := Ready])))"
  unfolding zip_update_def zip_uneven_def zip_finished_def notify_heads_def [symmetric] Let_def ..

lemma zip_cleared:
  assumes "length recv = length hs"
  shows "\<not> zip_uneven recv (map head_clear hs)"
    and "zip_finished recv hs \<Longrightarrow> zip_finished recv (map head_clear hs)"
proof -
  show "\<not> zip_uneven recv (map head_clear hs)"
    by (auto simp: zip_uneven_def list_ex_iff)
  have "list_all (\<lambda>(r, h). r = Done \<and> (is_broadcast h = Some True \<or> total_len h = 0))
      (zip recv (map head_clear hs))"
    if "list_all (\<lambda>(r, h). r = Done \<and> (is_broadcast h = Some True \<or> total_len h = 0)) (zip recv hs)"
    using assms that by (induction recv hs rule: list_induct2) auto
  then show "zip_finished recv hs \<Longrightarrow> zip_finished recv (map head_clear hs)"
    by (cases hs) (auto simp: zip_finished_def)
qed

interpretation zip_node: compute_node zip_update "\<lambda>_ _ _. True"
proof unfold_locales
  fix c c' :: zip_node and r s r' s' :: "port_state list"
  assume upd: "zip_update c r s = Inr (c', r', s')"
  show "length r' = length r \<and> length s' = length s \<and> True"
    using upd by (auto simp: zip_update_eq Let_def split: if_splits)
  define hs where "hs = notify_heads r (input_heads c)"
  have len: "length s = 1" "length r = length (input_heads c)" "length r = length hs"
    using upd by (auto simp: zip_update_eq hs_def)
  show "zip_update c' r s = Inr (c', r', s')"
  proof (cases "s ! 0 = Done \<or> zip_finished r hs")
    case True
    then have "c' = c\<lparr>input_heads := map head_clear hs\<rparr>" "r' = replicate (length r) Done" "s' = s[0 := Done]"
      using upd by (auto simp: zip_update_eq Let_def hs_def [symmetric] split: if_splits)
    moreover have "notify_heads r (map head_clear hs) = map head_clear hs"
      by (simp add: hs_def)
    ultimately show ?thesis
      using True len zip_cleared [OF len(3)] by (auto simp: zip_update_eq)
  next
    case False
    then have "c' = c\<lparr>input_heads := hs\<rparr>" "\<not> (\<not> null_extend c \<and> zip_uneven r hs)"
      using upd by (simp_all add: zip_update_eq Let_def hs_def [symmetric] split: if_splits)
    moreover have "notify_heads r hs = hs"
      by (simp add: hs_def)
    ultimately show ?thesis
      using upd False len by (simp add: zip_update_eq Let_def hs_def [symmetric] split: if_splits)
  qed
next
  fix c c1 c2 :: zip_node and r s t r1 s1 r2 s2 :: "port_state list"
  assume 1: "zip_update c r s = Inr (c1, r1, s1)" and 2: "zip_update c r t = Inr (c2, r2, s2)"
    and d: "done_pattern s = done_pattern t"
  then obtain x y where st: "s = [x]" "t = [y]"
    by (auto simp: zip_update_def length_one)
  show "s1 = s2"
    using 1 2 d unfolding zip_update_eq Let_def st by (auto split: if_splits)
qed

text \<open>The contract of the trait object follows from the contracts of the kinds of node.\<close>

fun node_ports :: "node_kind \<Rightarrow> nat \<Rightarrow> nat \<Rightarrow> bool" where
  "node_ports (StreamingSliceNode _) n m \<longleftrightarrow> n = 1 \<and> m = 1"
| "node_ports (ZipNode _) n m \<longleftrightarrow> 0 < n"
| "node_ports _ n m \<longleftrightarrow> True"

lemma tagged_Inr:
  "tagged tag r = Inr (k, recv, send) \<longleftrightarrow> (\<exists>c. r = Inr (c, recv, send) \<and> k = tag c)"
  by (auto simp: tagged_def rbind_eq_Inr_iff)

lemmas node_lengths =
  filter_node.upd_length [OF TrueI] map_node.upd_length [OF TrueI] select_node.upd_length [OF TrueI]
  projection_node.upd_length [OF TrueI] slice_node.upd_length [OF conjI, simplified] sink_node.upd_length [OF TrueI]
  source_node.upd_length [OF TrueI] in_memory_map_node.upd_length [OF TrueI] reduce_node.upd_length [OF TrueI]
  ordered_union_node.upd_length [OF TrueI] multiplexer_node.upd_length [OF TrueI] zip_node.upd_length [OF TrueI]

lemmas node_idems =
  filter_node.upd_idem [OF TrueI] map_node.upd_idem [OF TrueI] select_node.upd_idem [OF TrueI]
  projection_node.upd_idem [OF TrueI] slice_node.upd_idem [OF conjI, simplified] sink_node.upd_idem [OF TrueI]
  source_node.upd_idem [OF TrueI] in_memory_map_node.upd_idem [OF TrueI] reduce_node.upd_idem [OF TrueI]
  ordered_union_node.upd_idem [OF TrueI] multiplexer_node.upd_idem [OF TrueI] zip_node.upd_idem [OF TrueI]

lemmas node_forwards =
  filter_node.upd_forward [OF TrueI] map_node.upd_forward [OF TrueI] select_node.upd_forward [OF TrueI]
  projection_node.upd_forward [OF TrueI] slice_node.upd_forward [OF conjI, simplified] sink_node.upd_forward [OF TrueI]
  source_node.upd_forward [OF TrueI] in_memory_map_node.upd_forward [OF TrueI] reduce_node.upd_forward [OF TrueI]
  ordered_union_node.upd_forward [OF TrueI] multiplexer_node.upd_forward [OF TrueI] zip_node.upd_forward [OF TrueI]

interpretation any_node: compute_node "node_update ideal" node_ports for ideal
proof unfold_locales
  fix c c' :: node_kind and r s r' s' :: "port_state list"
  assume ports: "node_ports c (length r) (length s)" and upd: "node_update ideal c r s = Inr (c', r', s')"
  show "length r' = length r \<and> length s' = length s \<and> node_ports c' (length r) (length s)"
    using ports upd by (cases c) (auto simp: tagged_Inr dest: node_lengths)
  show "node_update ideal c' r s = Inr (c', r', s')"
    using ports upd by (cases c) (auto simp: tagged_Inr dest: node_idems)
next
  fix c c1 c2 :: node_kind and r s t r1 s1 r2 s2 :: "port_state list"
  assume "node_ports c (length r) (length s)" "node_update ideal c r s = Inr (c1, r1, s1)"
    "node_update ideal c r t = Inr (c2, r2, s2)" "done_pattern s = done_pattern t"
  then show "s1 = s2"
    by (cases c) (auto simp: tagged_Inr dest: node_forwards)
qed

end
