(* ===== verification/StreamExec.thy ===== *)
theory StreamExec
  imports StreamNodes
begin

section \<open>Choosing and starting a part of the compute graph\<close>

text \<open>
  \<open>polars-stream/src/execute.rs\<close> and \<open>polars-stream/src/pipe.rs\<close>: which part of the graph
  a phase of the execution runs, and the order in which its nodes are started.

  The part of \<open>spawn\<close> that is modelled for every node is which of the ports it was given
  it takes, and whether it uses them serially or in parallel; the tasks themselves are
  not. A physical pipe carries the number of pipelines where the code does. Indexing by a key
  that is not there panics; the scans that only read the graph are total, since
  every key in a well-formed graph is valid. The iteration order of the hash set of nodes is a parameter
  of \<open>run_subgraph\<close>. The stacks \<open>nodes\<close> and \<open>ready\<close> have their tops at the head. The result of
  \<open>run_subgraph\<close> lists the nodes in the order in which they were started.
\<close>

subsection \<open>Physical pipes\<close>

datatype physical_pipe =
    Uninit nat | SerialReceiver nat | ParallelReceiver nat
  | NeedsLinearizer nat | NeedsDistributor nat | Initialized

datatype port_mode = Serial | Parallel

definition recv_port_ok :: "physical_pipe \<Rightarrow> bool" where
  "recv_port_ok p = (case p of Uninit _ \<Rightarrow> True | _ \<Rightarrow> False)"

definition send_port_ok :: "physical_pipe \<Rightarrow> bool" where
  "send_port_ok p = (case p of SerialReceiver _ \<Rightarrow> True | ParallelReceiver _ \<Rightarrow> True | _ \<Rightarrow> False)"

fun recv_take :: "port_mode \<Rightarrow> physical_pipe \<Rightarrow> physical_pipe res" where
  "recv_take Serial (Uninit n) = Inr (SerialReceiver n)"
| "recv_take Parallel (Uninit n) = Inr (ParallelReceiver n)"
| "recv_take _ _ = Inl Panic"

fun send_take :: "port_mode \<Rightarrow> physical_pipe \<Rightarrow> physical_pipe res" where
  "send_take Serial (SerialReceiver n) = Inr Initialized"
| "send_take Serial (ParallelReceiver n) = Inr (NeedsDistributor n)"
| "send_take Parallel (SerialReceiver n) = Inr (NeedsLinearizer n)"
| "send_take Parallel (ParallelReceiver n) = Inr Initialized"
| "send_take _ _ = Inl Panic"

fun pipe_spawn :: "physical_pipe \<Rightarrow> physical_pipe res" where
  "pipe_spawn (NeedsLinearizer n) = Inr Initialized"
| "pipe_spawn (NeedsDistributor n) = Inr Initialized"
| "pipe_spawn Initialized = Inr Initialized"
| "pipe_spawn _ = Inl Panic"

subsection \<open>The ports a node takes when it is started\<close>

type_synonym port_modes = "port_mode option list \<times> port_mode option list"

definition take_both :: "port_mode \<Rightarrow> bool list \<Rightarrow> bool list \<Rightarrow> port_modes res" where
  "take_both m recv send =
     assert_that (length recv = 1 \<and> length send = 1)
       (assert_that (recv ! 0) (assert_that (send ! 0) (Inr ([Some m], [Some m]))))"

definition sink_ports :: "bool list \<Rightarrow> bool list \<Rightarrow> port_modes res" where
  "sink_ports recv send =
     assert_that (length recv = 1 \<and> send = []) (assert_that (recv ! 0) (Inr ([Some Parallel], [])))"

definition source_ports :: "source_node \<Rightarrow> bool list \<Rightarrow> bool list \<Rightarrow> port_modes res" where
  "source_ports c recv send =
     assert_that (recv = [] \<and> length send = 1) (assert_that (send ! 0)
       (assert_that (src_height c \<noteq> None) (Inr ([], [Some Parallel]))))"

definition in_memory_map_spawn :: "map_node \<Rightarrow> bool list \<Rightarrow> bool list \<Rightarrow> port_modes res" where
  "in_memory_map_spawn c recv send =
     (case c of
        MapSink _ _ \<Rightarrow> rbind (sink_ports recv []) (\<lambda>(r, _). Inr (r, map (\<lambda>_. None) send))
      | MapSource src \<Rightarrow> rbind (source_ports src [] send) (\<lambda>(_, s). Inr (map (\<lambda>_. None) recv, s))
      | MapDone \<Rightarrow> Inl Panic)"

definition reduce_spawn :: "reduce_state \<Rightarrow> bool list \<Rightarrow> bool list \<Rightarrow> port_modes res" where
  "reduce_spawn c recv send =
     assert_that (length send = 1 \<and> length recv = 1)
       (case c of
          ReduceSink _ \<Rightarrow> assert_that (\<not> send ! 0) (assert_that (recv ! 0) (Inr ([Some Parallel], [None])))
        | ReduceSource _ \<Rightarrow> assert_that (\<not> recv ! 0) (assert_that (send ! 0) (Inr ([None], [Some Serial])))
        | ReduceDone \<Rightarrow> Inl Panic)"

definition ordered_union_spawn :: "union_node \<Rightarrow> bool list \<Rightarrow> bool list \<Rightarrow> port_modes res" where
  "ordered_union_spawn c recv send =
     assert_that (length (filter id recv) = 1 \<and> length send = 1)
       (assert_that (cur_input_idx c < length recv) (assert_that (recv ! cur_input_idx c)
         (assert_that (send ! 0)
           (Inr ((map (\<lambda>_. None) recv)[cur_input_idx c := Some Parallel], [Some Parallel])))))"

definition multiplexer_spawn :: "buffered_stream list \<Rightarrow> bool list \<Rightarrow> bool list \<Rightarrow> port_modes res" where
  "multiplexer_spawn c recv send =
     assert_that (length recv = 1 \<and> send \<noteq> []) (assert_that (length c = length send)
       (Inr (map (\<lambda>r. if r then Some Serial else None) recv,
             map2 (\<lambda>b s. if b \<noteq> Closed \<and> s then Some Serial else None) c send)))"

definition zip_spawn :: "bool list \<Rightarrow> bool list \<Rightarrow> port_modes res" where
  "zip_spawn recv send =
     assert_that (length send = 1) (assert_that (recv \<noteq> []) (assert_that (send ! 0)
       (Inr (map (\<lambda>r. if r then Some Serial else None) recv, [Some Serial]))))"

fun node_spawn :: "node_kind \<Rightarrow> bool list \<Rightarrow> bool list \<Rightarrow> port_modes res" where
  "node_spawn FilterNode recv send = take_both Parallel recv send"
| "node_spawn MapNode recv send = take_both Parallel recv send"
| "node_spawn SelectNode recv send = take_both Parallel recv send"
| "node_spawn SimpleProjectionNode recv send = take_both Parallel recv send"
| "node_spawn (StreamingSliceNode _) recv send = take_both Serial recv send"
| "node_spawn InMemorySinkNode recv send = sink_ports recv send"
| "node_spawn (InMemorySourceNode c) recv send = source_ports c recv send"
| "node_spawn (InMemoryMapNode c) recv send = in_memory_map_spawn c recv send"
| "node_spawn (ReduceNode c) recv send = reduce_spawn c recv send"
| "node_spawn (OrderedUnionNode c) recv send = ordered_union_spawn c recv send"
| "node_spawn (MultiplexerNode c) recv send = multiplexer_spawn c recv send"
| "node_spawn (ZipNode _) recv send = zip_spawn recv send"

fun is_memory_intensive_pipeline_blocker :: "node_kind \<Rightarrow> bool" where
  "is_memory_intensive_pipeline_blocker InMemorySinkNode = True"
| "is_memory_intensive_pipeline_blocker (InMemoryMapNode (MapSink _ _)) = True"
| "is_memory_intensive_pipeline_blocker _ = False"

subsection \<open>Finding a runnable subgraph\<close>

definition pipe_ready :: "'c graph \<Rightarrow> nat \<Rightarrow> bool" where
  "pipe_ready g i \<longleftrightarrow> send_state (pipes g ! i) = Ready \<and> recv_state (pipes g ! i) = Ready"

definition find_runnable_pipeline_blockers :: "'c graph \<Rightarrow> nat list" where
  "find_runnable_pipeline_blockers g =
     filter (\<lambda>k. list_all (\<lambda>i. send_state (pipes g ! i) = Blocked) (outputs (nodes g ! k))
                 \<and> list_ex (pipe_ready g) (inputs (nodes g ! k)))
       [0..<length (nodes g)]"

record expansion =
  in_subgraph :: "nat set"
  sub_pipes :: "nat list"
  to_expand :: "nat list"

fun expand_inputs :: "'c graph \<Rightarrow> nat list \<Rightarrow> expansion \<Rightarrow> expansion res" where
  "expand_inputs g [] e = Inr e"
| "expand_inputs g (i # is) e =
     assert_that (i < length (pipes g))
       (if pipe_ready g i then
          let s = sender (pipes g ! i);
              e1 = e\<lparr>sub_pipes := sub_pipes e @ [i]\<rparr>
          in expand_inputs g is
               (if s \<in> in_subgraph e then e1
                else e1\<lparr>in_subgraph := insert s (in_subgraph e), to_expand := s # to_expand e\<rparr>)
        else expand_inputs g is e)"

definition unseen :: "'c graph \<Rightarrow> expansion \<Rightarrow> nat" where
  "unseen g e = card (sender ` set (pipes g) - in_subgraph e)"

lemma expand_inputs_unseen:
  "expand_inputs g is e = Inr e' \<Longrightarrow>
     unseen g e' < unseen g e \<or> (unseen g e' = unseen g e \<and> to_expand e' = to_expand e)"
proof (induction "is" arbitrary: e)
  case (Cons i "is")
  let ?s = "sender (pipes g ! i)"
  have i: "i < length (pipes g)"
    using Cons.prems by simp
  show ?case
  proof (cases "pipe_ready g i \<and> ?s \<notin> in_subgraph e")
    case True
    let ?e = "e\<lparr>sub_pipes := sub_pipes e @ [i], in_subgraph := insert ?s (in_subgraph e), to_expand := ?s # to_expand e\<rparr>"
    have "sender ` set (pipes g) - in_subgraph ?e \<subset> sender ` set (pipes g) - in_subgraph e"
      using i True by auto
    then have "unseen g ?e < unseen g e"
      unfolding unseen_def by (intro psubset_card_mono) auto
    then show ?thesis
      using Cons.IH [of ?e] Cons.prems True by (auto simp: Let_def)
  next
    case False
    then show ?thesis
      using Cons.prems Cons.IH [of e] Cons.IH [of "e\<lparr>sub_pipes := sub_pipes e @ [i]\<rparr>"]
      by (auto simp: Let_def unseen_def split: if_splits)
  qed
qed simp

function expand_loop :: "'c graph \<Rightarrow> expansion \<Rightarrow> expansion res" where
  "expand_loop g e =
     (case to_expand e of
        [] \<Rightarrow> Inr e
      | k # rest \<Rightarrow>
          assert_that (k < length (nodes g))
            (case expand_inputs g (inputs (nodes g ! k)) (e\<lparr>to_expand := rest\<rparr>) of
               Inl err \<Rightarrow> Inl err
             | Inr e' \<Rightarrow> expand_loop g e'))"
  by pat_completeness auto

termination
proof (relation "measures [\<lambda>(g, e). unseen g e, \<lambda>(g, e). length (to_expand e)]")
  fix g :: "'c graph" and e e' k rest
  assume "to_expand e = k # rest" "expand_inputs g (inputs (nodes g ! k)) (e\<lparr>to_expand := rest\<rparr>) = Inr e'"
  then show "((g, e'), (g, e)) \<in> measures [\<lambda>(g, e). unseen g e, \<lambda>(g, e). length (to_expand e)]"
    using expand_inputs_unseen [of g "inputs (nodes g ! k)" "e\<lparr>to_expand := rest\<rparr>" e']
    by (auto simp: unseen_def)
qed simp

declare expand_loop.simps [simp del]

definition expand_ready_subgraph :: "'c graph \<Rightarrow> nat list \<Rightarrow> (nat set \<times> nat list) res" where
  "expand_ready_subgraph g ns =
     rbind (expand_loop g \<lparr>in_subgraph = set ns, sub_pipes = [], to_expand = rev ns\<rparr>)
       (\<lambda>e. Inr (in_subgraph e, sub_pipes e))"

definition outputs_ready_to_receive :: "'c graph \<Rightarrow> nat \<Rightarrow> nat" where
  "outputs_ready_to_receive g k =
     length (filter (\<lambda>i. recv_state (pipes g ! i) = Ready) (outputs (nodes g ! k)))"

definition blockers_to_run :: "node_kind graph \<Rightarrow> nat list" where
  "blockers_to_run g =
     (let blockers = find_runnable_pipeline_blockers g;
          intensive = (\<lambda>k. is_memory_intensive_pipeline_blocker (compute (nodes g ! k)));
          expensive = sort_key (outputs_ready_to_receive g) (filter intensive blockers);
          cheap = filter (\<lambda>k. \<not> intensive k) blockers
      in if expensive = [] then cheap else cheap @ [last expensive])"

definition find_runnable_subgraph :: "node_kind graph \<Rightarrow> (nat set \<times> nat list) res" where
  "find_runnable_subgraph g = expand_ready_subgraph g (blockers_to_run g)"

subsection \<open>The subgraph is the part that feeds the chosen nodes\<close>

definition ready_inputs :: "'c graph \<Rightarrow> nat \<Rightarrow> nat list" where
  "ready_inputs g k = filter (pipe_ready g) (inputs (nodes g ! k))"

definition feeds :: "'c graph \<Rightarrow> (nat \<times> nat) set" where
  "feeds g = {(k, sender (pipes g ! i)) | k i. i \<in> set (ready_inputs g k)}"

lemma expand_inputs_exact:
  assumes "\<forall>i \<in> set is. i < length (pipes g)"
  shows "\<exists>e' new. expand_inputs g is e = Inr e' \<and> in_subgraph e' = in_subgraph e \<union> set new
      \<and> sub_pipes e' = sub_pipes e @ filter (pipe_ready g) is \<and> to_expand e' = new @ to_expand e
      \<and> distinct new \<and> set new = (\<lambda>i. sender (pipes g ! i)) ` set (filter (pipe_ready g) is) - in_subgraph e"
  using assms
proof (induction "is" arbitrary: e)
  case Nil
  then show ?case
    by simp
next
  case (Cons i "is")
  let ?s = "sender (pipes g ! i)"
  define e1 where "e1 = (if pipe_ready g i
     then if ?s \<in> in_subgraph e then e\<lparr>sub_pipes := sub_pipes e @ [i]\<rparr>
          else e\<lparr>sub_pipes := sub_pipes e @ [i], in_subgraph := insert ?s (in_subgraph e), to_expand := ?s # to_expand e\<rparr>
     else e)"
  obtain e' new where new: "expand_inputs g is e1 = Inr e'" "in_subgraph e' = in_subgraph e1 \<union> set new"
      "sub_pipes e' = sub_pipes e1 @ filter (pipe_ready g) is" "to_expand e' = new @ to_expand e1"
      "distinct new" "set new = (\<lambda>i. sender (pipes g ! i)) ` set (filter (pipe_ready g) is) - in_subgraph e1"
    using Cons.IH [of e1] Cons.prems by auto
  have "expand_inputs g (i # is) e = expand_inputs g is e1"
    using Cons.prems by (simp add: e1_def assert_that_def Let_def)
  then show ?case
    using new by (intro exI [of _ e'] exI [of _ "if pipe_ready g i \<and> ?s \<notin> in_subgraph e then new @ [?s] else new"])
      (auto simp: e1_def)
qed

text \<open>What is known of the state of the expansion of the nodes \<open>R\<close>.\<close>

definition expanding :: "'c graph \<Rightarrow> nat set \<Rightarrow> expansion \<Rightarrow> bool" where
  "expanding g R e \<longleftrightarrow>
     (let finished = in_subgraph e - set (to_expand e) in
      R \<subseteq> in_subgraph e \<and> in_subgraph e \<subseteq> (feeds g)\<^sup>* `` R \<and> in_subgraph e \<subseteq> {..<length (nodes g)}
      \<and> set (to_expand e) \<subseteq> in_subgraph e \<and> distinct (to_expand e)
      \<and> set (sub_pipes e) = (\<Union>k \<in> finished. set (ready_inputs g k)) \<and> distinct (sub_pipes e)
      \<and> feeds g `` finished \<subseteq> in_subgraph e)"

lemma expanding_step:
  assumes wf: "wf_graph g" and inv: "expanding g R e" and e: "to_expand e = k # rest"
  shows "\<exists>e'. expand_inputs g (inputs (nodes g ! k)) (e\<lparr>to_expand := rest\<rparr>) = Inr e' \<and> expanding g R e'"
proof -
  have k: "k < length (nodes g)" "k \<in> in_subgraph e" "k \<notin> set rest"
    using inv e by (auto simp: expanding_def Let_def)
  have "\<forall>i \<in> set (inputs (nodes g ! k)). i < length (pipes g)"
    using wf_input [OF wf k(1)] by blast
  then obtain e' new where
    e': "expand_inputs g (inputs (nodes g ! k)) (e\<lparr>to_expand := rest\<rparr>) = Inr e'"
      "in_subgraph e' = in_subgraph e \<union> set new" "sub_pipes e' = sub_pipes e @ ready_inputs g k"
      "to_expand e' = new @ rest"
    and "distinct new" "set new = (\<lambda>i. sender (pipes g ! i)) ` set (ready_inputs g k) - in_subgraph e"
    using expand_inputs_exact [of "inputs (nodes g ! k)" g "e\<lparr>to_expand := rest\<rparr>"]
    unfolding ready_inputs_def by auto
  then have new: "distinct new" "set new = feeds g `` {k} - in_subgraph e"
    by (auto simp: feeds_def)
  have fin: "in_subgraph e' - set (to_expand e') = insert k (in_subgraph e - set (to_expand e))"
    using k e' new inv e by (auto simp: expanding_def Let_def)
  have "feeds g `` {k} \<subseteq> {..<length (nodes g)}"
    using wf_input [OF wf k(1)] wf_pipe(3) [OF wf] by (auto simp: feeds_def ready_inputs_def)
  moreover have "feeds g `` {k} \<subseteq> (feeds g)\<^sup>* `` R"
  proof -
    have "k \<in> (feeds g)\<^sup>* `` R"
      using inv k(2) unfolding expanding_def Let_def by blast
    then show ?thesis
      by (blast intro: rtrancl_into_rtrancl)
  qed
  moreover have "set (ready_inputs g k) \<inter> set (sub_pipes e) = {}"
  proof -
    have "receiver (pipes g ! i) = j" if "j < length (nodes g)" "i \<in> set (ready_inputs g j)" for i j
      using wf_input [OF wf that(1)] that(2) by (simp add: ready_inputs_def)
    moreover have "set (sub_pipes e) = (\<Union>j \<in> in_subgraph e - set (to_expand e). set (ready_inputs g j))"
      "in_subgraph e \<subseteq> {..<length (nodes g)}" "k \<in> set (to_expand e)"
      using inv e unfolding expanding_def Let_def by simp_all
    ultimately show ?thesis
      using k(1) by blast
  qed
  moreover have "distinct (ready_inputs g k)"
    using wf_distinct_ports(1) [OF wf k(1)] by (simp add: ready_inputs_def)
  ultimately have "expanding g R e'"
    using inv e e'(2-4) new k unfolding expanding_def fin Let_def by auto
  then show ?thesis
    using e'(1) by blast
qed

lemma expand_loop_exact:
  "wf_graph g \<Longrightarrow> expanding g R e \<Longrightarrow> \<exists>e'. expand_loop g e = Inr e' \<and> expanding g R e' \<and> to_expand e' = []"
proof (induction g e rule: expand_loop.induct)
  case (1 g e)
  show ?case
  proof (cases "to_expand e")
    case Nil
    then show ?thesis
      using 1 by (simp add: expand_loop.simps)
  next
    case (Cons k rest)
    then obtain e' where e': "expand_inputs g (inputs (nodes g ! k)) (e\<lparr>to_expand := rest\<rparr>) = Inr e'" "expanding g R e'"
      using expanding_step 1 by blast
    moreover have "k < length (nodes g)"
      using 1 Cons by (auto simp: expanding_def Let_def)
    ultimately show ?thesis
      using 1 Cons by (simp add: expand_loop.simps [of g e] assert_that_def)
  qed
qed

lemma expand_ready_subgraph_exact:
  assumes wf: "wf_graph g" and ns: "distinct ns" "set ns \<subseteq> {..<length (nodes g)}"
  shows "\<exists>P. expand_ready_subgraph g ns = Inr ((feeds g)\<^sup>* `` set ns, P) \<and> distinct P
      \<and> set P = (\<Union>k \<in> (feeds g)\<^sup>* `` set ns. set (ready_inputs g k))"
proof -
  have "expanding g (set ns) \<lparr>in_subgraph = set ns, sub_pipes = [], to_expand = rev ns\<rparr>"
    using ns by (auto simp: expanding_def)
  then obtain e where e: "expand_loop g \<lparr>in_subgraph = set ns, sub_pipes = [], to_expand = rev ns\<rparr> = Inr e"
      "expanding g (set ns) e" "to_expand e = []"
    using expand_loop_exact [OF wf] by blast
  then have inv: "set ns \<subseteq> in_subgraph e" "in_subgraph e \<subseteq> (feeds g)\<^sup>* `` set ns"
      "feeds g `` in_subgraph e \<subseteq> in_subgraph e" "distinct (sub_pipes e)"
      "set (sub_pipes e) = (\<Union>k \<in> in_subgraph e. set (ready_inputs g k))"
    unfolding expanding_def Let_def by simp_all
  have "(feeds g)\<^sup>* `` set ns \<subseteq> in_subgraph e"
    using Image_mono [OF subset_refl inv(1), of "(feeds g)\<^sup>*"] Image_closed_trancl [OF inv(3)] by simp
  then have "in_subgraph e = (feeds g)\<^sup>* `` set ns"
    using inv(2) by (rule equalityI [rotated])
  then show ?thesis
    using inv(4,5) e(1) by (simp add: expand_ready_subgraph_def)
qed

lemma blockers_to_run_props:
  shows "distinct (blockers_to_run g)"
    and "set (blockers_to_run g) \<subseteq> set (find_runnable_pipeline_blockers g)"
    and "k \<in> set (find_runnable_pipeline_blockers g) \<Longrightarrow>
      \<not> is_memory_intensive_pipeline_blocker (compute (nodes g ! k)) \<Longrightarrow> k \<in> set (blockers_to_run g)"
    and "blockers_to_run g = [] \<longleftrightarrow> find_runnable_pipeline_blockers g = []"
    and "length (filter (\<lambda>k. is_memory_intensive_pipeline_blocker (compute (nodes g ! k))) (blockers_to_run g)) \<le> 1"
proof -
  define I where "I = (\<lambda>k. is_memory_intensive_pipeline_blocker (compute (nodes g ! k)))"
  define b where "b = find_runnable_pipeline_blockers g"
  define x where "x = sort_key (outputs_ready_to_receive g) (filter I b)"
  have run: "blockers_to_run g = (if x = [] then filter (\<lambda>k. \<not> I k) b else filter (\<lambda>k. \<not> I k) b @ [last x])"
    by (simp add: blockers_to_run_def Let_def I_def b_def x_def)
  have x: "set x = set (filter I b)"
    by (simp add: x_def)
  then have e: "x = [] \<longleftrightarrow> filter I b = []"
    by (metis set_empty)
  have l: "x \<noteq> [] \<Longrightarrow> last x \<in> set b \<and> I (last x)"
    using last_in_set [of x] x by auto
  have b: "distinct b"
    by (simp add: b_def find_runnable_pipeline_blockers_def)
  show "distinct (blockers_to_run g)" "set (blockers_to_run g) \<subseteq> set (find_runnable_pipeline_blockers g)"
    using l b unfolding run b_def [symmetric] by auto
  show "k \<in> set (blockers_to_run g)" if "k \<in> set (find_runnable_pipeline_blockers g)"
      "\<not> is_memory_intensive_pipeline_blocker (compute (nodes g ! k))"
    using that unfolding run b_def [symmetric] by (simp add: I_def)
  show "blockers_to_run g = [] \<longleftrightarrow> find_runnable_pipeline_blockers g = []"
    unfolding run b_def [symmetric] using e by (auto simp: filter_empty_conv)
  show "length (filter (\<lambda>k. is_memory_intensive_pipeline_blocker (compute (nodes g ! k))) (blockers_to_run g)) \<le> 1"
    unfolding run I_def [symmetric] by simp
qed

end
