(* ===== verification/StreamRun.thy ===== *)
theory StreamRun
  imports StreamExec
begin

section \<open>Starting the nodes of a subgraph\<close>

text \<open>
  \<open>run_subgraph\<close> of \<open>polars-stream/src/execute.rs\<close> up to the point where it waits for the
  tasks: it makes the physical pipes, starts the nodes in a topological order, and then
  starts the pipes.

  A node may be started when the receivers of all its pipes in the subgraph have been. The code
  counts them down, and it counts every input of a started node, also those that are not part
  of the subgraph. This theory shows that this is right when no node has both a pipe that is
  part of the subgraph and another one that leads to a node of the subgraph without being part
  of it; \<open>StreamReach\<close> has a reachable graph with such a node, where the order in which
  the hash set lists the nodes decides whether the code panics.
\<close>

subsection \<open>The loop\<close>

record run_state =
  physical_pipes :: "nat \<Rightarrow> physical_pipe option"
  not_yet_ready :: "nat \<Rightarrow> nat option"
  ready_stack :: "nat list"
  node_refs :: "nat list"
  spawned :: "nat list"

fun take_ports ::
    "(port_mode \<Rightarrow> physical_pipe \<Rightarrow> physical_pipe res) \<Rightarrow> (nat \<times> port_mode option) list
      \<Rightarrow> (nat \<Rightarrow> physical_pipe option) \<Rightarrow> (nat \<Rightarrow> physical_pipe option) res" where
  "take_ports f [] phys = Inr phys"
| "take_ports f ((i, m) # xs) phys =
     (case (phys i, m) of
        (Some p, Some md) \<Rightarrow> rbind (f md p) (\<lambda>p'. take_ports f xs (phys(i \<mapsto> p')))
      | (Some p, None) \<Rightarrow> Inl Panic
      | (None, _) \<Rightarrow> take_ports f xs phys)"

fun release_senders :: "'c graph \<Rightarrow> nat list \<Rightarrow> run_state \<Rightarrow> run_state" where
  "release_senders g [] st = st"
| "release_senders g (i # is) st =
     (let s = sender (pipes g ! i) in
      release_senders g is
        (case not_yet_ready st s of
           None \<Rightarrow> st
         | Some n \<Rightarrow>
             if 0 < n
             then st\<lparr>not_yet_ready := (not_yet_ready st)(s \<mapsto> n - 1),
                     ready_stack := (if n = 1 then s # ready_stack st else ready_stack st)\<rparr>
             else st))"

definition ports_given :: "(nat \<Rightarrow> physical_pipe option) \<Rightarrow> (physical_pipe \<Rightarrow> bool) \<Rightarrow> nat list \<Rightarrow> bool list res" where
  "ports_given phys ok is =
     assert_that (list_all (\<lambda>i. case phys i of None \<Rightarrow> True | Some p \<Rightarrow> ok p) is)
       (Inr (map (\<lambda>i. phys i \<noteq> None) is))"

definition spawn_node :: "node_kind graph \<Rightarrow> nat \<Rightarrow> run_state \<Rightarrow> run_state res" where
  "spawn_node g k st =
     assert_that (k \<in> set (node_refs st))
       (let node = nodes g ! k; phys = physical_pipes st in
        rbind (ports_given phys recv_port_ok (inputs node)) (\<lambda>recv.
        rbind (ports_given phys send_port_ok (outputs node)) (\<lambda>send.
        rbind (node_spawn (compute node) recv send) (\<lambda>(rm, sm).
        rbind (take_ports recv_take (zip (inputs node) rm) phys) (\<lambda>phys1.
        rbind (take_ports send_take (zip (outputs node) sm) phys1) (\<lambda>phys2.
          Inr (release_senders g (inputs node)
                 (st\<lparr>physical_pipes := phys2, node_refs := remove1 k (node_refs st),
                     spawned := spawned st @ [k]\<rparr>))))))))"

lemma release_senders_simps [simp]:
  "physical_pipes (release_senders g is st) = physical_pipes st"
  "node_refs (release_senders g is st) = node_refs st"
  "spawned (release_senders g is st) = spawned st"
  by (induction "is" arbitrary: st) (simp_all add: Let_def split: option.split)

lemma spawn_node_refs:
  assumes "spawn_node g k st = Inr st'"
  shows "length (node_refs st') < length (node_refs st)"
proof -
  have "k \<in> set (node_refs st)" "node_refs st' = remove1 k (node_refs st)"
    using assms by (auto simp: spawn_node_def Let_def rbind_eq_Inr_iff)
  then show ?thesis
    using length_pos_if_in_set [of k "node_refs st"] by (simp add: length_remove1)
qed

function spawn_loop :: "node_kind graph \<Rightarrow> run_state \<Rightarrow> run_state res" where
  "spawn_loop g st =
     (case ready_stack st of
        [] \<Rightarrow> Inr st
      | k # rest \<Rightarrow>
          (case spawn_node g k (st\<lparr>ready_stack := rest\<rparr>) of
             Inl err \<Rightarrow> Inl err
           | Inr st' \<Rightarrow> spawn_loop g st'))"
  by pat_completeness auto

termination
  by (relation "measure (\<lambda>(g, st). length (node_refs st))") (auto dest: spawn_node_refs)

declare spawn_loop.simps [simp del]

definition outputs_in_subgraph :: "'c graph \<Rightarrow> nat list \<Rightarrow> nat \<Rightarrow> nat" where
  "outputs_in_subgraph g ps k = length (filter (\<lambda>i. i \<in> set ps) (outputs (nodes g ! k)))"

definition run_subgraph :: "node_kind graph \<Rightarrow> nat list \<Rightarrow> nat list \<Rightarrow> nat \<Rightarrow> nat list res" where
  "run_subgraph g ns ps num_pipelines =
     (let st0 = \<lparr>physical_pipes = (\<lambda>i. if i \<in> set ps then Some (Uninit num_pipelines) else None),
                 not_yet_ready = (\<lambda>k. if k \<in> set ns then Some (outputs_in_subgraph g ps k) else None),
                 ready_stack = rev (filter (\<lambda>k. outputs_in_subgraph g ps k = 0) ns),
                 node_refs = [0..<length (nodes g)], spawned = []\<rparr>
      in rbind (spawn_loop g st0) (\<lambda>st.
           rbind (rmap (\<lambda>i. case physical_pipes st i of None \<Rightarrow> Inr Initialized | Some p \<Rightarrow> pipe_spawn p) ps) (\<lambda>_.
             Inr (spawned st))))"

subsection \<open>What the parts of an iteration do\<close>

definition from_sender :: "'c graph \<Rightarrow> nat list \<Rightarrow> nat \<Rightarrow> nat" where
  "from_sender g is s = length (filter (\<lambda>i. sender (pipes g ! i) = s) is)"

lemma release_senders_counts:
  "not_yet_ready (release_senders g is st) s = map_option (\<lambda>n. n - from_sender g is s) (not_yet_ready st s)"
proof (induction "is" arbitrary: st)
  case Nil
  then show ?case
    by (simp add: from_sender_def option.map_ident)
next
  case (Cons i "is")
  then show ?case
    by (cases "not_yet_ready st (sender (pipes g ! i))"; cases "not_yet_ready st s")
      (auto simp: Let_def from_sender_def)
qed

lemma release_senders_ready:
  "\<exists>new. ready_stack (release_senders g is st) = new @ ready_stack st \<and> distinct new
     \<and> set new = {s. \<exists>n. not_yet_ready st s = Some n \<and> 0 < n \<and> n \<le> from_sender g is s}"
proof (induction "is" arbitrary: st)
  case Nil
  then show ?case
    by (auto simp: from_sender_def)
next
  case (Cons i "is")
  let ?s = "sender (pipes g ! i)"
  have occ: "from_sender g (i # is) s = (if s = ?s then Suc (from_sender g is s) else from_sender g is s)" for s
    by (simp add: from_sender_def)
  show ?case
  proof (cases "\<exists>n. not_yet_ready st ?s = Some n \<and> 0 < n")
    case False
    then have "release_senders g (i # is) st = release_senders g is st"
      by (auto simp: Let_def split: option.split)
    then show ?thesis
      using Cons.IH [of st] False occ by (auto split: if_splits)
  next
    case True
    then obtain n where n: "not_yet_ready st ?s = Some n" "0 < n"
      by blast
    define st1 where "st1 = st\<lparr>not_yet_ready := (not_yet_ready st)(?s \<mapsto> n - 1),
        ready_stack := (if n = 1 then ?s # ready_stack st else ready_stack st)\<rparr>"
    obtain new where new: "ready_stack (release_senders g is st1) = new @ ready_stack st1" "distinct new"
        "set new = {s. \<exists>n. not_yet_ready st1 s = Some n \<and> 0 < n \<and> n \<le> from_sender g is s}"
      using Cons.IH [of st1] by blast
    have "release_senders g (i # is) st = release_senders g is st1"
      using n by (simp add: st1_def Let_def)
    then show ?thesis
      using new n occ by (intro exI [of _ "if n = 1 then new @ [?s] else new"]) (auto simp: st1_def)
  qed
qed

lemma take_ports_exact:
  assumes "length ms = length is" and "distinct is"
    and "\<And>j p. j < length is \<Longrightarrow> phys (is ! j) = Some p \<Longrightarrow> \<exists>m q. ms ! j = Some m \<and> f m p = Inr q \<and> ok q"
  shows "\<exists>phys'. take_ports f (zip is ms) phys = Inr phys'
      \<and> (\<forall>i. if i \<in> set is \<and> phys i \<noteq> None then \<exists>q. phys' i = Some q \<and> ok q else phys' i = phys i)"
  using assms
proof (induction ms "is" arbitrary: phys rule: list_induct2)
  case Nil
  then show ?case
    by simp
next
  case (Cons m ms i "is")
  show ?case
  proof (cases "phys i")
    case None
    then show ?thesis
      using Cons.IH [of phys] Cons.prems by (fastforce simp: nth_Cons split: nat.splits)
  next
    case (Some p)
    then obtain md q where q: "m = Some md" "f md p = Inr q" "ok q"
      using Cons.prems(2) [of 0 p] by auto
    have i: "i \<notin> set is" "distinct is"
      using Cons.prems(1) by simp_all
    define phys1 where "phys1 = phys(i \<mapsto> q)"
    have "\<exists>m q. ms ! j = Some m \<and> f m p' = Inr q \<and> ok q" if "j < length is" "phys1 (is ! j) = Some p'" for j p'
      using i(1) Cons.prems(2) [of "Suc j" p'] that by (auto simp: phys1_def split: if_splits)
    then obtain phys' where "take_ports f (zip is ms) phys1 = Inr phys'"
        and p': "\<forall>j. if j \<in> set is \<and> phys1 j \<noteq> None then \<exists>q. phys' j = Some q \<and> ok q else phys' j = phys1 j"
      using Cons.IH [OF i(2), of phys1] by blast
    moreover have "if j \<in> set (i # is) \<and> phys j \<noteq> None then \<exists>q. phys' j = Some q \<and> ok q else phys' j = phys j" for j
      using spec [OF p', of j] i(1) q(3) Some by (auto simp: phys1_def split: if_splits)
    ultimately show ?thesis
      using q Some by (simp add: phys1_def)
  qed
qed

lemma recv_take_ok: "\<forall>m p. recv_port_ok p \<longrightarrow> (\<exists>q. recv_take m p = Inr q \<and> send_port_ok q)"
  by (intro allI, case_tac m; case_tac p) (simp_all add: recv_port_ok_def send_port_ok_def)

lemma send_take_ok: "\<forall>m p. send_port_ok p \<longrightarrow> (\<exists>q. send_take m p = Inr q \<and> pipe_spawn q = Inr Initialized)"
  by (intro allI, case_tac m; case_tac p) (simp_all add: send_port_ok_def)

subsection \<open>The order of the starts\<close>

text \<open>
  A node takes exactly the ports it is given, when it is started in the subgraph with the
  pipes \<open>ps\<close>; and a subgraph can be started when all its nodes do and it contains, with a
  pipe, every pipe from the same sender to one of its nodes.
\<close>

definition ports_taken :: "node_kind graph \<Rightarrow> nat list \<Rightarrow> nat \<Rightarrow> bool" where
  "ports_taken g ps k \<longleftrightarrow>
     (case node_spawn (compute (nodes g ! k)) (map (\<lambda>i. i \<in> set ps) (inputs (nodes g ! k)))
             (map (\<lambda>i. i \<in> set ps) (outputs (nodes g ! k))) of
        Inl _ \<Rightarrow> False
      | Inr (rm, sm) \<Rightarrow>
          list_all2 (\<lambda>i m. i \<in> set ps \<longrightarrow> m \<noteq> None) (inputs (nodes g ! k)) rm
          \<and> list_all2 (\<lambda>i m. i \<in> set ps \<longrightarrow> m \<noteq> None) (outputs (nodes g ! k)) sm)"

definition subgraph_pipes :: "'c graph \<Rightarrow> nat set \<Rightarrow> nat set" where
  "subgraph_pipes g N = {i. i < length (pipes g) \<and> sender (pipes g ! i) \<in> N \<and> receiver (pipes g ! i) \<in> N}"

definition startable :: "node_kind graph \<Rightarrow> nat list \<Rightarrow> nat list \<Rightarrow> bool" where
  "startable g ns ps \<longleftrightarrow>
     wf_graph g \<and> distinct ns \<and> set ns \<subseteq> {..<length (nodes g)}
     \<and> set ps \<subseteq> subgraph_pipes g (set ns)
     \<and> (\<forall>i \<in> set ps. \<forall>j \<in> subgraph_pipes g (set ns). sender (pipes g ! j) = sender (pipes g ! i) \<longrightarrow> j \<in> set ps)
     \<and> (\<forall>k \<in> set ns. ports_taken g ps k)"

definition waiting :: "'c graph \<Rightarrow> nat list \<Rightarrow> nat set \<Rightarrow> nat \<Rightarrow> nat set" where
  "waiting g ps S k = {i \<in> set ps. sender (pipes g ! i) = k \<and> receiver (pipes g ! i) \<notin> S}"

definition pipe_phase :: "'c graph \<Rightarrow> nat set \<Rightarrow> nat \<Rightarrow> physical_pipe \<Rightarrow> bool" where
  "pipe_phase g S i p \<longleftrightarrow>
     (if receiver (pipes g ! i) \<notin> S then recv_port_ok p
      else if sender (pipes g ! i) \<notin> S then send_port_ok p
      else pipe_spawn p = Inr Initialized)"

definition pipes_at :: "'c graph \<Rightarrow> nat list \<Rightarrow> nat set \<Rightarrow> (nat \<Rightarrow> physical_pipe option) \<Rightarrow> bool" where
  "pipes_at g ps S phys \<longleftrightarrow>
     (\<forall>i. case phys i of None \<Rightarrow> i \<notin> set ps | Some p \<Rightarrow> i \<in> set ps \<and> pipe_phase g S i p)"

definition starting :: "node_kind graph \<Rightarrow> nat list \<Rightarrow> nat list \<Rightarrow> run_state \<Rightarrow> bool" where
  "starting g ns ps st \<longleftrightarrow>
     distinct (spawned st) \<and> set (spawned st) \<subseteq> set ns
     \<and> set (node_refs st) = {..<length (nodes g)} - set (spawned st) \<and> distinct (node_refs st)
     \<and> pipes_at g ps (set (spawned st)) (physical_pipes st)
     \<and> (\<forall>k. not_yet_ready st k =
              (if k \<in> set ns then Some (card (waiting g ps (set (spawned st)) k)) else None))
     \<and> distinct (ready_stack st)
     \<and> set (ready_stack st) = {k \<in> set ns - set (spawned st). waiting g ps (set (spawned st)) k = {}}
     \<and> (\<forall>i \<in> set ps. \<forall>xs ys. spawned st = xs @ sender (pipes g ! i) # ys \<longrightarrow> receiver (pipes g ! i) \<in> set xs)"

lemma startable_pipe:
  assumes "startable g ns ps" and "i \<in> set ps"
  shows "i < length (pipes g)" "sender (pipes g ! i) \<in> set ns" "receiver (pipes g ! i) \<in> set ns"
    "sender (pipes g ! i) < receiver (pipes g ! i)"
  using assms wf_pipe(1) [of g i] by (auto simp: startable_def subgraph_pipes_def)

lemma waiting_insert:
  assumes g: "startable g ns ps" and k: "k \<in> set ns" "k \<notin> S" and s: "s \<in> set ns"
  shows "card (waiting g ps (insert k S) s) = card (waiting g ps S s) - from_sender g (inputs (nodes g ! k)) s"
proof (cases "\<exists>i \<in> set ps. sender (pipes g ! i) = s")
  case True
  then obtain i where i: "i \<in> set ps" "sender (pipes g ! i) = s" by blast
  have wf: "wf_graph g" "k < length (nodes g)"
    and all: "\<And>j. j \<in> subgraph_pipes g (set ns) \<Longrightarrow> sender (pipes g ! j) = s \<Longrightarrow> j \<in> set ps"
    using g k i by (auto simp: startable_def)
  let ?B = "{i \<in> set (inputs (nodes g ! k)). sender (pipes g ! i) = s}"
  have "waiting g ps (insert k S) s = waiting g ps S s - ?B"
    using wf_input [OF wf] startable_pipe(1) [OF g] by (auto simp: waiting_def)
  moreover have "?B \<subseteq> waiting g ps S s"
    using wf_input [OF wf] k s all by (auto simp: waiting_def subgraph_pipes_def)
  moreover have "from_sender g (inputs (nodes g ! k)) s = card ?B"
    using wf_distinct_ports(1) [OF wf] distinct_card [OF distinct_filter, of "inputs (nodes g ! k)"]
    by (simp add: from_sender_def)
  ultimately show ?thesis
    by (simp add: card_Diff_subset)
next
  case False
  then have "waiting g ps T s = {}" for T by (auto simp: waiting_def)
  then show ?thesis by simp
qed

lemma waiting_finite [simp]: "finite (waiting g ps S k)"
  by (simp add: waiting_def)

lemma pipes_at_Some: "pipes_at g ps S phys \<Longrightarrow> phys i = Some p \<Longrightarrow> i \<in> set ps \<and> pipe_phase g S i p"
  unfolding pipes_at_def by (drule spec [of _ i]) simp

lemma pipes_at_None: "pipes_at g ps S phys \<Longrightarrow> phys i = None \<longleftrightarrow> i \<notin> set ps"
  unfolding pipes_at_def by (drule spec [of _ i]) (auto split: option.splits)

lemma ports_takenD:
  assumes "ports_taken g ps k"
  obtains rm sm where "node_spawn (compute (nodes g ! k)) (map (\<lambda>i. i \<in> set ps) (inputs (nodes g ! k)))
      (map (\<lambda>i. i \<in> set ps) (outputs (nodes g ! k))) = Inr (rm, sm)"
    "length rm = length (inputs (nodes g ! k))" "length sm = length (outputs (nodes g ! k))"
    "\<And>j. j < length (inputs (nodes g ! k)) \<Longrightarrow> inputs (nodes g ! k) ! j \<in> set ps \<Longrightarrow> rm ! j \<noteq> None"
    "\<And>j. j < length (outputs (nodes g ! k)) \<Longrightarrow> outputs (nodes g ! k) ! j \<in> set ps \<Longrightarrow> sm ! j \<noteq> None"
  using assms unfolding ports_taken_def
  by (auto split: sum.splits prod.splits simp: list_all2_conv_all_nth)

lemma take_ports_given:
  assumes len: "length ms = length is" and dist: "distinct is"
    and given: "\<forall>j < length is. phys (is ! j) \<noteq> None \<longrightarrow> ms ! j \<noteq> None"
    and before: "\<forall>i \<in> set is. \<forall>p. phys i = Some p \<longrightarrow> before p"
    and take: "\<forall>m p. before p \<longrightarrow> (\<exists>q. f m p = Inr q \<and> after q)"
  shows "ports_given phys before is = Inr (map (\<lambda>i. phys i \<noteq> None) is)"
    and "\<exists>phys'. take_ports f (zip is ms) phys = Inr phys'
      \<and> (\<forall>i. if i \<in> set is \<and> phys i \<noteq> None then \<exists>q. phys' i = Some q \<and> after q else phys' i = phys i)"
proof -
  show "ports_given phys before is = Inr (map (\<lambda>i. phys i \<noteq> None) is)"
    using before by (auto simp: ports_given_def list_all_iff split: option.split)
  have "\<exists>m q. ms ! j = Some m \<and> f m p = Inr q \<and> after q" if j: "j < length is" "phys (is ! j) = Some p" for j p
  proof -
    obtain m where "ms ! j = Some m"
      using given j by auto
    moreover have "before p"
      using before nth_mem [OF j(1)] j(2) by blast
    ultimately show ?thesis
      using take by simp
  qed
  then show "\<exists>phys'. take_ports f (zip is ms) phys = Inr phys'
      \<and> (\<forall>i. if i \<in> set is \<and> phys i \<noteq> None then \<exists>q. phys' i = Some q \<and> after q else phys' i = phys i)"
    by (rule take_ports_exact [OF len dist])
qed

lemma given_ports:
  assumes "pipes_at g ps S phys" and "\<forall>i \<in> set is. \<forall>p. phys i = Some p \<longrightarrow> ok p"
  shows "ports_given phys ok is = Inr (map (\<lambda>i. i \<in> set ps) is)"
  using assms(2) pipes_at_None [OF assms(1)] unfolding ports_given_def
  by (auto simp: list_all_iff split: option.split)

text \<open>The pipes of a node that may be started wait for it, and starting it moves them on.\<close>

lemma node_ports_ok:
  assumes g: "startable g ns ps" and k: "k \<in> set ns" "k \<notin> S" "waiting g ps S k = {}"
    and at: "pipes_at g ps S phys"
  shows "\<forall>i \<in> set (inputs (nodes g ! k)). \<forall>p. phys i = Some p \<longrightarrow> recv_port_ok p"
    and "\<forall>i \<in> set (outputs (nodes g ! k)). \<forall>p. phys i = Some p \<longrightarrow> send_port_ok p"
proof -
  have wf: "wf_graph g" "k < length (nodes g)"
    using g k(1) by (auto simp: startable_def)
  show "\<forall>i \<in> set (inputs (nodes g ! k)). \<forall>p. phys i = Some p \<longrightarrow> recv_port_ok p"
  proof (intro ballI allI impI)
    fix i p
    assume "i \<in> set (inputs (nodes g ! k))" "phys i = Some p"
    then show "recv_port_ok p"
      using pipes_at_Some [OF at, of i p] wf_input [OF wf, of i] k(2) by (simp add: pipe_phase_def)
  qed
  show "\<forall>i \<in> set (outputs (nodes g ! k)). \<forall>p. phys i = Some p \<longrightarrow> send_port_ok p"
  proof (intro ballI allI impI)
    fix i p
    assume i: "i \<in> set (outputs (nodes g ! k))" "phys i = Some p"
    then have "receiver (pipes g ! i) \<in> S" "sender (pipes g ! i) = k"
      using pipes_at_Some [OF at i(2)] wf_output [OF wf, of i] k(3) by (auto simp: waiting_def)
    then show "send_port_ok p"
      using pipes_at_Some [OF at i(2)] k(2) by (simp add: pipe_phase_def)
  qed
qed

lemma pipes_at_insert:
  assumes g: "startable g ns ps" and k: "k \<in> set ns" "k \<notin> S" "waiting g ps S k = {}"
    and closed: "\<forall>i \<in> set ps. sender (pipes g ! i) \<in> S \<longrightarrow> receiver (pipes g ! i) \<in> S"
    and at: "pipes_at g ps S phys"
    and p1: "\<forall>i. if i \<in> set (inputs (nodes g ! k)) \<and> phys i \<noteq> None
                 then \<exists>q. phys1 i = Some q \<and> send_port_ok q else phys1 i = phys i"
    and p2: "\<forall>i. if i \<in> set (outputs (nodes g ! k)) \<and> phys1 i \<noteq> None
                 then \<exists>q. phys2 i = Some q \<and> pipe_spawn q = Inr Initialized else phys2 i = phys1 i"
  shows "pipes_at g ps (insert k S) phys2"
  unfolding pipes_at_def
proof
  fix i
  have wf: "wf_graph g" "k < length (nodes g)"
    using g k(1) by (auto simp: startable_def)
  note i1 = spec [OF p1, of i] and i2 = spec [OF p2, of i]
  show "case phys2 i of None \<Rightarrow> i \<notin> set ps | Some p \<Rightarrow> i \<in> set ps \<and> pipe_phase g (insert k S) i p"
  proof (cases "phys i")
    case None
    then have "phys2 i = None"
      using i1 i2 by simp
    then show ?thesis
      using None pipes_at_None [OF at, of i] by simp
  next
    case (Some p)
    then have i: "i \<in> set ps" "pipe_phase g S i p"
      using pipes_at_Some [OF at] by blast+
    note pipe = startable_pipe [OF g i(1)]
    consider (recv) "receiver (pipes g ! i) = k" "sender (pipes g ! i) \<noteq> k"
      | (send) "sender (pipes g ! i) = k" "receiver (pipes g ! i) \<noteq> k" "receiver (pipes g ! i) \<in> S"
      | (other) "receiver (pipes g ! i) \<noteq> k" "sender (pipes g ! i) \<noteq> k"
      using pipe(4) k(3) i(1) by (auto simp: waiting_def)
    then show ?thesis
    proof cases
      case recv
      then obtain q where "phys2 i = Some q" "send_port_ok q"
        using Some i1 i2 pipe(1) wf_input [OF wf, of i] wf_output [OF wf, of i] by auto
      moreover have "sender (pipes g ! i) \<notin> S"
        using recv(1) k(2) closed i(1) by blast
      ultimately show ?thesis
        using recv i(1) by (simp add: pipe_phase_def)
    next
      case send
      then obtain q where "phys2 i = Some q" "pipe_spawn q = Inr Initialized"
        using Some i1 i2 pipe(1) wf_input [OF wf, of i] wf_output [OF wf, of i] by auto
      then show ?thesis
        using send i(1) by (simp add: pipe_phase_def)
    next
      case other
      then have "phys2 i = Some p"
        using Some i1 i2 wf_input [OF wf, of i] wf_output [OF wf, of i] by simp
      then show ?thesis
        using other i by (simp add: pipe_phase_def)
    qed
  qed
qed

lemma starting_ports:
  assumes g: "startable g ns ps" and k: "k \<in> set ns" "k \<notin> S" "waiting g ps S k = {}"
    and closed: "\<forall>i \<in> set ps. sender (pipes g ! i) \<in> S \<longrightarrow> receiver (pipes g ! i) \<in> S"
    and at: "pipes_at g ps S (physical_pipes st)" and ref: "k \<in> set (node_refs st)"
  shows "\<exists>phys. spawn_node g k st = Inr (release_senders g (inputs (nodes g ! k))
      (st\<lparr>physical_pipes := phys, node_refs := remove1 k (node_refs st), spawned := spawned st @ [k]\<rparr>))
    \<and> pipes_at g ps (insert k S) phys"
proof -
  let ?P = "physical_pipes st" and ?is = "inputs (nodes g ! k)" and ?os = "outputs (nodes g ! k)"
  have wf: "wf_graph g" "k < length (nodes g)" and taken: "ports_taken g ps k"
    using g k(1) by (auto simp: startable_def)
  obtain rm sm where sp: "node_spawn (compute (nodes g ! k)) (map (\<lambda>i. i \<in> set ps) ?is) (map (\<lambda>i. i \<in> set ps) ?os) = Inr (rm, sm)"
    and rm: "length rm = length ?is" "\<forall>j < length ?is. ?is ! j \<in> set ps \<longrightarrow> rm ! j \<noteq> None"
    and sm: "length sm = length ?os" "\<forall>j < length ?os. ?os ! j \<in> set ps \<longrightarrow> sm ! j \<noteq> None"
    using ports_takenD [OF taken] by metis
  note ok = node_ports_ok [OF g k at]
  have "\<forall>j < length ?is. ?P (?is ! j) \<noteq> None \<longrightarrow> rm ! j \<noteq> None"
    using rm(2) pipes_at_None [OF at] by simp
  then obtain phys1 where p1: "take_ports recv_take (zip ?is rm) ?P = Inr phys1"
      "\<forall>i. if i \<in> set ?is \<and> ?P i \<noteq> None then \<exists>q. phys1 i = Some q \<and> send_port_ok q else phys1 i = ?P i"
    using take_ports_given [OF rm(1) wf_distinct_ports(1) [OF wf] _ ok(1) recv_take_ok] by blast
  have same: "phys1 i = ?P i" if "i \<in> set ?os" for i
    using spec [OF p1(2), of i] wf_input [OF wf, of i] wf_output [OF wf, of i] wf_pipe(1) [OF wf(1), of i] that
    by auto
  have "\<forall>j < length ?os. phys1 (?os ! j) \<noteq> None \<longrightarrow> sm ! j \<noteq> None"
    and "\<forall>i \<in> set ?os. \<forall>p. phys1 i = Some p \<longrightarrow> send_port_ok p"
    using sm(2) pipes_at_None [OF at] same ok(2) by simp_all
  then obtain phys2 where p2: "take_ports send_take (zip ?os sm) phys1 = Inr phys2"
      "\<forall>i. if i \<in> set ?os \<and> phys1 i \<noteq> None then \<exists>q. phys2 i = Some q \<and> pipe_spawn q = Inr Initialized else phys2 i = phys1 i"
    using take_ports_given [OF sm(1) wf_distinct_ports(2) [OF wf] _ _ send_take_ok] by blast
  have "spawn_node g k st = Inr (release_senders g ?is
      (st\<lparr>physical_pipes := phys2, node_refs := remove1 k (node_refs st), spawned := spawned st @ [k]\<rparr>))"
    using ref given_ports [OF at ok(1)] given_ports [OF at ok(2)] sp p1(1) p2(1)
    by (simp add: spawn_node_def assert_that_def)
  then show ?thesis
    using pipes_at_insert [OF g k closed at p1(2) p2(2)] by blast
qed

lemma starting_closed:
  assumes "starting g ns ps st" and "i \<in> set ps" and "sender (pipes g ! i) \<in> set (spawned st)"
  shows "receiver (pipes g ! i) \<in> set (spawned st)"
proof -
  obtain xs ys where "spawned st = xs @ sender (pipes g ! i) # ys"
    using split_list [OF assms(3)] by blast
  moreover from this have "receiver (pipes g ! i) \<in> set xs"
    using assms(1,2) unfolding starting_def by blast
  ultimately show ?thesis
    by simp
qed

lemma released_nodes:
  assumes g: "startable g ns ps" and inv: "starting g ns ps st" and st: "ready_stack st = k # rest"
    and S: "S = set (spawned st)"
    and new: "set new = {s. \<exists>n. not_yet_ready st s = Some n \<and> 0 < n \<and> n \<le> from_sender g (inputs (nodes g ! k)) s}"
  shows "set new \<inter> set rest = {}"
    and "set (new @ rest) = {s \<in> set ns - insert k S. waiting g ps (insert k S) s = {}}"
proof -
  have k: "k \<in> set ns" "k \<notin> S" "waiting g ps S k = {}" "k \<notin> set rest"
    and rest: "insert k (set rest) = {s \<in> set ns - S. waiting g ps S s = {}}"
    using inv st by (auto simp: starting_def S)
  have count: "card (waiting g ps (insert k S) s) = card (waiting g ps S s) - from_sender g (inputs (nodes g ! k)) s"
    if "s \<in> set ns" for s
    using waiting_insert [OF g k(1,2) that] .
  have "s \<in> set new \<longleftrightarrow> s \<in> set ns \<and> 0 < card (waiting g ps S s) \<and> card (waiting g ps (insert k S) s) = 0" for s
    using inv count [of s] unfolding new starting_def by (auto simp: S)
  then have new': "set new = {s \<in> set ns. waiting g ps S s \<noteq> {} \<and> waiting g ps (insert k S) s = {}}"
    by (auto simp: card_gt_0_iff)
  show "set new \<inter> set rest = {}"
    using rest unfolding new' by blast
  have "waiting g ps S s = {}" if "s \<in> S" for s
    using starting_closed [OF inv] that by (auto simp: waiting_def S)
  moreover have "waiting g ps (insert k S) s \<subseteq> waiting g ps S s" for s
    by (auto simp: waiting_def)
  moreover have "set rest = {s \<in> set ns - S. waiting g ps S s = {}} - {k}"
    using rest k(4) by blast
  ultimately show "set (new @ rest) = {s \<in> set ns - insert k S. waiting g ps (insert k S) s = {}}"
    using k(3) unfolding set_append new' by blast
qed

lemma spawned_before:
  assumes "\<forall>xs ys. l = xs @ s # ys \<longrightarrow> r \<in> set xs" and "s = k \<Longrightarrow> r \<in> set l"
  shows "l @ [k] = xs @ s # ys \<Longrightarrow> r \<in> set xs"
  using assms by (cases ys rule: rev_cases) auto

lemma starting_step:
  assumes g: "startable g ns ps" and inv: "starting g ns ps st" and st: "ready_stack st = k # rest"
  shows "\<exists>st'. spawn_node g k (st\<lparr>ready_stack := rest\<rparr>) = Inr st' \<and> starting g ns ps st'"
proof -
  define S where "S = set (spawned st)"
  have k: "k \<in> set ns" "k \<notin> S" "waiting g ps S k = {}" "k \<in> set (node_refs st)"
    using inv st g by (auto simp: starting_def S_def startable_def)
  have closed: "\<forall>i \<in> set ps. sender (pipes g ! i) \<in> S \<longrightarrow> receiver (pipes g ! i) \<in> S"
    using starting_closed [OF inv] by (simp add: S_def)
  have at: "pipes_at g ps S (physical_pipes (st\<lparr>ready_stack := rest\<rparr>))"
    using inv by (simp add: starting_def S_def)
  define st0 where "st0 phys = st\<lparr>ready_stack := rest, physical_pipes := phys,
      node_refs := remove1 k (node_refs st), spawned := spawned st @ [k]\<rparr>" for phys
  obtain phys where sp: "spawn_node g k (st\<lparr>ready_stack := rest\<rparr>) =
        Inr (release_senders g (inputs (nodes g ! k)) (st0 phys))"
      and phys: "pipes_at g ps (insert k S) phys"
    using starting_ports [OF g k(1-3) closed at] k(4) by (auto simp: st0_def)
  obtain new where new: "ready_stack (release_senders g (inputs (nodes g ! k)) (st0 phys)) = new @ rest" "distinct new"
      "set new = {s. \<exists>n. not_yet_ready st s = Some n \<and> 0 < n \<and> n \<le> from_sender g (inputs (nodes g ! k)) s}"
    using release_senders_ready [of g "inputs (nodes g ! k)" "st0 phys"] by (auto simp: st0_def)
  note rel = released_nodes [OF g inv st S_def new(3)]
  have count: "not_yet_ready (release_senders g (inputs (nodes g ! k)) (st0 phys)) s =
      (if s \<in> set ns then Some (card (waiting g ps (insert k S) s)) else None)" for s
    using inv waiting_insert [OF g k(1,2), of s] by (simp add: release_senders_counts st0_def starting_def S_def)
  have "receiver (pipes g ! i) \<in> set xs"
    if i: "i \<in> set ps" and "spawned st @ [k] = xs @ sender (pipes g ! i) # ys" for i xs ys
  proof (rule spawned_before [OF _ _ that(2)])
    show "\<forall>xs ys. spawned st = xs @ sender (pipes g ! i) # ys \<longrightarrow> receiver (pipes g ! i) \<in> set xs"
      using inv i by (simp add: starting_def)
    show "receiver (pipes g ! i) \<in> set (spawned st)" if "sender (pipes g ! i) = k"
      using k(3) i that by (auto simp: waiting_def S_def)
  qed
  moreover have "set (remove1 k (node_refs st)) = {..<length (nodes g)} - insert k S" "distinct (remove1 k (node_refs st))"
    using inv by (auto simp: starting_def S_def)
  moreover have "distinct rest" "distinct (spawned st)" "S \<subseteq> set ns"
    using inv st by (simp_all add: starting_def S_def)
  ultimately have "starting g ns ps (release_senders g (inputs (nodes g ! k)) (st0 phys))"
    using count new(1,2) rel phys k(1,2) unfolding starting_def by (simp add: st0_def S_def)
  then show ?thesis
    using sp by blast
qed

lemma spawn_loop_returns:
  "startable g ns ps \<Longrightarrow> starting g ns ps st \<Longrightarrow>
     \<exists>st'. spawn_loop g st = Inr st' \<and> starting g ns ps st' \<and> ready_stack st' = []"
proof (induction g st rule: spawn_loop.induct)
  case (1 g st)
  show ?case
  proof (cases "ready_stack st")
    case Nil
    then show ?thesis
      using 1 by (simp add: spawn_loop.simps)
  next
    case (Cons k rest)
    then obtain st' where "spawn_node g k (st\<lparr>ready_stack := rest\<rparr>) = Inr st'" "starting g ns ps st'"
      using starting_step 1 by blast
    then show ?thesis
      using 1 Cons by (simp add: spawn_loop.simps [of g st])
  qed
qed

text \<open>When no node is ready, none is left: the last one in the order of the keys would be.\<close>

lemma starting_complete:
  assumes g: "startable g ns ps" and inv: "starting g ns ps st" and st: "ready_stack st = []"
  shows "set (spawned st) = set ns"
proof (rule ccontr)
  assume "set (spawned st) \<noteq> set ns"
  then have ne: "set ns - set (spawned st) \<noteq> {}"
    using inv by (auto simp: starting_def)
  define k where "k = Max (set ns - set (spawned st))"
  have k: "k \<in> set ns - set (spawned st)" "\<And>j. j \<in> set ns - set (spawned st) \<Longrightarrow> j \<le> k"
    using ne Max_in [OF _ ne] by (simp_all add: k_def)
  have "waiting g ps (set (spawned st)) k = {}"
    using startable_pipe [OF g] k(2) by (fastforce simp: waiting_def)
  then have "k \<in> set (ready_stack st)"
    using inv k(1) by (simp add: starting_def)
  then show False
    using st by simp
qed

lemma outputs_in_subgraph_waiting:
  assumes g: "startable g ns ps" and k: "k \<in> set ns"
  shows "outputs_in_subgraph g ps k = card (waiting g ps {} k)"
proof -
  have wf: "wf_graph g" "k < length (nodes g)"
    using g k by (auto simp: startable_def)
  have "set (filter (\<lambda>i. i \<in> set ps) (outputs (nodes g ! k))) = waiting g ps {} k"
    using wf_output [OF wf] startable_pipe(1) [OF g] by (auto simp: waiting_def)
  then show ?thesis
    using distinct_card [OF distinct_filter [OF wf_distinct_ports(2) [OF wf]], of "\<lambda>i. i \<in> set ps"]
    by (simp add: outputs_in_subgraph_def)
qed

lemma run_subgraph_starts:
  assumes g: "startable g ns ps"
  shows "\<exists>sp. run_subgraph g ns ps n = Inr sp \<and> distinct sp \<and> set sp = set ns
    \<and> (\<forall>i \<in> set ps. \<forall>xs ys. sp = xs @ sender (pipes g ! i) # ys \<longrightarrow> receiver (pipes g ! i) \<in> set xs)"
proof -
  define st0 where "st0 = \<lparr>physical_pipes = (\<lambda>i. if i \<in> set ps then Some (Uninit n) else None),
       not_yet_ready = (\<lambda>k. if k \<in> set ns then Some (outputs_in_subgraph g ps k) else None),
       ready_stack = rev (filter (\<lambda>k. outputs_in_subgraph g ps k = 0) ns),
       node_refs = [0..<length (nodes g)], spawned = []\<rparr>"
  have "starting g ns ps st0"
    using g outputs_in_subgraph_waiting [OF g]
    by (auto simp: starting_def startable_def st0_def pipes_at_def pipe_phase_def recv_port_ok_def atLeast0LessThan)
  then obtain st where st: "spawn_loop g st0 = Inr st" "starting g ns ps st" "ready_stack st = []"
    using spawn_loop_returns [OF g] by blast
  have all: "set (spawned st) = set ns"
    by (rule starting_complete [OF g st(2,3)])
  have "(case physical_pipes st i of None \<Rightarrow> Inr Initialized | Some p \<Rightarrow> pipe_spawn p) = Inr Initialized"
    if i: "i \<in> set ps" for i
  proof -
    have at: "pipes_at g ps (set ns) (physical_pipes st)"
      using st(2) all by (simp add: starting_def)
    obtain p where p: "physical_pipes st i = Some p"
      using pipes_at_None [OF at, of i] i by (cases "physical_pipes st i") simp_all
    then have "pipe_phase g (set ns) i p"
      using pipes_at_Some [OF at] by blast
    then show ?thesis
      using p startable_pipe(2,3) [OF g i] by (simp add: pipe_phase_def)
  qed
  then have "run_subgraph g ns ps n = Inr (spawned st)"
    using st(1) by (simp add: run_subgraph_def st0_def rmap_Inr)
  then show ?thesis
    using st(2) all by (simp add: starting_def)
qed

end
