(* ===== verification/StreamPhase.thy ===== *)
theory StreamPhase
  imports StreamRun
begin

section \<open>Phases of an execution\<close>

text \<open>
  How the parts of the streaming engine work together: the graphs that can be built and
  reached in the phases of an execution are well formed and remember what they must, the states
  of such a graph settle, and the subgraph that is then chosen can be started.
\<close>

subsection \<open>Graphs that are built are well formed\<close>

lemma connect_shape:
  assumes "s < k" and "k < length (nodes g)" and "connect k port s g = Inr h"
  shows "pipes h = pipes g @ [\<lparr>sender = s, send_port = length (outputs (nodes g ! s)), send_state = Blocked,
      receiver = k, recv_port = port, recv_state = Blocked\<rparr>]"
    and "length (nodes h) = length (nodes g)"
    and "j < length (nodes g) \<Longrightarrow> compute (nodes h ! j) = compute (nodes g ! j)"
    and "j < length (nodes g) \<Longrightarrow>
      inputs (nodes h ! j) = (if j = k then inputs (nodes g ! j) @ [length (pipes g)] else inputs (nodes g ! j))"
    and "j < length (nodes g) \<Longrightarrow>
      outputs (nodes h ! j) = (if j = s then outputs (nodes g ! j) @ [length (pipes g)] else outputs (nodes g ! j))"
  using assms by (auto simp: connect_def Let_def nth_list_update)

lemma connect_wf:
  assumes wf: "wf_graph g" and s: "s < k" and k: "k < length (nodes g)"
    and port: "port = length (inputs (nodes g ! k))" and h: "connect k port s g = Inr h"
  shows "wf_graph h"
proof -
  note sh = connect_shape [OF s k h]
  have "inputs (nodes h ! j) ! i < length (pipes h) \<and> receiver (pipes h ! (inputs (nodes h ! j) ! i)) = j
      \<and> recv_port (pipes h ! (inputs (nodes h ! j) ! i)) = i"
    if "j < length (nodes g)" "i < length (inputs (nodes h ! j))" for i j
    using that wf_inputs_at [OF wf that(1), of i] port
    by (cases "i < length (inputs (nodes g ! j))") (auto simp: sh nth_append split: if_splits)
  moreover have "outputs (nodes h ! j) ! i < length (pipes h) \<and> sender (pipes h ! (outputs (nodes h ! j) ! i)) = j
      \<and> send_port (pipes h ! (outputs (nodes h ! j) ! i)) = i"
    if "j < length (nodes g)" "i < length (outputs (nodes h ! j))" for i j
    using that wf_outputs_at [OF wf that(1), of i]
    by (cases "i < length (outputs (nodes g ! j))") (auto simp: sh nth_append split: if_splits)
  moreover have "sender (pipes h ! p) < receiver (pipes h ! p) \<and> receiver (pipes h ! p) < length (nodes h)
      \<and> p \<in> set (inputs (nodes h ! receiver (pipes h ! p))) \<and> p \<in> set (outputs (nodes h ! sender (pipes h ! p)))"
    if "p < length (pipes h)" for p
    using that wf_pipe [OF wf, of p] s k by (cases "p < length (pipes g)") (auto simp: sh nth_append)
  ultimately show ?thesis
    unfolding wf_graph_def sh(2) by simp
qed

text \<open>Adding a node leaves the others as they are, except that they get new outputs.\<close>

definition grown :: "nat \<Rightarrow> 'c graph \<Rightarrow> 'c graph \<Rightarrow> bool" where
  "grown k g h \<longleftrightarrow> length (nodes h) = length (nodes g) \<and> (\<exists>ps. pipes h = pipes g @ ps)
     \<and> (\<forall>j < length (nodes g). compute (nodes h ! j) = compute (nodes g ! j)
          \<and> (j \<noteq> k \<longrightarrow> inputs (nodes h ! j) = inputs (nodes g ! j))
          \<and> (\<exists>t. outputs (nodes h ! j) = outputs (nodes g ! j) @ t))"

lemma grown_trans: "grown k g h \<Longrightarrow> grown k h i \<Longrightarrow> grown k g i"
  unfolding grown_def by (elim conjE exE) (simp, metis append.assoc)

lemma connect_all_wf:
  "wf_graph g \<Longrightarrow> k < length (nodes g) \<Longrightarrow> \<forall>s \<in> set ins. s < k \<Longrightarrow> port = length (inputs (nodes g ! k)) \<Longrightarrow>
   \<exists>h. connect_all k port ins g = Inr h \<and> wf_graph h \<and> grown k g h
     \<and> length (inputs (nodes h ! k)) = port + length ins"
proof (induction ins arbitrary: g port)
  case (Cons s ins)
  obtain g1 where g1: "connect k port s g = Inr g1"
    using Cons.prems by (simp add: connect_def Let_def)
  have s: "s < k"
    using Cons.prems by simp
  note sh = connect_shape [OF s Cons.prems(2) g1]
  have "grown k g g1"
    using sh by (simp add: grown_def)
  moreover obtain h where "connect_all k (Suc port) ins g1 = Inr h" "wf_graph h" "grown k g1 h"
      "length (inputs (nodes h ! k)) = Suc port + length ins"
    using Cons.IH [of g1 "Suc port"] Cons.prems connect_wf [OF Cons.prems(1) s Cons.prems(2,4) g1] by (auto simp: sh)
  ultimately show ?case
    using g1 grown_trans by auto
qed (simp add: grown_def)

lemma grown_env:
  assumes wf: "wf_graph g" and gr: "grown k g h" and j: "j < length (nodes g)"
  shows "j \<noteq> k \<Longrightarrow> recv_env h j = recv_env g j" and "\<exists>t. send_env h j = send_env g j @ t"
proof -
  obtain ps where ps: "pipes h = pipes g @ ps"
    using gr by (auto simp: grown_def)
  show "recv_env h j = recv_env g j" if "j \<noteq> k"
    using gr j that wf_input [OF wf j] by (simp add: recv_env_def grown_def ps nth_append)
  obtain t where "outputs (nodes h ! j) = outputs (nodes g ! j) @ t"
    using gr j unfolding grown_def by blast
  then show "\<exists>t. send_env h j = send_env g j @ t"
    using wf_output [OF wf j] by (simp add: send_env_def ps nth_append)
qed

lemma new_node_wf:
  assumes wf: "wf_graph g"
  shows "wf_graph (g\<lparr>nodes := nodes g @ [\<lparr>compute = c, inputs = [], outputs = []\<rparr>]\<rparr>)"
  using wf wf_pipe [OF wf] unfolding wf_graph_def by (auto simp: less_Suc_eq nth_append)

lemma add_node_wf:
  assumes wf: "wf_graph g" and ins: "\<forall>s \<in> set ins. s < length (nodes g)"
  shows "\<exists>h. add_node c ins g = Inr (length (nodes g), h) \<and> wf_graph h
    \<and> grown (length (nodes g)) (g\<lparr>nodes := nodes g @ [\<lparr>compute = c, inputs = [], outputs = []\<rparr>]\<rparr>) h
    \<and> length (inputs (nodes h ! length (nodes g))) = length ins"
  using connect_all_wf [OF new_node_wf [OF wf, of c], of "length (nodes g)" ins 0] ins
  by (auto simp: add_node_def Let_def)

subsection \<open>A settled node takes the ports it is given\<close>

text \<open>
  What the state of a node remembers of its ports: an ordered union has skipped only inputs
  that are done, and a multiplexer has closed only outputs that are done.
\<close>

fun remembers :: "node_kind \<Rightarrow> port_state list \<Rightarrow> port_state list \<Rightarrow> bool" where
  "remembers (OrderedUnionNode c) recv send \<longleftrightarrow>
     (\<forall>i < cur_input_idx c. i < length recv \<longrightarrow> recv ! i = Done)"
| "remembers (MultiplexerNode bs) recv send \<longleftrightarrow>
     length bs \<le> length send \<and> (\<forall>i < length bs. bs ! i = Closed \<longrightarrow> send ! i = Done)"
| "remembers _ recv send \<longleftrightarrow> True"

text \<open>
  The ports a node of a subgraph is given: the inputs that are ready on both sides, and
  some outputs that are. It is in the subgraph because of an output, or as a blocker.
\<close>

definition given ::
    "port_state list \<Rightarrow> port_state list \<Rightarrow> port_state list \<Rightarrow> port_state list \<Rightarrow> bool list \<Rightarrow> bool list \<Rightarrow> bool" where
  "given r s r' s' rp sp \<longleftrightarrow>
     rp = map2 (\<lambda>a b. a = Ready \<and> b = Ready) r r'
     \<and> list_all2 (\<lambda>q (a, b). q \<longrightarrow> a = Ready \<and> b = Ready) sp (zip s s')
     \<and> (list_ex id sp \<or> list_ex id rp \<and> list_all (\<lambda>b. b = Blocked) s')"

definition takes_all :: "port_modes res \<Rightarrow> bool list \<Rightarrow> bool list \<Rightarrow> bool" where
  "takes_all res rp sp \<longleftrightarrow>
     (case res of
        Inl _ \<Rightarrow> False
      | Inr (rm, sm) \<Rightarrow> list_all2 (\<lambda>q m. q \<longrightarrow> m \<noteq> None) rp rm \<and> list_all2 (\<lambda>q m. q \<longrightarrow> m \<noteq> None) sp sm)"

lemma takes_swap:
  assumes "swap_update r s = Inr (r', s')" and "given r s r' s' rp sp"
  shows "takes_all (take_both m rp sp) rp sp"
proof -
  obtain x y where "r = [x]" "s = [y]" "r' = [y]" "s' = [x]"
    using assms(1) by (auto simp: length_one)
  then show ?thesis
    using assms(2) by (auto simp: given_def takes_all_def take_both_def list_all2_Cons2 assert_that_def)
qed

lemma takes_sink:
  assumes "sink_update c r s = Inr (c', r', s')" and "given r s r' s' rp sp"
  shows "takes_all (sink_ports rp sp) rp sp"
proof -
  obtain x where "r = [x]" "s = []" "s' = []"
    using assms(1) by (auto simp: sink_update_def length_one)
  then show ?thesis
    using assms by (auto simp: given_def takes_all_def sink_ports_def sink_update_def assert_that_def split: if_splits)
qed

lemma takes_source:
  assumes "source_update c r s = Inr (c', r', s')" and "given r s r' s' rp sp"
  shows "takes_all (source_ports c rp sp) rp sp"
proof -
  obtain y where "r = []" "s = [y]" "r' = []"
    using assms(1) by (auto simp: source_update_def length_one split: if_splits)
  then show ?thesis
    using assms
    by (auto simp: given_def takes_all_def source_ports_def source_update_def source_exhausted_def
        list_all2_Cons2 assert_that_def split: if_splits option.splits)
qed

lemma takes_slice:
  assumes "slice_update c r s = Inr (c', r', s')" and "length r = 1 \<and> length s = 1" and "given r s r' s' rp sp"
  shows "takes_all (take_both m rp sp) rp sp"
proof -
  obtain x y where "r = [x]" "s = [y]"
    using assms(2) by (auto simp: length_one)
  then show ?thesis
    using assms(1,3)
    by (auto simp: slice_update_one given_def takes_all_def take_both_def list_all2_Cons2 assert_that_def split: if_splits)
qed

lemma takes_reduce:
  assumes "reduce_update c r s = Inr (c, r', s')" and "given r s r' s' rp sp"
  shows "takes_all (reduce_spawn c rp sp) rp sp"
proof -
  obtain x y where rs: "r = [x]" "s = [y]"
    using reduce_update_one [OF assms(1)] by blast
  with assms(1) have "reduce_transition x y c = Inr c" "r' = [fst (reduce_ports c)]" "s' = [snd (reduce_ports c)]"
    by (auto simp: reduce_update_Inr rbind_eq_Inr_iff)
  then show ?thesis
    using assms(2)
    by (cases c) (auto simp: rs reduce_ports_def given_def takes_all_def reduce_spawn_def list_all2_Cons2 assert_that_def)
qed

lemma takes_map:
  assumes "in_memory_map_update ideal c r s = Inr (c, r', s')" and "given r s r' s' rp sp"
  shows "takes_all (in_memory_map_spawn c rp sp) rp sp"
proof -
  obtain x y where rs: "r = [x]" "s = [y]"
    using in_memory_map_ports [OF assms(1)] by blast
  then obtain p where p: "map_phase ideal x y c = Inr p" "map_emit p = (c, r', s')"
    using assms(1) by (auto simp: in_memory_map_update_one rbind_eq_Inr_iff)
  show ?thesis
    using assms(2) p(2)
    by (cases p) (auto simp: rs map_emit_def given_def takes_all_def in_memory_map_spawn_def sink_ports_def
        source_ports_def source_exhausted_def list_all2_Cons2 assert_that_def ex_bool_eq split: if_splits option.splits)
qed

lemma one_true:
  assumes "length rp = n" and "cur < n" and "\<forall>i < n. rp ! i \<longleftrightarrow> i = cur"
  shows "length (filter id rp) = 1"
proof -
  have "rp = replicate cur False @ True # replicate (n - Suc cur) False"
    using assms by (intro nth_equalityI) (auto simp: nth_append nth_Cons split: nat.split)
  then show ?thesis
    by simp
qed

lemma ordered_union_result:
  assumes "ordered_union_update c r s = Inr (c', r', s')"
  shows "\<exists>y. s = [y] \<and> cur_input_idx c' = skip_done (cur_input_idx c) r
    \<and> r' = take (Suc (cur_input_idx c')) (if cur_input_idx c' < length r then r[cur_input_idx c' := y] else r)
           @ replicate (length r - Suc (cur_input_idx c')) Blocked
    \<and> s' = [if cur_input_idx c' < length r then r ! cur_input_idx c' else Done]
    \<and> cur_input_idx c' \<le> length r"
proof -
  obtain y where "s = [y]" "cur_input_idx c \<le> length r"
    using assms by (auto simp: ordered_union_update_def length_one)
  then show ?thesis
    using assms skip_done_le [of "cur_input_idx c" r]
    by (auto simp: ordered_union_update_def Let_def rbind_eq_Inr_iff)
qed

lemma takes_union:
  assumes upd: "ordered_union_update c r s = Inr (c, r', s')" and rem: "remembers (OrderedUnionNode c) r s"
    and giv: "given r s r' s' rp sp"
  shows "takes_all (ordered_union_spawn c rp sp) rp sp"
proof -
  define cur where "cur = cur_input_idx c"
  obtain y where s: "s = [y]"
    and out: "r' = take (Suc cur) (if cur < length r then r[cur := y] else r) @ replicate (length r - Suc cur) Blocked"
      "s' = [if cur < length r then r ! cur else Done]" "cur \<le> length r"
    using ordered_union_result [OF upd] by (auto simp: cur_def)
  obtain q where sp: "sp = [q]" "q \<longrightarrow> y = Ready \<and> s' = [Ready]"
    using giv out(2) by (auto simp: given_def s list_all2_Cons2)
  have len: "length rp = length r"
    using giv out(1,3) by (auto simp: given_def)
  have rp: "rp ! i \<longleftrightarrow> i = cur \<and> r ! i = Ready \<and> y = Ready" if "i < length r" for i
  proof (cases i cur rule: linorder_cases)
    case less
    then show ?thesis
      using giv out(1) that rem len by (simp add: given_def nth_append cur_def)
  next
    case equal
    then show ?thesis
      using giv out(1) that len by (auto simp: given_def nth_append)
  next
    case greater
    then show ?thesis
      using giv out(1) that len by (simp add: given_def nth_append)
  qed
  have "q"
  proof (rule ccontr)
    assume "\<not> q"
    then have "list_ex id rp" "s' = [Blocked]"
      using giv out(2) sp unfolding given_def by auto
    then obtain i where "i < length r" "rp ! i" "cur < length r" "r ! cur = Blocked"
      using out(2) len by (auto simp: list_ex_length split: if_splits)
    then show False
      using rp by auto
  qed
  then have cur: "cur < length r" "\<forall>i < length r. rp ! i \<longleftrightarrow> i = cur"
    using sp out(2) rp by (auto split: if_splits)
  then have "length (filter id rp) = 1"
    using one_true [OF len] by blast
  then show ?thesis
    using \<open>q\<close> cur len
    by (auto simp: takes_all_def ordered_union_spawn_def assert_that_def sp(1) cur_def [symmetric]
        list_all2_conv_all_nth nth_list_update)
qed

lemma takes_multiplexer:
  assumes upd: "multiplexer_update c r s = Inr (c, r', s')" and rem: "remembers (MultiplexerNode c) r s"
    and giv: "given r s r' s' rp sp"
  shows "takes_all (multiplexer_spawn c rp sp) rp sp"
proof -
  have "length r = 1" "s \<noteq> []" "close_done s (resize_buffers (length s) c) = c"
    using upd by (auto simp: multiplexer_update_def Let_def split: if_splits)
  then have len: "length c = length s" "length r = 1" "s \<noteq> []" "length r' = 1" "length s' = length s"
    using multiplexer_node.upd_length [OF TrueI upd] close_done_length [of s c] by simp_all
  have sp: "length sp = length s" "\<forall>i < length s. sp ! i \<longrightarrow> c ! i \<noteq> Closed"
    using giv len rem by (auto simp: given_def list_all2_conv_all_nth)
  moreover have "length rp = 1"
    using giv len by (auto simp: given_def)
  ultimately show ?thesis
    using len by (auto simp: takes_all_def multiplexer_spawn_def assert_that_def list_all2_conv_all_nth)
qed

lemma takes_zip:
  assumes upd: "zip_update c r s = Inr (c, r', s')" and r: "0 < length r" and giv: "given r s r' s' rp sp"
  shows "takes_all (zip_spawn rp sp) rp sp"
proof -
  obtain y where s: "s = [y]"
    using upd by (auto simp: zip_update_def length_one)
  have len: "length r' = length r" "length s' = 1"
    using zip_node.upd_length [OF TrueI upd] s by simp_all
  obtain q where sp: "sp = [q]"
    using giv len by (auto simp: given_def s list_all2_Cons2 length_one)
  have "r' = replicate (length r) Blocked" if "s' = [Blocked]"
    using upd that by (auto simp: zip_update_eq Let_def s split: if_splits)
  then have "q"
    using giv sp len by (auto simp: given_def length_one list_ex_iff set_zip)
  moreover have "rp \<noteq> []"
    using giv r len by (cases r; cases r') (auto simp: given_def)
  ultimately show ?thesis
    by (auto simp: takes_all_def zip_spawn_def assert_that_def sp list_all2_conv_all_nth)
qed

lemma settled_node_takes:
  assumes "node_update ideal c r s = Inr (c, r', s')" and "node_ports c (length r) (length s)"
    and "remembers c r s" and "given r s r' s' rp sp"
  shows "takes_all (node_spawn c rp sp) rp sp"
  using assms
  by (cases c) (auto simp: tagged_Inr filter_update_def map_update_def select_update_def simple_projection_update_def
      rbind_eq_Inr_iff simp del: swap_update_Inr remembers.simps(1,2)
      intro: takes_swap takes_sink takes_source takes_slice takes_reduce takes_map takes_union takes_multiplexer takes_zip)

text \<open>The same for a node of the subgraph that is found in a settled graph.\<close>

definition graph_remembers :: "('c \<Rightarrow> port_state list \<Rightarrow> port_state list \<Rightarrow> bool) \<Rightarrow> 'c graph \<Rightarrow> bool" where
  "graph_remembers rem g \<longleftrightarrow> (\<forall>k < length (nodes g). rem (compute (nodes g ! k)) (recv_env g k) (send_env g k))"

lemma ready_input:
  assumes "wf_graph g" and "k < length (nodes g)"
  shows "i \<in> set (ready_inputs g k) \<longleftrightarrow> i < length (pipes g) \<and> receiver (pipes g ! i) = k \<and> pipe_ready g i"
  using wf_input [OF assms] by (auto simp: ready_inputs_def)

lemma feeds_nodes:
  assumes wf: "wf_graph g" and R: "R \<subseteq> {..<length (nodes g)}"
  shows "(feeds g)\<^sup>* `` R \<subseteq> {..<length (nodes g)}"
proof -
  have "k < length (nodes g)" if "(r, k) \<in> (feeds g)\<^sup>*" "r \<in> R" for r k
    using that
  proof (induction rule: rtrancl_induct)
    case (step j k)
    then show ?case
      using ready_input [OF wf, of j] wf_pipe(3) [OF wf] by (auto simp: feeds_def)
  qed (use R in auto)
  then show ?thesis
    by blast
qed

lemma subgraph_pipe:
  assumes wf: "wf_graph g" and R: "R \<subseteq> {..<length (nodes g)}"
    and P: "set P = (\<Union>j \<in> (feeds g)\<^sup>* `` R. set (ready_inputs g j))"
  shows "i \<in> set P \<longleftrightarrow> i < length (pipes g) \<and> receiver (pipes g ! i) \<in> (feeds g)\<^sup>* `` R \<and> pipe_ready g i"
    and "i \<in> set P \<Longrightarrow> sender (pipes g ! i) \<in> (feeds g)\<^sup>* `` R"
proof -
  have N: "j < length (nodes g)" if "j \<in> (feeds g)\<^sup>* `` R" for j
    using feeds_nodes [OF wf R] that by blast
  show "i \<in> set P \<longleftrightarrow> i < length (pipes g) \<and> receiver (pipes g ! i) \<in> (feeds g)\<^sup>* `` R \<and> pipe_ready g i"
    unfolding P UN_iff
  proof
    assume "\<exists>j \<in> (feeds g)\<^sup>* `` R. i \<in> set (ready_inputs g j)"
    then obtain j where j: "j \<in> (feeds g)\<^sup>* `` R" "i \<in> set (ready_inputs g j)" ..
    then show "i < length (pipes g) \<and> receiver (pipes g ! i) \<in> (feeds g)\<^sup>* `` R \<and> pipe_ready g i"
      using ready_input [OF wf N [OF j(1)], of i] by simp
  next
    assume i: "i < length (pipes g) \<and> receiver (pipes g ! i) \<in> (feeds g)\<^sup>* `` R \<and> pipe_ready g i"
    show "\<exists>j \<in> (feeds g)\<^sup>* `` R. i \<in> set (ready_inputs g j)"
      using i ready_input [OF wf N, of "receiver (pipes g ! i)" i]
      by (intro bexI [of _ "receiver (pipes g ! i)"]) simp_all
  qed
  assume "i \<in> set P"
  then obtain j where j: "j \<in> (feeds g)\<^sup>* `` R" "i \<in> set (ready_inputs g j)"
    unfolding P by blast
  then have "(j, sender (pipes g ! i)) \<in> feeds g"
    by (auto simp: feeds_def)
  then show "sender (pipes g ! i) \<in> (feeds g)\<^sup>* `` R"
    using j(1) by (blast intro: rtrancl_into_rtrancl)
qed

lemma runnable_node_given:
  assumes wf: "wf_graph g" and k: "k \<in> (feeds g)\<^sup>* `` R"
    and R: "R \<subseteq> set (find_runnable_pipeline_blockers g)"
    and P: "set P = (\<Union>j \<in> (feeds g)\<^sup>* `` R. set (ready_inputs g j))"
  shows "given (recv_env g k) (send_env g k) (recv_shown g k) (send_shown g k)
    (map (\<lambda>i. i \<in> set P) (inputs (nodes g ! k))) (map (\<lambda>i. i \<in> set P) (outputs (nodes g ! k)))"
proof -
  have Rn: "R \<subseteq> {..<length (nodes g)}"
    using R by (auto simp: find_runnable_pipeline_blockers_def)
  have kn: "k < length (nodes g)"
    using feeds_nodes [OF wf Rn] k by blast
  note pipe = subgraph_pipe [OF wf Rn P]
  have inP: "i \<in> set P \<longleftrightarrow> pipe_ready g i" if "i \<in> set (inputs (nodes g ! k))" for i
    using pipe(1) [of i] wf_input [OF wf kn, of i] that k by simp
  have rp: "map (\<lambda>i. i \<in> set P) (inputs (nodes g ! k)) =
      map2 (\<lambda>a b. a = Ready \<and> b = Ready) (recv_env g k) (recv_shown g k)"
    using inP by (auto simp: recv_env_def recv_shown_def pipe_ready_def intro!: nth_equalityI)
  have sp: "list_all2 (\<lambda>q (a, b). q \<longrightarrow> a = Ready \<and> b = Ready) (map (\<lambda>i. i \<in> set P) (outputs (nodes g ! k)))
      (zip (send_env g k) (send_shown g k))"
    using pipe(1) by (simp add: list_all2_conv_all_nth send_env_def send_shown_def pipe_ready_def)
  have "list_ex (\<lambda>i. i \<in> set P) (outputs (nodes g ! k))
      \<or> list_ex (\<lambda>i. i \<in> set P) (inputs (nodes g ! k)) \<and> list_all (\<lambda>b. b = Blocked) (send_shown g k)"
  proof (cases "k \<in> R")
    case True
    then show ?thesis
      using R inP by (auto simp: find_runnable_pipeline_blockers_def list_ex_iff list_all_iff send_shown_def)
  next
    case False
    then obtain j where "j \<in> (feeds g)\<^sup>* `` R" "(j, k) \<in> feeds g"
      using k by (auto elim: rtranclE)
    then obtain i where i: "i \<in> set P" "sender (pipes g ! i) = k"
      unfolding P by (auto simp: feeds_def)
    then have "i \<in> set (outputs (nodes g ! k))"
      using pipe(1) wf_output [OF wf kn] by blast
    then show ?thesis
      using i(1) by (auto simp: list_ex_iff)
  qed
  then have "list_ex id (map (\<lambda>i. i \<in> set P) (outputs (nodes g ! k)))
      \<or> list_ex id (map (\<lambda>i. i \<in> set P) (inputs (nodes g ! k))) \<and> list_all (\<lambda>b. b = Blocked) (send_shown g k)"
    by (simp add: list_ex_iff)
  then show ?thesis
    unfolding given_def by (intro conjI rp sp)
qed

lemma runnable_ports_taken:
  assumes wf: "wf_graph g" and pt: "ported node_ports g" and rem: "graph_remembers remembers g"
    and ok: "\<forall>j < length (nodes g). settled (node_update ideal) g j"
    and k: "k \<in> (feeds g)\<^sup>* `` R" and R: "R \<subseteq> set (find_runnable_pipeline_blockers g)"
    and P: "set P = (\<Union>j \<in> (feeds g)\<^sup>* `` R. set (ready_inputs g j))"
  shows "ports_taken g P k"
proof -
  have "R \<subseteq> {..<length (nodes g)}"
    using R by (auto simp: find_runnable_pipeline_blockers_def)
  then have kn: "k < length (nodes g)"
    using feeds_nodes [OF wf] k by blast
  have "takes_all (node_spawn (compute (nodes g ! k)) (map (\<lambda>i. i \<in> set P) (inputs (nodes g ! k)))
      (map (\<lambda>i. i \<in> set P) (outputs (nodes g ! k))))
      (map (\<lambda>i. i \<in> set P) (inputs (nodes g ! k))) (map (\<lambda>i. i \<in> set P) (outputs (nodes g ! k)))"
  proof (rule settled_node_takes [OF _ _ _ runnable_node_given [OF wf k R P]])
    show "node_update ideal (compute (nodes g ! k)) (recv_env g k) (send_env g k) =
        Inr (compute (nodes g ! k), recv_shown g k, send_shown g k)"
      using ok kn by (simp add: settled_def)
    show "node_ports (compute (nodes g ! k)) (length (recv_env g k)) (length (send_env g k))"
      using pt kn by (simp add: ported_def recv_env_def send_env_def)
    show "remembers (compute (nodes g ! k)) (recv_env g k) (send_env g k)"
      using rem kn by (simp add: graph_remembers_def)
  qed
  then show ?thesis
    by (auto simp: ports_taken_def takes_all_def list_all2_conv_all_nth split: sum.splits prod.splits)
qed

end
