(* ===== verification/StreamReach.thy ===== *)
theory StreamReach
  imports StreamPhase
begin

section \<open>Reachable graphs\<close>

text \<open>
  The compute graphs an execution can reach: they are built by \<open>add_node\<close>, their states are
  updated by \<open>update_all_states\<close>, and the tasks of a phase change the state of the nodes, but
  neither the kind of a node, nor which input an ordered union reads, nor which buffers of
  a multiplexer are closed. The properties of the streaming engine are stated for these graphs.
\<close>

subsection \<open>What the nodes remember stays true\<close>

locale remembering_node = compute_node upd ports
  for upd :: "'c update_fn" and ports :: "'c \<Rightarrow> nat \<Rightarrow> nat \<Rightarrow> bool" +
  fixes rem :: "'c \<Rightarrow> port_state list \<Rightarrow> port_state list \<Rightarrow> bool"
  assumes rem_upd: "ports c (length r) (length s) \<Longrightarrow> upd c r s = Inr (c', r', s') \<Longrightarrow> rem c r s \<Longrightarrow> rem c' r s"
    and rem_done: "rem c r s \<Longrightarrow> length r' = length r \<Longrightarrow> length s' = length s \<Longrightarrow>
      (\<forall>i < length r. r ! i = Done \<longrightarrow> r' ! i = Done) \<Longrightarrow> (\<forall>i < length s. s ! i = Done \<longrightarrow> s' ! i = Done) \<Longrightarrow>
      rem c r' s'"
begin

lemma update_step_remembers:
  assumes wf: "wf_graph g" and pt: "ported ports g" and st: "update_step upd g h" and rem: "graph_remembers rem g"
  shows "graph_remembers rem h"
  unfolding graph_remembers_def
proof (intro allI impI)
  obtain k c recv send where k: "k < length (nodes g)"
      "upd (compute (nodes g ! k)) (recv_env g k) (send_env g k) = Inr (c, recv, send)" "node_step g k c recv send h"
    using st by (auto elim: update_step.cases)
  note kept = update_step_keeps [OF wf pt st]
  fix j
  assume "j < length (nodes h)"
  then have j: "j < length (nodes g)"
    using kept(3) by (simp add: same_shape_def)
  note sh = node_step_nodes [OF k(3) j]
  have "rem (compute (nodes h ! j)) (recv_env g j) (send_env g j)"
    using rem j sh(3) rem_upd [OF ported_env [OF pt k(1)] k(2)] by (auto simp: graph_remembers_def)
  then show "rem (compute (nodes h ! j)) (recv_env h j) (send_env h j)"
  proof (rule rem_done)
    show "\<forall>i < length (recv_env g j). recv_env g j ! i = Done \<longrightarrow> recv_env h j ! i = Done"
      using kept(4) wf_inputs_at(1) [OF wf j] by (simp add: recv_env_def sh done_kept_def)
    show "\<forall>i < length (send_env g j). send_env g j ! i = Done \<longrightarrow> send_env h j ! i = Done"
      using kept(4) wf_outputs_at(1) [OF wf j] by (simp add: send_env_def sh done_kept_def)
  qed (simp_all add: recv_env_def send_env_def sh)
qed

lemma update_steps_remember:
  "(update_step upd)\<^sup>*\<^sup>* g h \<Longrightarrow> wf_graph g \<Longrightarrow> ported ports g \<Longrightarrow> graph_remembers rem g \<Longrightarrow> graph_remembers rem h"
proof (induction rule: rtranclp_induct)
  case (step h i)
  then show ?case
    using update_steps_keep [of g h] update_step_remembers [of h i] by blast
qed

end

lemma skip_done_skipped: "cur \<le> i \<Longrightarrow> i < skip_done cur r \<Longrightarrow> r ! i = Done"
proof (induction cur r rule: skip_done.induct)
  case (1 cur r)
  show ?case
  proof (cases "cur < length r \<and> r ! cur = Done")
    case True
    then have "skip_done cur r = skip_done (Suc cur) r"
      by (subst skip_done.simps) simp
    then show ?thesis
      using 1 True by (cases "cur = i") auto
  next
    case False
    then have "skip_done cur r = cur"
      by (subst skip_done.simps) auto
    then show ?thesis
      using 1 by simp
  qed
qed

lemma union_remembers:
  assumes "ordered_union_update c r s = Inr (c', r', s')" and "remembers (OrderedUnionNode c) r s"
  shows "remembers (OrderedUnionNode c') r s"
  unfolding remembers.simps
proof (intro allI impI)
  fix i
  assume i: "i < cur_input_idx c'" "i < length r"
  then show "r ! i = Done"
    using ordered_union_result [OF assms(1)] skip_done_skipped [of "cur_input_idx c" i r] assms(2)
    by (cases "i < cur_input_idx c") auto
qed

lemma multiplexer_remembers:
  assumes "multiplexer_update c r s = Inr (c', r', s')" and "remembers (MultiplexerNode c) r s"
  shows "remembers (MultiplexerNode c') r s"
proof -
  have c': "c' = close_done s (resize_buffers (length s) c)"
    using assms(1) by (auto simp: multiplexer_update_def Let_def split: if_splits)
  have "resize_buffers (length s) c ! i = (if i < length c then c ! i else Open [])" if "i < length s" for i
    using that assms(2) by (simp add: resize_buffers_def nth_append)
  then show ?thesis
    using assms(2) unfolding c' by (auto simp: close_done_def resize_buffers_def split: if_splits)
qed

interpretation any_node: remembering_node "node_update ideal" node_ports remembers for ideal
proof unfold_locales
  fix c c' r s r' s'
  assume "node_update ideal c r s = Inr (c', r', s')" "remembers c r s"
  then show "remembers c' r s"
    by (cases c) (auto simp: tagged_Inr simp del: remembers.simps(1,2) intro: union_remembers multiplexer_remembers)
next
  fix c r s r' s'
  assume "remembers c r s" "length r' = length r" "length s' = length s"
    "\<forall>i < length r. r ! i = Done \<longrightarrow> r' ! i = Done" "\<forall>i < length s. s ! i = Done \<longrightarrow> s' ! i = Done"
  then show "remembers c r' s'"
    by (cases c) auto
qed

subsection \<open>Reachability\<close>

fun fresh_node :: "node_kind \<Rightarrow> bool" where
  "fresh_node (OrderedUnionNode c) \<longleftrightarrow> c = ordered_union_new"
| "fresh_node (MultiplexerNode bs) \<longleftrightarrow> bs = multiplexer_new"
| "fresh_node _ \<longleftrightarrow> True"

text \<open>What the tasks of a phase may do to a node.\<close>

fun ran :: "node_kind \<Rightarrow> node_kind \<Rightarrow> bool" where
  "ran (StreamingSliceNode _) d \<longleftrightarrow> (\<exists>c'. d = StreamingSliceNode c')"
| "ran (InMemorySourceNode _) d \<longleftrightarrow> (\<exists>c'. d = InMemorySourceNode c')"
| "ran (InMemoryMapNode _) d \<longleftrightarrow> (\<exists>c'. d = InMemoryMapNode c')"
| "ran (ReduceNode _) d \<longleftrightarrow> (\<exists>c'. d = ReduceNode c')"
| "ran (OrderedUnionNode c) d \<longleftrightarrow> (\<exists>c'. d = OrderedUnionNode c' \<and> cur_input_idx c' = cur_input_idx c)"
| "ran (MultiplexerNode bs) d \<longleftrightarrow>
     (\<exists>bs'. d = MultiplexerNode bs' \<and> list_all2 (\<lambda>b b'. b' = Closed \<longrightarrow> b = Closed) bs bs')"
| "ran (ZipNode c) d \<longleftrightarrow> (\<exists>c'. d = ZipNode c')"
| "ran c d \<longleftrightarrow> d = c"

definition tasks_ran :: "node_kind graph \<Rightarrow> node_kind graph \<Rightarrow> bool" where
  "tasks_ran g h \<longleftrightarrow> same_shape g h \<and> pipes h = pipes g
     \<and> (\<forall>k < length (nodes g). ran (compute (nodes g ! k)) (compute (nodes h ! k)))"

inductive reachable_graph :: "nat \<Rightarrow> node_kind graph \<Rightarrow> bool" for ideal :: nat where
  reach_new: "reachable_graph ideal graph_new"
| reach_add: "reachable_graph ideal g \<Longrightarrow> \<forall>s \<in> set ins. s < length (nodes g) \<Longrightarrow> fresh_node c \<Longrightarrow>
    add_node c ins g = Inr (k, h) \<Longrightarrow> reachable_graph ideal h"
| reach_update: "reachable_graph ideal g \<Longrightarrow> ported node_ports g \<Longrightarrow> set keys = {..<length (nodes g)} \<Longrightarrow>
    update_all_states (node_update ideal) keys g = Some (Inr h) \<Longrightarrow> reachable_graph ideal h"
| reach_run: "reachable_graph ideal g \<Longrightarrow> tasks_ran g h \<Longrightarrow> reachable_graph ideal h"

lemma remembers_ran:
  assumes "ran c d" and "remembers c r s"
  shows "remembers d r s"
  using assms by (cases c) (auto simp: list_all2_conv_all_nth)

lemma remembers_outputs: "remembers c r s \<Longrightarrow> remembers c r (s @ t)"
  by (cases c) (auto simp: nth_append)

lemma fresh_remembers: "fresh_node c \<Longrightarrow> remembers c r s"
  by (cases c) (simp_all add: ordered_union_new_def multiplexer_new_def)

lemma add_node_remembers:
  assumes wf: "wf_graph g" and ins: "\<forall>s \<in> set ins. s < length (nodes g)" and c: "fresh_node c"
    and add: "add_node c ins g = Inr (k, h)" and rem: "graph_remembers remembers g"
  shows "graph_remembers remembers h"
  unfolding graph_remembers_def
proof (intro allI impI)
  let ?g = "g\<lparr>nodes := nodes g @ [\<lparr>compute = c, inputs = [], outputs = []\<rparr>]\<rparr>"
  have gr: "grown (length (nodes g)) ?g h"
    using add_node_wf [OF wf ins, of c] add by auto
  fix j
  assume "j < length (nodes h)"
  then have j: "j < length (nodes ?g)" "compute (nodes h ! j) = compute (nodes ?g ! j)"
    using gr by (simp_all add: grown_def)
  show "remembers (compute (nodes h ! j)) (recv_env h j) (send_env h j)"
  proof (cases "j < length (nodes g)")
    case True
    obtain t where "recv_env h j = recv_env ?g j" "send_env h j = send_env ?g j @ t"
      using grown_env [OF new_node_wf [OF wf] gr j(1)] True by auto
    moreover have "recv_env ?g j = recv_env g j" "send_env ?g j = send_env g j"
      using True by (simp_all add: recv_env_def send_env_def nth_append)
    ultimately show ?thesis
      using True j(2) rem remembers_outputs by (simp add: graph_remembers_def nth_append)
  next
    case False
    then have "compute (nodes h ! j) = c"
      using j by (simp add: nth_append less_Suc_eq)
    then show ?thesis
      using fresh_remembers [OF c] by simp
  qed
qed

lemma reachable_inv: "reachable_graph ideal g \<Longrightarrow> wf_graph g \<and> graph_remembers remembers g"
proof (induction rule: reachable_graph.induct)
  case reach_new
  then show ?case
    by (simp add: wf_graph_def graph_new_def graph_remembers_def)
next
  case (reach_add g ins c k h)
  then show ?case
    using add_node_wf [of g ins c] add_node_remembers [of g ins c k h] by auto
next
  case (reach_update g keys h)
  then have "(update_step (node_update ideal))\<^sup>*\<^sup>* g h"
    using any_node.update_all_states_returns [of g keys ideal] by fastforce
  then show ?case
    using reach_update any_node.update_steps_keep any_node.update_steps_remember by blast
next
  case (reach_run g h)
  then have sh: "same_shape g h" "pipes h = pipes g" "\<forall>k < length (nodes g). ran (compute (nodes g ! k)) (compute (nodes h ! k))"
    by (auto simp: tasks_ran_def)
  then have "recv_env h k = recv_env g k" "send_env h k = send_env g k" if "k < length (nodes g)" for k
    using that by (simp_all add: recv_env_def send_env_def same_shape_def)
  then show ?case
    using reach_run.IH same_shape_wf [OF _ sh(1)] sh remembers_ran
    by (auto simp: graph_remembers_def same_shape_def)
qed

lemma runnable_subgraph_parts:
  assumes "wf_graph g"
  shows "\<exists>P. find_runnable_subgraph g = Inr ((feeds g)\<^sup>* `` set (blockers_to_run g), P) \<and> distinct P
    \<and> set P = (\<Union>k \<in> (feeds g)\<^sup>* `` set (blockers_to_run g). set (ready_inputs g k))"
proof -
  have "set (blockers_to_run g) \<subseteq> {..<length (nodes g)}"
    using blockers_to_run_props(2) [where g = g] by (auto simp: find_runnable_pipeline_blockers_def)
  then show ?thesis
    using expand_ready_subgraph_exact [OF assms blockers_to_run_props(1)] unfolding find_runnable_subgraph_def by blast
qed

lemma subgraph_startable:
  assumes wf: "wf_graph g" and R: "R \<subseteq> set (find_runnable_pipeline_blockers g)"
    and P: "set P = (\<Union>k \<in> (feeds g)\<^sup>* `` R. set (ready_inputs g k))"
    and ns: "distinct ns" "set ns = (feeds g)\<^sup>* `` R"
    and ready: "\<forall>i \<in> subgraph_pipes g (set ns). pipe_ready g i \<or> sender (pipes g ! i) \<in> set (find_runnable_pipeline_blockers g)"
    and taken: "\<forall>k \<in> set ns. ports_taken g P k"
  shows "startable g ns P"
proof -
  have Rn: "R \<subseteq> {..<length (nodes g)}"
    using R by (auto simp: find_runnable_pipeline_blockers_def)
  note pipe = subgraph_pipe [OF wf Rn P, folded ns(2)]
  have "j \<in> set P" if i: "i \<in> set P" and j: "j \<in> subgraph_pipes g (set ns)" "sender (pipes g ! j) = sender (pipes g ! i)" for i j
  proof -
    have "i \<in> set (outputs (nodes g ! sender (pipes g ! i)))" "send_state (pipes g ! i) = Ready"
      using pipe(1) [of i] i wf_pipe [OF wf, of i] by (auto simp: pipe_ready_def)
    then have "sender (pipes g ! i) \<notin> set (find_runnable_pipeline_blockers g)"
      by (auto simp: find_runnable_pipeline_blockers_def list_all_iff)
    then show ?thesis
      using pipe(1) [of j] ready j by (auto simp: subgraph_pipes_def)
  qed
  moreover have "set P \<subseteq> subgraph_pipes g (set ns)"
    using pipe by (auto simp: subgraph_pipes_def)
  ultimately show ?thesis
    using wf ns feeds_nodes [OF wf Rn] taken by (simp add: startable_def)
qed

subsection \<open>Two queries\<close>

text \<open>
  \<open>build\<close> adds nodes one after the other. \<open>scan_query\<close> reduces a frame into a sink;
  \<open>concat_query\<close> reduces a frame that is shared, through a multiplexer, with the second input of an
  ordered union, which is reduced as well.
\<close>

fun build :: "(node_kind \<times> nat list) list \<Rightarrow> node_kind graph \<Rightarrow> node_kind graph res" where
  "build [] g = Inr g"
| "build ((c, ins) # xs) g =
     assert_that (fresh_node c \<and> list_all (\<lambda>s. s < length (nodes g)) ins)
       (rbind (add_node c ins g) (\<lambda>(_, h). build xs h))"

lemma build_reachable: "build xs g = Inr h \<Longrightarrow> reachable_graph ideal g \<Longrightarrow> reachable_graph ideal h"
proof (induction xs arbitrary: g)
  case (Cons x xs)
  obtain c ins where x: "x = (c, ins)"
    by (cases x)
  then obtain k g1 where "add_node c ins g = Inr (k, g1)" "build xs g1 = Inr h" "fresh_node c"
      "\<forall>s \<in> set ins. s < length (nodes g)"
    using Cons.prems(1) by (auto simp: rbind_eq_Inr_iff list_all_iff)
  then show ?case
    using Cons.IH reach_add [OF Cons.prems(2)] by blast
qed simp

lemma ported_list:
  "ported ports g \<longleftrightarrow> list_all (\<lambda>n. ports (compute n) (length (inputs n)) (length (outputs n))) (nodes g)"
  by (simp add: ported_def list_all_length)

definition frame_source :: "nat \<Rightarrow> node_kind" where
  "frame_source h = InMemorySourceNode \<lparr>src_height = Some h, morsel_size = h, src_seq = 0\<rparr>"

definition sum_node :: node_kind where
  "sum_node = ReduceNode (ReduceSink (Inr 1))"

definition scan_query :: "node_kind graph" where
  "scan_query = (case build [(frame_source 3, []), (sum_node, [0]), (InMemorySinkNode, [1])] graph_new of
     Inr g \<Rightarrow> g | Inl _ \<Rightarrow> graph_new)"

definition concat_query :: "node_kind graph" where
  "concat_query = (case build [(frame_source 3, []), (frame_source 5, []), (MultiplexerNode multiplexer_new, [1]),
      (OrderedUnionNode ordered_union_new, [0, 2]), (sum_node, [2]), (sum_node, [3]),
      (InMemorySinkNode, [4]), (InMemorySinkNode, [5])] graph_new of
     Inr g \<Rightarrow> g | Inl _ \<Rightarrow> graph_new)"

definition after_update :: "node_kind graph \<Rightarrow> node_kind graph" where
  "after_update g = (case update_all_states (node_update 1000) [0..<length (nodes g)] g of
     Some (Inr h) \<Rightarrow> h | _ \<Rightarrow> g)"

lemma query_reachable:
  "reachable_graph ideal scan_query" "reachable_graph ideal concat_query"
  unfolding scan_query_def concat_query_def
  by (auto split: sum.split simp del: build.simps intro: reach_new build_reachable)

lemma query_ported:
  "ported node_ports scan_query" "ported node_ports concat_query"
  unfolding ported_list by code_simp+

lemma after_update_reachable:
  assumes "reachable_graph 1000 g" and "ported node_ports g"
  shows "reachable_graph 1000 (after_update g)"
  using assms reach_update [OF assms, of "[0..<length (nodes g)]"]
  by (auto simp: after_update_def atLeast0LessThan split: option.split sum.split)

subsection \<open>Properties\<close>

text \<open>
  C9. The state update of a reachable compute graph always returns. If no node fails, the
  graph keeps its shape, no port leaves the state \<open>Done\<close>, and every node is settled: running its
  \<open>update_state\<close> again would change neither its own state nor any of its ports.
\<close>

theorem update_all_states_settles:
  assumes "reachable_graph ideal g" and "ported node_ports g" and "set keys = {..<length (nodes g)}"
  shows "\<exists>res. update_all_states (node_update ideal) keys g = Some res
    \<and> (\<forall>h. res = Inr h \<longrightarrow> same_shape g h \<and> done_kept g h
           \<and> (\<forall>j < length (nodes g). settled (node_update ideal) h j))"
  using any_node.update_all_states_returns [of g keys ideal] any_node.update_steps_keep [of ideal g]
    reachable_inv [OF assms(1)] assms(2,3) by blast

theorem update_all_states_settles_witness:
  "\<exists>res. update_all_states (node_update 1000) [0..<8] concat_query = Some res
    \<and> (\<forall>h. res = Inr h \<longrightarrow> same_shape concat_query h \<and> done_kept concat_query h
           \<and> (\<forall>j < length (nodes concat_query). settled (node_update 1000) h j))"
proof (rule update_all_states_settles [OF query_reachable(2) query_ported(2)])
  have "length (nodes concat_query) = 8"
    by code_simp
  then show "set [0..<8] = {..<length (nodes concat_query)}"
    by (simp add: atLeast0LessThan)
qed

text \<open>
  C21. The subgraph that a phase runs is exact. It is found for every reachable graph; its
  nodes are those that feed, through pipes that are ready on both sides, a set of pipeline
  blockers; its pipes are exactly the ready inputs of these nodes, each once. The set
  contains every blocker that is not memory intensive and at most one that is, and it is
  empty only if the graph has no runnable blocker.
\<close>

theorem find_runnable_subgraph_exact:
  assumes "reachable_graph ideal g"
  shows "\<exists>R P. find_runnable_subgraph g = Inr ((feeds g)\<^sup>* `` R, P)
    \<and> distinct P \<and> set P = (\<Union>k \<in> (feeds g)\<^sup>* `` R. set (ready_inputs g k))
    \<and> R \<subseteq> set (find_runnable_pipeline_blockers g)
    \<and> {k \<in> set (find_runnable_pipeline_blockers g). \<not> is_memory_intensive_pipeline_blocker (compute (nodes g ! k))} \<subseteq> R
    \<and> card {k \<in> R. is_memory_intensive_pipeline_blocker (compute (nodes g ! k))} \<le> 1
    \<and> (R = {} \<longleftrightarrow> find_runnable_pipeline_blockers g = [])"
proof -
  let ?I = "\<lambda>k. is_memory_intensive_pipeline_blocker (compute (nodes g ! k))"
  note b = blockers_to_run_props [where g = g]
  obtain P where P: "find_runnable_subgraph g = Inr ((feeds g)\<^sup>* `` set (blockers_to_run g), P)" "distinct P"
      "set P = (\<Union>k \<in> (feeds g)\<^sup>* `` set (blockers_to_run g). set (ready_inputs g k))"
    using runnable_subgraph_parts reachable_inv [OF assms] by blast
  have "card {k \<in> set (blockers_to_run g). ?I k} \<le> 1"
    using b(5) card_length [of "filter ?I (blockers_to_run g)"] by simp
  then show ?thesis
    using P b(2-4) by (intro exI [of _ "set (blockers_to_run g)"] exI [of _ P]) auto
qed

theorem find_runnable_subgraph_exact_witness:
  "\<exists>R P. find_runnable_subgraph (after_update concat_query) = Inr ((feeds (after_update concat_query))\<^sup>* `` R, P)
    \<and> distinct P"
  using find_runnable_subgraph_exact [OF after_update_reachable [OF query_reachable(2) query_ported(2)]] by blast

text \<open>
  C13. A phase starts. After the states of a reachable graph have been updated, take the
  subgraph that \<open>find_runnable_subgraph\<close> finds, in whatever order the hash set lists its nodes.
  If every pipe between two of its nodes is ready, except for the pipes out of pipeline blockers,
  \<open>run_subgraph\<close> starts every node exactly once, every receiver before its sender, and no
  assertion on a port or a pipe fails. A pipe that is blocked or done, and leads from
  another node of the subgraph to one of its nodes, is excluded.
\<close>

theorem runnable_subgraph_starts:
  assumes "reachable_graph ideal g" and "ported node_ports g" and "set keys = {..<length (nodes g)}"
    and "update_all_states (node_update ideal) keys g = Some (Inr h)"
    and "find_runnable_subgraph h = Inr (N, P)" and "distinct ns" and "set ns = N"
    and "\<forall>i \<in> subgraph_pipes h N. pipe_ready h i \<or> sender (pipes h ! i) \<in> set (find_runnable_pipeline_blockers h)"
  shows "\<exists>sp. run_subgraph h ns P num_pipelines = Inr sp \<and> distinct sp \<and> set sp = N
    \<and> (\<forall>i \<in> set P. \<forall>xs ys. sp = xs @ sender (pipes h ! i) # ys \<longrightarrow> receiver (pipes h ! i) \<in> set xs)"
proof -
  have h: "reachable_graph ideal h"
    by (rule reach_update [OF assms(1-4)])
  have steps: "(update_step (node_update ideal))\<^sup>*\<^sup>* g h" "\<forall>j < length (nodes g). settled (node_update ideal) h j"
    using any_node.update_all_states_returns [of g keys ideal] reachable_inv [OF assms(1)] assms(2-4) by fastforce+
  then have pt: "ported node_ports h" and n: "length (nodes h) = length (nodes g)"
    using any_node.update_steps_keep [OF steps(1)] reachable_inv [OF assms(1)] assms(2) by (auto simp: same_shape_def)
  define R where "R = set (blockers_to_run h)"
  have R: "N = (feeds h)\<^sup>* `` R" "set P = (\<Union>k \<in> (feeds h)\<^sup>* `` R. set (ready_inputs h k))"
      "R \<subseteq> set (find_runnable_pipeline_blockers h)"
    using runnable_subgraph_parts reachable_inv [OF h] assms(5) blockers_to_run_props(2) [where g = h] by (fastforce simp: R_def)+
  have "ports_taken h P k" if "k \<in> N" for k
    using runnable_ports_taken [OF _ pt _ _ _ R(3,2)] reachable_inv [OF h] steps(2) n that R(1) by simp
  then have "startable h ns P"
    using subgraph_startable [OF conjunct1 [OF reachable_inv [OF h]] R(3,2)] R(1) assms(6-8) by simp
  then show ?thesis
    using run_subgraph_starts assms(7) by blast
qed

theorem runnable_subgraph_starts_witness:
  "find_runnable_subgraph (after_update scan_query) = Inr ({0, 1}, [0])
   \<and> (\<exists>sp. run_subgraph (after_update scan_query) [0, 1] [0] 2 = Inr sp \<and> distinct sp \<and> set sp = {0, 1}
        \<and> (\<forall>i \<in> set [0]. \<forall>xs ys. sp = xs @ sender (pipes (after_update scan_query) ! i) # ys
             \<longrightarrow> receiver (pipes (after_update scan_query) ! i) \<in> set xs))"
proof -
  let ?h = "after_update scan_query"
  have n: "length (nodes scan_query) = 3" "pipes ?h ! 0 = \<lparr>sender = 0, send_port = 0, send_state = Ready,
      receiver = 1, recv_port = 0, recv_state = Ready\<rparr>"
      "pipes ?h ! 1 = \<lparr>sender = 1, send_port = 0, send_state = Blocked, receiver = 2, recv_port = 0, recv_state = Ready\<rparr>"
      "length (pipes ?h) = 2"
    by code_simp+
  have keys: "set [0..<3] = {..<length (nodes scan_query)}"
    using n(1) by (simp add: atLeast0LessThan)
  have run: "update_all_states (node_update 1000) [0..<3] scan_query = Some (Inr ?h)"
    by code_simp
  have found: "find_runnable_subgraph ?h = Inr ({0, 1}, [0])"
    by code_simp
  have "\<forall>i \<in> subgraph_pipes ?h {0, 1}. pipe_ready ?h i"
    using n(2-4) by (auto simp: subgraph_pipes_def pipe_ready_def less_Suc_eq numeral_2_eq_2)
  then show ?thesis
    using found runnable_subgraph_starts [OF query_reachable(1) query_ported(1) keys run found, of "[0, 1]" 2] by simp
qed

text \<open>
  C34. Whether a phase starts can depend on the order of a hash set. In the reachable graph
  \<open>concat_query\<close> the multiplexer has a pipe into the union that is not ready, and the union is
  part of the subgraph. When the union is started, the multiplexer is counted as if the
  receiver of its other pipe had been started. With one order of the nodes of the subgraph it is
  started too early and the assertion in \<open>send_port\<close> panics, with another all nodes start.
\<close>

theorem premature_start:
  "reachable_graph 1000 concat_query
   \<and> update_all_states (node_update 1000) [0..<8] concat_query = Some (Inr (after_update concat_query))
   \<and> find_runnable_subgraph (after_update concat_query) = Inr ({0, 1, 2, 3, 4, 5}, [4, 1, 3, 0])
   \<and> run_subgraph (after_update concat_query) [0, 1, 2, 3, 4, 5] [4, 1, 3, 0] 2 = Inl Panic
   \<and> run_subgraph (after_update concat_query) [0, 1, 2, 3, 5, 4] [4, 1, 3, 0] 2 = Inr [4, 2, 1, 5, 3, 0]"
proof (intro conjI)
  show "reachable_graph 1000 concat_query"
    by (rule query_reachable)
  show "update_all_states (node_update 1000) [0..<8] concat_query = Some (Inr (after_update concat_query))"
    by code_simp
  show "find_runnable_subgraph (after_update concat_query) = Inr ({0, 1, 2, 3, 4, 5}, [4, 1, 3, 0])"
    by code_simp
  show "run_subgraph (after_update concat_query) [0, 1, 2, 3, 4, 5] [4, 1, 3, 0] 2 = Inl Panic"
    by code_simp
  show "run_subgraph (after_update concat_query) [0, 1, 2, 3, 5, 4] [4, 1, 3, 0] 2 = Inr [4, 2, 1, 5, 3, 0]"
    by code_simp
qed

end
