(* ===== verification/RowCells.thy ===== *)
theory RowCells
  imports Prelude
begin

section \<open>Row encoding: the bytes of one value\<close>

text \<open>
  The row format of \<open>polars-row\<close> writes one value of a column as a \<^emph>\<open>cell\<close>, a sequence of
  bytes such that comparing cells byte by byte compares the values. This theory holds the
  two kinds of cells and their decoders: values of a fixed length (\<open>fixed.rs\<close>: booleans,
  integers, floats) and byte strings (\<open>variable.rs\<close>: a sentinel and blocks of 32 bytes).

  The order on cells is \<open>bytes_less\<close>: the first byte in which two cells differ decides. It
  is stronger than the lexicographic order, since no cell counts as smaller for being a
  prefix, and for that reason it carries over to the concatenation of cells
  (\<open>bytes_less_append\<close>). For every kind of cell the theory shows that it decides exactly
  the order asked for by the field, and that decoding gives the value back.

  A float is its bit pattern.
\<close>

record encoding_field =
  descending :: bool
  nulls_last :: bool
  no_order :: bool

definition new_sorted :: "bool \<Rightarrow> bool \<Rightarrow> encoding_field" where
  "new_sorted desc nl = \<lparr>descending = desc, nulls_last = nl, no_order = False\<rparr>"

definition field_default :: encoding_field where
  "field_default = \<lparr>descending = False, nulls_last = False, no_order = False\<rparr>"

definition new_unsorted :: encoding_field where
  "new_unsorted = field_default\<lparr>no_order := True\<rparr>"

definition get_null_sentinel :: "encoding_field \<Rightarrow> u8" where
  "get_null_sentinel f = (if nulls_last f then 0xFF else 0)"

subsection \<open>Values of a fixed length\<close>

text \<open>The types with a fixed length; the number is the size of the integer in bytes.\<close>

datatype prim = PBool | PUInt nat | PInt nat | PF32 | PF64

fun prim_size :: "prim \<Rightarrow> nat" where
  "prim_size PBool = 1"
| "prim_size (PUInt n) = n"
| "prim_size (PInt n) = n"
| "prim_size PF32 = 4"
| "prim_size PF64 = 8"

definition encoded_len_of :: "prim \<Rightarrow> nat" where
  "encoded_len_of p = 1 + prim_size p"

fun to_be_bytes :: "nat \<Rightarrow> int \<Rightarrow> bytes" where
  "to_be_bytes 0 v = []"
| "to_be_bytes (Suc n) v = word_of_int (v div 256 ^ n) # to_be_bytes n v"

definition from_be_bytes :: "bytes \<Rightarrow> int" where
  "from_be_bytes bs = foldl (\<lambda>acc b. 256 * acc + uint b) 0 bs"

definition as_signed :: "nat \<Rightarrow> int \<Rightarrow> int" where
  "as_signed w v = (if v < 2 ^ (w - 1) then v else v - 2 ^ w)"

fun toggle_sign :: "bytes \<Rightarrow> bytes" where
  "toggle_sign [] = []"
| "toggle_sign (b # bs) = (b XOR 0x80) # bs"

definition canonical_f32 :: "int \<Rightarrow> int" where
  "canonical_f32 x =
     (let convert_zero = (if x = 0x80000000 then 0 else x) in
      if 0x7F800000 < convert_zero mod 2 ^ 31 then 0x7FC00000 else convert_zero)"

definition canonical_f64 :: "int \<Rightarrow> int" where
  "canonical_f64 x =
     (let convert_zero = (if x = 0x8000000000000000 then 0 else x) in
      if 0x7FF0000000000000 < convert_zero mod 2 ^ 63 then 0x7FF8000000000000
      else convert_zero)"

text \<open>The expression \<open>s ^ (((s >> (w - 1)) as u_w) >> 1) as i_w\<close> of the float encodings.\<close>

definition fold_sign :: "nat \<Rightarrow> int \<Rightarrow> int" where
  "fold_sign w s = s XOR ((s div 2 ^ (w - 1)) mod 2 ^ w div 2)"

fun encode :: "prim \<Rightarrow> int \<Rightarrow> bytes" where
  "encode PBool v = [if v = 0 then 0 else 1]"
| "encode (PUInt n) v = to_be_bytes n v"
| "encode (PInt n) v = toggle_sign (to_be_bytes n v)"
| "encode PF32 v = toggle_sign (to_be_bytes 4 (fold_sign 32 (as_signed 32 (canonical_f32 v))))"
| "encode PF64 v = toggle_sign (to_be_bytes 8 (fold_sign 64 (as_signed 64 (canonical_f64 v))))"

definition decode_int :: "nat \<Rightarrow> bytes \<Rightarrow> int" where
  "decode_int n bs = as_signed (8 * n) (from_be_bytes (toggle_sign bs))"

fun decode :: "prim \<Rightarrow> bytes \<Rightarrow> int" where
  "decode PBool bs = (if hd bs \<noteq> 0 then 1 else 0)"
| "decode (PUInt n) bs = from_be_bytes bs"
| "decode (PInt n) bs = decode_int n bs"
| "decode PF32 bs = fold_sign 32 (decode_int 4 bs) mod 2 ^ 32"
| "decode PF64 bs = fold_sign 64 (decode_int 8 bs) mod 2 ^ 64"

definition decode_reverse :: "prim \<Rightarrow> bytes \<Rightarrow> int" where
  "decode_reverse p bs = decode p (map (\<lambda>b. NOT b) bs)"

text \<open>The bytes that \<open>encode_value\<close> and the null branch of \<open>encode_iter\<close> write.\<close>

definition encode_value :: "prim \<Rightarrow> encoding_field \<Rightarrow> int \<Rightarrow> bytes" where
  "encode_value p f v =
     1 # (if descending f then map (\<lambda>b. NOT b) (encode p v) else encode p v)"

definition encode_opt :: "prim \<Rightarrow> encoding_field \<Rightarrow> int option \<Rightarrow> bytes" where
  "encode_opt p f x =
     (case x of Some v \<Rightarrow> encode_value p f v
      | None \<Rightarrow> get_null_sentinel f # replicate (encoded_len_of p - 1) 0)"

subsection \<open>Byte strings\<close>

definition BLOCK_SIZE :: nat where "BLOCK_SIZE = 32"
definition BLOCK_CONTINUATION_TOKEN :: u8 where "BLOCK_CONTINUATION_TOKEN = 0xFF"
definition EMPTY_SENTINEL :: u8 where "EMPTY_SENTINEL = 1"
definition NON_EMPTY_SENTINEL :: u8 where "NON_EMPTY_SENTINEL = 2"

definition ceil :: "nat \<Rightarrow> nat \<Rightarrow> nat" where
  "ceil v divisor = v div divisor + (if 0 \<noteq> v mod divisor then 1 else 0)"

definition padded_length :: "nat \<Rightarrow> nat" where
  "padded_length a = 1 + ceil a BLOCK_SIZE * (BLOCK_SIZE + 1)"

definition padded_length_opt :: "nat option \<Rightarrow> nat" where
  "padded_length_opt a = (case a of Some a \<Rightarrow> padded_length a | None \<Rightarrow> 1)"

definition length_opt :: "nat option \<Rightarrow> nat" where
  "length_opt a = (case a of Some a \<Rightarrow> 1 + a | None \<Rightarrow> 1)"

definition encoded_len :: "bytes option \<Rightarrow> encoding_field \<Rightarrow> nat" where
  "encoded_len a f =
     (if no_order f then length_opt (map_option length a)
      else padded_length_opt (map_option length a))"

definition encode_one_no_order :: "encoding_field \<Rightarrow> bytes option \<Rightarrow> bytes" where
  "encode_one_no_order f val =
     (case val of
        Some [] \<Rightarrow> [if descending f then NOT EMPTY_SENTINEL else EMPTY_SENTINEL]
      | Some v \<Rightarrow> NON_EMPTY_SENTINEL # v
      | None \<Rightarrow> [get_null_sentinel f])"

text \<open>
  The loop over the full blocks (\<open>chunks_exact\<close>), each followed by the continuation token,
  and then the end of the last block: with no remainder the last token is overwritten by
  the block length, otherwise a padded block with the length of the remainder follows.
\<close>

fun full_blocks :: "nat \<Rightarrow> bytes \<Rightarrow> bytes" where
  "full_blocks 0 v = []"
| "full_blocks (Suc k) v =
     take BLOCK_SIZE v @ [BLOCK_CONTINUATION_TOKEN] @ full_blocks k (drop BLOCK_SIZE v)"

definition encode_blocks :: "bytes \<Rightarrow> bytes" where
  "encode_blocks v =
     (let chunks = length v div BLOCK_SIZE;
          dst = full_blocks chunks v;
          src_remainder = drop (chunks * BLOCK_SIZE) v
      in if src_remainder = [] then butlast dst @ [of_nat BLOCK_SIZE]
         else dst @ src_remainder @ replicate (BLOCK_SIZE - length src_remainder) 0
                @ [of_nat (length src_remainder)])"

definition encode_one :: "encoding_field \<Rightarrow> bytes option \<Rightarrow> bytes" where
  "encode_one f val =
     (case val of
        Some [] \<Rightarrow> [if descending f then NOT EMPTY_SENTINEL else EMPTY_SENTINEL]
      | Some v \<Rightarrow>
          (let dst = NON_EMPTY_SENTINEL # encode_blocks v
           in if descending f then map (\<lambda>b. NOT b) dst else dst)
      | None \<Rightarrow> [get_null_sentinel f])"

text \<open>The cell that \<open>variable::encode_iter\<close> writes for one value.\<close>

definition encode_var :: "encoding_field \<Rightarrow> bytes option \<Rightarrow> bytes" where
  "encode_var f val = (if no_order f then encode_one_no_order f val else encode_one f val)"

subsection \<open>Decoding one value\<close>

text \<open>The decoders read the row without bounds checks: a read past its end is \<open>UB\<close>.\<close>

definition row_byte :: "bytes \<Rightarrow> nat \<Rightarrow> u8 res" where
  "row_byte row i = (if i < length row then Inr (row ! i) else Inl UB)"

definition row_slice :: "bytes \<Rightarrow> nat \<Rightarrow> nat \<Rightarrow> bytes res" where
  "row_slice row i n = (if i + n \<le> length row then Inr (take n (drop i row)) else Inl UB)"

definition row_rest :: "bytes \<Rightarrow> nat \<Rightarrow> bytes res" where
  "row_rest row i = (if i \<le> length row then Inr (drop i row) else Inl UB)"

text \<open>One row of \<open>decode_primitive\<close> and \<open>decode_bool\<close>: the value and the rest of the row.\<close>

definition decode_fixed :: "prim \<Rightarrow> encoding_field \<Rightarrow> bytes \<Rightarrow> (int option \<times> bytes) res" where
  "decode_fixed p f row =
     rbind (row_byte row 0) (\<lambda>b.
     rbind (row_slice row 1 (encoded_len_of p - 1)) (\<lambda>bs.
     rbind (row_rest row (encoded_len_of p)) (\<lambda>rest.
       let v = (if descending f then decode_reverse p bs else decode p bs)
       in Inr (if b = get_null_sentinel f then None else Some v, rest))))"

function decoded_len_loop :: "bytes \<Rightarrow> u8 \<Rightarrow> bool \<Rightarrow> nat \<Rightarrow> nat \<Rightarrow> nat res" where
  "decoded_len_loop row continuation_token desc str_len idx =
     (if idx + BLOCK_SIZE < length row then
        let sentinel = row ! (idx + BLOCK_SIZE) in
        if sentinel = continuation_token
        then decoded_len_loop row continuation_token desc (str_len + BLOCK_SIZE)
               (idx + BLOCK_SIZE + 1)
        else Inr (str_len + unat (if desc then NOT sentinel else sentinel))
      else Inl UB)"
  by pat_completeness auto
termination
  by (relation "measure (\<lambda>(row, _, _, _, idx). length row - idx)") auto

declare decoded_len_loop.simps [simp del]

definition decoded_len :: "bytes \<Rightarrow> u8 \<Rightarrow> u8 \<Rightarrow> bool \<Rightarrow> nat res" where
  "decoded_len row non_empty_sentinel continuation_token desc =
     rbind (row_byte row 0) (\<lambda>b.
       if b \<noteq> non_empty_sentinel then Inr 0
       else decoded_len_loop row continuation_token desc 0 1)"

text \<open>The loop that collects \<open>to_read\<close> bytes block by block from \<open>offset\<close>.\<close>

fun read_blocks :: "bytes \<Rightarrow> nat \<Rightarrow> nat \<Rightarrow> bytes \<Rightarrow> (bytes \<times> nat) res" where
  "read_blocks row to_read offset scratch =
     (if 32 \<le> to_read then
        rbind (row_slice row offset BLOCK_SIZE) (\<lambda>bs.
          read_blocks row (to_read - 32) (offset + BLOCK_SIZE + 1) (scratch @ bs))
      else if to_read \<noteq> 0 then
        rbind (row_slice row offset to_read) (\<lambda>bs.
          Inr (scratch @ bs, offset + BLOCK_SIZE + 1))
      else Inr (scratch, offset))"

declare read_blocks.simps [simp del]

text \<open>One row of \<open>decode_binary\<close> and \<open>decode_binview\<close>.\<close>

definition decode_var :: "encoding_field \<Rightarrow> bytes \<Rightarrow> (bytes option \<times> bytes) res" where
  "decode_var f row =
     (let (non_empty_sentinel, continuation_token) =
        (if descending f then (NOT NON_EMPTY_SENTINEL, NOT BLOCK_CONTINUATION_TOKEN)
         else (NON_EMPTY_SENTINEL, BLOCK_CONTINUATION_TOKEN))
      in rbind (row_byte row 0) (\<lambda>b.
         rbind (decoded_len row non_empty_sentinel continuation_token (descending f)) (\<lambda>str_len.
         rbind (read_blocks row str_len 1 []) (\<lambda>(scratch, offset).
         rbind (row_rest row offset) (\<lambda>rest.
           let v = (if descending f then map (\<lambda>b. NOT b) scratch else scratch)
           in Inr (if b = get_null_sentinel f then None else Some v, rest))))))"

subsection \<open>The order on cells\<close>

fun bytes_less :: "bytes \<Rightarrow> bytes \<Rightarrow> bool" where
  "bytes_less (x # xs) (y # ys) = (x < y \<or> x = y \<and> bytes_less xs ys)"
| "bytes_less _ _ = False"

lemma bytes_less_Nil [simp]: "\<not> bytes_less xs []"
  by (cases xs) auto

lemma bytes_less_irrefl [simp]: "\<not> bytes_less xs xs"
  by (induction xs) auto

lemma bytes_less_asym: "bytes_less xs ys \<Longrightarrow> \<not> bytes_less ys xs"
  by (induction xs ys rule: bytes_less.induct) auto

lemma bytes_less_append: "bytes_less xs ys \<Longrightarrow> bytes_less (xs @ us) (ys @ vs)"
  by (induction xs ys rule: bytes_less.induct) auto

lemma bytes_less_append_same [simp]: "bytes_less (xs @ us) (xs @ vs) = bytes_less us vs"
  by (induction xs) auto

lemma bytes_less_append_eq_length:
  "length xs = length ys \<Longrightarrow>
   bytes_less (xs @ us) (ys @ vs) = (bytes_less xs ys \<or> xs = ys \<and> bytes_less us vs)"
  by (induction xs ys rule: list_induct2) auto

lemma bytes_less_linear:
  "length xs = length ys \<Longrightarrow> bytes_less xs ys \<or> xs = ys \<or> bytes_less ys xs"
  by (induction xs ys rule: list_induct2) auto

lemma uint_not_u8: "uint (NOT (x :: u8)) = 255 - uint x"
proof -
  have u: "0 \<le> uint x" "uint x < 256"
    using uint_bounded [of x] by simp_all
  have "uint (NOT x) = (- uint x - 1) mod 256"
    by (simp add: unsigned_not_eq take_bit_eq_mod not_int_def)
  also have "\<dots> = 255 - uint x"
    by (rule int_mod_pos_eq [where q = "- 1"]) (use u in linarith)+
  finally show ?thesis .
qed

lemma not_mono_u8: "NOT x < NOT y \<longleftrightarrow> y < (x :: u8)"
  by (auto simp: word_less_def uint_not_u8)

lemma bytes_less_invert: "bytes_less (map (\<lambda>b. NOT b) xs) (map (\<lambda>b. NOT b) ys) = bytes_less ys xs"
  by (induction ys xs rule: bytes_less.induct) (auto simp: not_mono_u8)

lemma invert_invert [simp]: "map (\<lambda>b. NOT b) (map (\<lambda>b. NOT b) xs) = (xs :: bytes)"
  by (simp add: comp_def)

lemma invert_eq_iff [simp]:
  "map (\<lambda>b. NOT b) xs = map (\<lambda>b. NOT b) ys \<longleftrightarrow> xs = (ys :: bytes)"
  by (metis invert_invert)

subsection \<open>Arithmetic of the encodings\<close>

lemma xor_sign_u8: "(b :: u8) XOR 0x80 = b + 0x80"
proof -
  have e: "bit (0x80 :: u8) n \<longleftrightarrow> n = 7" for n
    using bit_exp_iff [where 'a = u8, of 7 n] by auto
  have add: "c XOR 0x80 = c + 0x80" if "\<not> bit c 7" for c :: u8
  proof -
    have "c + 0x80 = c OR 0x80"
      using that e by (intro disjunctive_add) metis
    also have "\<dots> = c XOR 0x80"
      using that by (intro bit_word_eqI) (metis e bit_or_iff bit_xor_iff)
    finally show ?thesis by simp
  qed
  show ?thesis
  proof (cases "bit b 7")
    case True
    have "\<not> bit (b XOR 0x80) 7"
      using True e by (metis bit_xor_iff)
    then have "(b XOR 0x80) XOR 0x80 = (b XOR 0x80) + 0x80"
      by (rule add)
    then have "b = (b XOR 0x80) + 0x80"
      by (simp add: xor.assoc)
    moreover have "y = x + 0x80 \<Longrightarrow> x = y + 0x80" for x y :: u8
      by (simp add: add.assoc)
    ultimately show ?thesis by blast
  qed (rule add)
qed

lemma xor_mask_int: 
  assumes a: "(0 :: int) \<le> a" "a < 2 ^ k" shows "a XOR (2 ^ k - 1) = 2 ^ k - 1 - a"
proof -
  have t: "take_bit k a = a" using a by (simp add: take_bit_int_eq_self)
  have hi: "bit a n \<Longrightarrow> n < k" for n
    using bit_take_bit_iff [of k a n] by (simp add: t)
  have "a + (a XOR mask k) = a OR (a XOR mask k)"
    by (rule disjunctive_add) (auto simp: bit_xor_iff bit_mask_iff dest: hi)
  also have "\<dots> = mask k"
    by (rule bit_eqI) (auto simp: bit_or_iff bit_xor_iff bit_mask_iff dest: hi)
  finally show ?thesis by (simp add: mask_eq_exp_minus_1)
qed

lemma xor_mask_neg:
  assumes "- (2 ^ k) \<le> s" and "s < (0 :: int)"
  shows "s XOR (2 ^ k - 1) = - 1 - (s + 2 ^ k)"
proof -
  have "NOT s XOR (2 ^ k - 1) = 2 ^ k - 1 - NOT s"
    using assms by (intro xor_mask_int) (simp_all add: not_int_def)
  then have "NOT (s XOR (2 ^ k - 1)) = 2 ^ k - 1 - NOT s"
    by (metis xor.commute bit.xor_compl_left)
  then have "NOT (NOT (s XOR (2 ^ k - 1))) = NOT (2 ^ k - 1 - NOT s)" by simp
  then show ?thesis by (simp add: not_int_def)
qed

lemma word_of_int_u8_mod: "(word_of_int v :: u8) = word_of_int (v mod 256)"
  using word_of_int_eq_iff [where 'a = 8] by (simp add: take_bit_eq_mod)

lemma word_of_int_less_u8:
  "0 \<le> a \<Longrightarrow> a < 256 \<Longrightarrow> 0 \<le> b \<Longrightarrow> b < 256 \<Longrightarrow>
   (word_of_int a :: u8) < word_of_int b \<longleftrightarrow> a < b"
  by (simp add: word_less_def uint_word_of_int)

lemma word_of_int_eq_u8:
  "0 \<le> a \<Longrightarrow> a < 256 \<Longrightarrow> 0 \<le> b \<Longrightarrow> b < 256 \<Longrightarrow>
   (word_of_int a :: u8) = word_of_int b \<longleftrightarrow> a = b"
  by (simp add: word_of_int_eq_iff take_bit_eq_mod)

lemma length_to_be_bytes [simp]: "length (to_be_bytes n v) = n"
  by (induction n) auto

lemma to_be_bytes_cong:
  "x mod 256 ^ n = y mod 256 ^ n \<Longrightarrow> to_be_bytes n x = to_be_bytes n y"
proof (induction n)
  case (Suc n)
  have "x div 256 ^ n mod 256 = x mod 256 ^ Suc n div 256 ^ n" for x :: int
    using zmod_zmult2_eq [of 256 x "256 ^ n"] by (simp add: mult.commute)
  moreover have "x mod 256 ^ n = x mod 256 ^ Suc n mod 256 ^ n" for x :: int
    by (simp add: mod_mod_cancel)
  ultimately show ?case
    using Suc word_of_int_u8_mod by (metis to_be_bytes.simps(2))
qed simp

lemma div_less_bound:
  assumes "0 < p" and "z < b * p"
  shows "z div p < (b :: int)"
proof (rule ccontr)
  assume "\<not> z div p < b"
  then have "p * b \<le> p * (z div p)"
    using assms(1) by simp
  also have "\<dots> \<le> z"
    using mult_div_mod_eq [of p z] pos_mod_sign [OF assms(1), of z] by linarith
  finally show False
    using assms(2) by (simp add: mult.commute)
qed

lemma less_by_div_mod:
  assumes p: "0 < (p :: int)"
  shows "x < y \<longleftrightarrow> x div p < y div p \<or> x div p = y div p \<and> x mod p < y mod p"
proof -
  have xy: "x = p * (x div p) + x mod p" "y = p * (y div p) + y mod p"
    by simp_all
  have "x div p \<le> y div p" if "x \<le> y"
    using that p by (rule zdiv_mono1)
  moreover have "y div p \<le> x div p" if "y \<le> x"
    using that p by (rule zdiv_mono1)
  ultimately show ?thesis
    using xy by (metis add_less_cancel_left linorder_not_less nle_le)
qed

lemma to_be_bytes_less:
  assumes "0 \<le> x" "x < 256 ^ n" "0 \<le> y" "y < 256 ^ n"
  shows "bytes_less (to_be_bytes n x) (to_be_bytes n y) \<longleftrightarrow> x < y"
  using assms
proof (induction n arbitrary: x y)
  case (Suc n)
  let ?p = "256 ^ n :: int"
  have top: "0 \<le> z div ?p" "z div ?p < 256" if "0 \<le> z" "z < 256 ^ Suc n" for z :: int
    using that by (auto simp: pos_imp_zdiv_nonneg_iff intro: div_less_bound)
  have low: "to_be_bytes n z = to_be_bytes n (z mod ?p)" for z
    by (rule to_be_bytes_cong) simp
  have "bytes_less (to_be_bytes n x) (to_be_bytes n y) \<longleftrightarrow> x mod ?p < y mod ?p"
    by (subst (1 2) low) (rule Suc.IH, simp_all)
  then show ?case
    using top [OF Suc.prems(1,2)] top [OF Suc.prems(3,4)] less_by_div_mod [of ?p x y]
    by (simp add: word_of_int_less_u8 word_of_int_eq_u8)
qed simp

lemma foldl_to_be_bytes:
  "foldl (\<lambda>acc b. 256 * acc + uint b) acc (to_be_bytes n v) = acc * 256 ^ n + v mod 256 ^ n"
proof (induction n arbitrary: acc)
  case (Suc n)
  have "v mod 256 ^ Suc n = 256 ^ n * (v div 256 ^ n mod 256) + v mod 256 ^ n"
    using zmod_zmult2_eq [of 256 v "256 ^ n"] by (simp add: mult.commute)
  then show ?case
    by (simp add: Suc uint_word_of_int) (simp add: algebra_simps)
qed simp

lemma from_to_be_bytes: "from_be_bytes (to_be_bytes n v) = v mod 256 ^ n"
  using foldl_to_be_bytes [of 0 n v] by (simp add: from_be_bytes_def)

lemma toggle_toggle [simp]: "toggle_sign (toggle_sign bs) = bs"
  by (cases bs) (simp_all add: xor.assoc)

lemma length_toggle_sign [simp]: "length (toggle_sign bs) = length bs"
  by (cases bs) auto

lemma toggle_to_be_bytes:
  "toggle_sign (to_be_bytes (Suc n) v) = to_be_bytes (Suc n) (v + 128 * 256 ^ n)"
proof -
  have "(v + 128 * 256 ^ n) div 256 ^ n = v div 256 ^ n + 128"
    by simp
  moreover have "to_be_bytes n v = to_be_bytes n (v + 128 * 256 ^ n)"
    by (rule to_be_bytes_cong) simp
  ultimately show ?thesis
    by (simp add: xor_sign_u8)
qed

subsection \<open>Cells of fixed length\<close>

text \<open>The values of a type, and the order on them: floats by value, with \<open>-0 = 0\<close> and NaN last.\<close>

fun prim_ok :: "prim \<Rightarrow> bool" where
  "prim_ok (PUInt n) = (n \<in> {1, 2, 4, 8})"
| "prim_ok (PInt n) = (n \<in> {1, 2, 4, 8, 16})"
| "prim_ok _ = True"

fun prim_value :: "prim \<Rightarrow> int \<Rightarrow> bool" where
  "prim_value PBool v = (v = 0 \<or> v = 1)"
| "prim_value (PUInt n) v = (0 \<le> v \<and> v < 256 ^ n)"
| "prim_value (PInt n) v = (- (128 * 256 ^ (n - 1)) \<le> v \<and> v < 128 * 256 ^ (n - 1))"
| "prim_value PF32 v = (0 \<le> v \<and> v < 2 ^ 32)"
| "prim_value PF64 v = (0 \<le> v \<and> v < 2 ^ 64)"

definition sign_magnitude :: "nat \<Rightarrow> int \<Rightarrow> int" where
  "sign_magnitude w b = (if b < 2 ^ (w - 1) then b else 2 ^ (w - 1) - b)"

fun prim_key :: "prim \<Rightarrow> int \<Rightarrow> int" where
  "prim_key PF32 v = sign_magnitude 32 (canonical_f32 v)"
| "prim_key PF64 v = sign_magnitude 64 (canonical_f64 v)"
| "prim_key _ v = v"

fun prim_canonical :: "prim \<Rightarrow> int \<Rightarrow> int" where
  "prim_canonical PF32 v = canonical_f32 v"
| "prim_canonical PF64 v = canonical_f64 v"
| "prim_canonical _ v = v"

lemma toggle_to_be_bytes_less:
  assumes "0 < n" "- (128 * 256 ^ (n - 1)) \<le> x" "x < 128 * 256 ^ (n - 1)"
    and "- (128 * 256 ^ (n - 1)) \<le> y" "y < 128 * 256 ^ (n - 1)"
  shows "bytes_less (toggle_sign (to_be_bytes n x)) (toggle_sign (to_be_bytes n y)) \<longleftrightarrow> x < y"
proof -
  obtain m where n: "n = Suc m"
    using assms(1) gr0_implies_Suc by auto
  show ?thesis
    using assms unfolding n toggle_to_be_bytes by (subst to_be_bytes_less) auto
qed

lemma decode_int_encode:
  assumes "0 < n" "- (128 * 256 ^ (n - 1)) \<le> x" "x < 128 * 256 ^ (n - 1)"
  shows "decode_int n (toggle_sign (to_be_bytes n x)) = x"
proof -
  obtain m where n: "n = Suc m"
    using assms(1) gr0_implies_Suc by auto
  have p: "(2 :: int) ^ (8 * n - 1) = 128 * 256 ^ m" "(2 :: int) ^ (8 * n) = 256 * 256 ^ m"
    unfolding n by (simp_all add: power_mult power_add)
  have "x mod (256 * 256 ^ m) = (if 0 \<le> x then x else x + 256 * 256 ^ m)"
    using assms unfolding n by (auto simp: mod_pos_pos_trivial intro!: int_mod_pos_eq [where q = "- 1"])
  then show ?thesis
    using assms unfolding decode_int_def as_signed_def p from_to_be_bytes toggle_toggle
    by (auto simp: n)
qed

lemma fold_sign_pos: "0 \<le> s \<Longrightarrow> s < 2 ^ (w - 1) \<Longrightarrow> fold_sign w s = s"
  by (simp add: fold_sign_def)

lemma fold_sign_neg:
  assumes "0 < w" "- (2 ^ (w - 1)) \<le> s" "s < 0"
  shows "fold_sign w s = - 1 - (s + 2 ^ (w - 1))"
proof -
  obtain k where w: "w = Suc k"
    using assms(1) gr0_implies_Suc by auto
  have d: "s div 2 ^ k = - 1"
    using assms by (intro int_div_pos_eq [where r = "s + 2 ^ k"]) (auto simp: w)
  have "(- 1 :: int) mod 2 ^ w = 2 ^ w - 1"
    by (rule zmod_minus1) simp
  then have "(- 1 :: int) mod 2 ^ w div 2 = 2 ^ k - 1"
    by (simp add: w)
  then show ?thesis
    using xor_mask_neg [of k s] assms by (simp add: fold_sign_def w d)
qed

definition float_ok :: "nat \<Rightarrow> int \<Rightarrow> bool" where
  "float_ok w b = (0 \<le> b \<and> b < 2 ^ w \<and> b \<noteq> 2 ^ (w - 1))"

lemma float_folded:
  assumes "0 < w" "float_ok w b"
  shows "fold_sign w (as_signed w b) = (if b < 2 ^ (w - 1) then b else - 1 - (b - 2 ^ (w - 1)))"
proof -
  have "(2 :: int) ^ w = 2 * 2 ^ (w - 1)"
    using assms(1) by (simp flip: power_Suc)
  then show ?thesis
    using assms by (auto simp: float_ok_def as_signed_def fold_sign_pos fold_sign_neg)
qed

lemma float_folded_range:
  assumes "0 < w" "float_ok w b"
  shows "- (2 ^ (w - 1)) \<le> fold_sign w (as_signed w b)" "fold_sign w (as_signed w b) < 2 ^ (w - 1)"
proof -
  have "(2 :: int) ^ w = 2 * 2 ^ (w - 1)"
    using assms(1) by (simp flip: power_Suc)
  then show "- (2 ^ (w - 1)) \<le> fold_sign w (as_signed w b)" "fold_sign w (as_signed w b) < 2 ^ (w - 1)"
    using assms by (auto simp: float_folded float_ok_def intro: order.strict_trans1)
qed

lemma float_folded_less:
  assumes "0 < w" "float_ok w b" "float_ok w c"
  shows "fold_sign w (as_signed w b) < fold_sign w (as_signed w c)
     \<longleftrightarrow> sign_magnitude w b < sign_magnitude w c"
  using assms by (auto simp: float_folded sign_magnitude_def float_ok_def)

lemma float_unfolded:
  assumes "0 < w" "float_ok w b"
  shows "fold_sign w (fold_sign w (as_signed w b)) mod 2 ^ w = b"
proof -
  have w: "(2 :: int) ^ w = 2 * 2 ^ (w - 1)"
    using assms(1) by (simp flip: power_Suc)
  show ?thesis
  proof (cases "b < 2 ^ (w - 1)")
    case True
    then show ?thesis
      using assms w by (simp add: float_folded fold_sign_pos float_ok_def)
  next
    case False
    then have "fold_sign w (fold_sign w (as_signed w b)) = b - 2 ^ w"
      using assms w by (simp add: float_folded float_ok_def fold_sign_neg)
    then show ?thesis
      using assms by (simp add: float_ok_def)
  qed
qed

lemma canonical_f32_ok: "0 \<le> v \<Longrightarrow> v < 2 ^ 32 \<Longrightarrow> float_ok 32 (canonical_f32 v)"
  by (auto simp: canonical_f32_def float_ok_def Let_def)

lemma canonical_f64_ok: "0 \<le> v \<Longrightarrow> v < 2 ^ 64 \<Longrightarrow> float_ok 64 (canonical_f64 v)"
  by (auto simp: canonical_f64_def float_ok_def Let_def)

lemma length_encode: "length (encode p v) = prim_size p"
  by (cases p) auto

lemma encode_float_less:
  assumes "0 < n" "float_ok (8 * n) b" "float_ok (8 * n) c"
  shows "bytes_less (toggle_sign (to_be_bytes n (fold_sign (8 * n) (as_signed (8 * n) b))))
           (toggle_sign (to_be_bytes n (fold_sign (8 * n) (as_signed (8 * n) c))))
     \<longleftrightarrow> sign_magnitude (8 * n) b < sign_magnitude (8 * n) c"
proof -
  have w: "0 < 8 * n" "(2 :: int) ^ (8 * n - 1) = 128 * 256 ^ (n - 1)"
    using assms(1) by (cases n; simp add: power_mult power_add)+
  show ?thesis
    unfolding float_folded_less [OF w(1) assms(2,3), symmetric]
    using float_folded_range [OF w(1) assms(2)] float_folded_range [OF w(1) assms(3)]
    by (intro toggle_to_be_bytes_less assms(1)) (simp_all only: w(2))
qed

lemma decode_float:
  assumes "0 < n" "float_ok (8 * n) b"
  shows "fold_sign (8 * n)
           (decode_int n (toggle_sign (to_be_bytes n (fold_sign (8 * n) (as_signed (8 * n) b)))))
         mod 2 ^ (8 * n) = b"
proof -
  have w: "0 < 8 * n" "(2 :: int) ^ (8 * n - 1) = 128 * 256 ^ (n - 1)"
    using assms(1) by (cases n; simp add: power_mult power_add)+
  have "decode_int n (toggle_sign (to_be_bytes n (fold_sign (8 * n) (as_signed (8 * n) b))))
      = fold_sign (8 * n) (as_signed (8 * n) b)"
    using float_folded_range [OF w(1) assms(2)] by (intro decode_int_encode assms(1)) (simp_all only: w(2))
  then show ?thesis
    by (simp only: float_unfolded [OF w(1) assms(2)])
qed

lemma encode_less:
  assumes "prim_ok p" "prim_value p x" "prim_value p y"
  shows "bytes_less (encode p x) (encode p y) \<longleftrightarrow> prim_key p x < prim_key p y"
proof (cases p)
  case PF32
  then show ?thesis
    using encode_float_less [of 4 "canonical_f32 x" "canonical_f32 y"] assms
    by (simp add: canonical_f32_ok)
next
  case PF64
  then show ?thesis
    using encode_float_less [of 8 "canonical_f64 x" "canonical_f64 y"] assms
    by (simp add: canonical_f64_ok)
next
  case (PInt n)
  moreover have "0 < n"
    using assms(1) PInt by auto
  ultimately show ?thesis
    using assms by (simp add: toggle_to_be_bytes_less)
qed (use assms in \<open>auto simp: to_be_bytes_less\<close>)

lemma encode_eq:
  assumes "prim_ok p" "prim_value p x" "prim_value p y"
  shows "encode p x = encode p y \<longleftrightarrow> prim_key p x = prim_key p y"
  using encode_less [OF assms] encode_less [OF assms(1,3,2)]
    bytes_less_linear [of "encode p x" "encode p y"] bytes_less_irrefl
  by (metis length_encode less_irrefl less_linear)

lemma decode_encode:
  assumes "prim_ok p" "prim_value p x"
  shows "decode p (encode p x) = prim_canonical p x"
proof (cases p)
  case PF32
  then show ?thesis
    using decode_float [of 4 "canonical_f32 x"] assms by (simp add: canonical_f32_ok)
next
  case PF64
  then show ?thesis
    using decode_float [of 8 "canonical_f64 x"] assms by (simp add: canonical_f64_ok)
next
  case (PInt n)
  moreover have "0 < n"
    using assms(1) PInt by auto
  ultimately show ?thesis
    using assms by (simp add: decode_int_encode)
qed (use assms in \<open>auto simp: from_to_be_bytes\<close>)

subsection \<open>Byte strings: the reference form of the blocks\<close>

fun lex_less :: "bytes \<Rightarrow> bytes \<Rightarrow> bool" where
  "lex_less [] (y # ys) = True"
| "lex_less xs [] = False"
| "lex_less (x # xs) (y # ys) = (x < y \<or> x = y \<and> lex_less xs ys)"

lemma lex_less_Nil1 [simp]: "lex_less [] ys \<longleftrightarrow> ys \<noteq> []"
  by (cases ys) auto

lemma lex_less_Nil2 [simp]: "\<not> lex_less xs []"
  by (cases xs) auto

lemma lex_less_linear: "lex_less a b \<or> a = b \<or> lex_less b a"
  by (induction a b rule: lex_less.induct) auto

lemma lex_less_irrefl [simp]: "\<not> lex_less a a"
  by (induction a) auto

lemma lex_less_asym: "lex_less a b \<Longrightarrow> \<not> lex_less b a"
  by (induction a b rule: lex_less.induct) auto

definition pad_to :: "nat \<Rightarrow> bytes \<Rightarrow> bytes" where
  "pad_to n v = take n (v @ replicate n 0)"

fun blocks :: "bytes \<Rightarrow> bytes" where
  "blocks v =
     (if length v \<le> 32 then pad_to 32 v @ [of_nat (length v)]
      else pad_to 32 v @ [0xFF] @ blocks (drop 32 v))"

declare blocks.simps [simp del]

lemma length_pad_to [simp]: "length (pad_to n v) = n"
  by (simp add: pad_to_def)

lemma pad_to_short: "length v \<le> n \<Longrightarrow> pad_to n v = v @ replicate (n - length v) 0"
  by (simp add: pad_to_def)

lemma pad_to_long: "n \<le> length v \<Longrightarrow> pad_to n v = take n v"
  by (simp add: pad_to_def)

lemma blocks_short: "length v \<le> 32 \<Longrightarrow> blocks v = pad_to 32 v @ [of_nat (length v)]"
  by (simp add: blocks.simps)

lemma blocks_long: "32 < length v \<Longrightarrow> blocks v = take 32 v @ 0xFF # blocks (drop 32 v)"
  by (subst blocks.simps) (simp add: pad_to_long)

lemma blocks_not_Nil: "blocks v \<noteq> []"
  by (subst blocks.simps) simp

lemma encode_blocks_eq: "v \<noteq> [] \<Longrightarrow> encode_blocks v = blocks v"
proof (induction v rule: blocks.induct)
  case (1 v)
  consider "length v < 32" | "length v = 32" | "32 < length v" by linarith
  then show ?case
  proof cases
    case 1
    then show ?thesis
      using \<open>v \<noteq> []\<close> by (simp add: encode_blocks_def BLOCK_SIZE_def blocks_short pad_to_short)
  next
    case 2
    then show ?thesis
      by (simp add: encode_blocks_def BLOCK_SIZE_def blocks_short pad_to_short butlast_append)
  next
    case 3
    define k where "k = length (drop 32 v) div 32"
    have k: "length v div 32 = Suc k"
      using 3 by (simp add: k_def)
    have k': "(length v - 32) div 32 = k"
      by (simp add: k_def)
    have IH: "encode_blocks (drop 32 v) = blocks (drop 32 v)"
      using 1 3 by simp
    have "encode_blocks v = take 32 v @ 0xFF # encode_blocks (drop 32 v)"
    proof (cases k)
      case 0
      then show ?thesis
        using 3 unfolding encode_blocks_def BLOCK_SIZE_def k
        by (simp add: k' BLOCK_SIZE_def BLOCK_CONTINUATION_TOKEN_def Let_def
            add.commute)
    next
      case (Suc j)
      then show ?thesis
        unfolding encode_blocks_def BLOCK_SIZE_def k
        by (simp add: k' BLOCK_SIZE_def BLOCK_CONTINUATION_TOKEN_def Let_def
            butlast_append add.commute)
    qed
    then show ?thesis
      using 3 by (simp add: blocks_long IH)
  qed
qed

lemma pad_to_Suc_Nil: "pad_to (Suc n) [] = 0 # pad_to n []"
  by (simp add: pad_to_def)

lemma pad_to_Suc_Cons: "pad_to (Suc n) (x # xs) = x # pad_to n xs"
  by (simp add: pad_to_def take_Cons' flip: replicate_append_same)

text \<open>The first block decides, or it is equal and the lengths or the other blocks decide.\<close>

lemma pad_to_less:
  assumes "lex_less a b"
  shows "bytes_less (pad_to n a) (pad_to n b) \<or>
         pad_to n a = pad_to n b \<and>
         (length a \<le> n \<and> length a < length b \<or>
          n < length a \<and> n < length b \<and> lex_less (drop n a) (drop n b))"
  using assms
proof (induction n arbitrary: a b)
  case 0
  then show ?case
    by (cases a; cases b) (auto simp: pad_to_def)
next
  case (Suc n)
  show ?case
  proof (cases a)
    case Nil
    then obtain y ys where b: "b = y # ys"
      using Suc.prems by (cases b) auto
    show ?thesis
      using Suc.IH [of "[]" ys] unfolding Nil b pad_to_Suc_Nil pad_to_Suc_Cons
      by (cases "ys = []") (auto simp: word_gt_0)
  next
    case (Cons x xs)
    then obtain y ys where b: "b = y # ys"
      using Suc.prems by (cases b) auto
    show ?thesis
      using Suc.IH [of xs ys] Suc.prems unfolding Cons b pad_to_Suc_Cons by auto
  qed
qed

lemma of_nat_less_u8: "a < b \<Longrightarrow> b < 256 \<Longrightarrow> (of_nat a :: u8) < of_nat b"
  by (simp add: word_less_nat_alt unat_of_nat)

lemma blocks_less: "lex_less a b \<Longrightarrow> bytes_less (blocks a) (blocks b)"
proof (induction a arbitrary: b rule: blocks.induct)
  case (1 a)
  show ?case
  proof (cases "bytes_less (pad_to 32 a) (pad_to 32 b)")
    case True
    then show ?thesis
      by (subst (1 2) blocks.simps) (auto intro: bytes_less_append)
  next
    case False
    note split = pad_to_less [OF "1.prems", of 32]
    show ?thesis
    proof (cases "length a \<le> 32")
      case a: True
      then have "(of_nat (length a) :: u8) < (if length b \<le> 32 then of_nat (length b) else 0xFF)"
        using split False of_nat_less_u8 [of "length a" "length b"] of_nat_less_u8 [of "length a" 255]
        by auto
      then show ?thesis
        using split False a by (subst (1 2) blocks.simps) (auto split: if_splits)
    next
      case a: False
      then show ?thesis
        using split False 1 by (subst (1 2) blocks.simps) auto
    qed
  qed
qed

lemma blocks_less_iff: "bytes_less (blocks a) (blocks b) \<longleftrightarrow> lex_less a b"
  using blocks_less lex_less_linear bytes_less_asym bytes_less_irrefl by metis

lemma blocks_eq_iff: "blocks a = blocks b \<longleftrightarrow> a = b"
  using blocks_less lex_less_linear bytes_less_irrefl by metis

lemma length_blocks:
  "v \<noteq> [] \<Longrightarrow> length (blocks v) = ceil (length v) BLOCK_SIZE * (BLOCK_SIZE + 1)"
proof (induction v rule: blocks.induct)
  case (1 v)
  show ?case
  proof (cases "length v \<le> 32")
    case True
    then show ?thesis
      using "1.prems" by (cases "length v = 32") (auto simp: blocks_short ceil_def BLOCK_SIZE_def)
  next
    case False
    define k where "k = length v - 32"
    have k: "length v = 32 + k" "length (drop 32 v) = k"
      using False by (simp_all add: k_def)
    have "(32 + k) div 32 = Suc (k div 32)"
      by simp
    then show ?thesis
      using 1 False by (simp add: blocks_long ceil_def BLOCK_SIZE_def k)
  qed
qed

subsection \<open>Byte strings: decoding\<close>

definition flip_if :: "bool \<Rightarrow> u8 \<Rightarrow> u8" where
  "flip_if d b = (if d then NOT b else b)"

lemma flip_if_flip_if [simp]: "flip_if d (flip_if d b) = b"
  by (simp add: flip_if_def)

lemma flip_if_eq_iff [simp]: "flip_if d a = flip_if d b \<longleftrightarrow> a = b"
  by (metis flip_if_flip_if)

lemma flip_if_unfold: "(if d then NOT b else b) = flip_if d b"
  by (simp add: flip_if_def)

lemma map_flip_if: "(if d then map (\<lambda>b. NOT b) bs else bs) = map (flip_if d) bs"
  by (simp add: flip_if_def cong: map_cong)

lemma map_flip_if_id [simp]: "map (flip_if d) (map (flip_if d) bs) = bs"
  by (simp add: comp_def)

lemma of_nat_not_token: "n \<le> 32 \<Longrightarrow> (of_nat n :: u8) \<noteq> 0xFF \<and> unat (of_nat n :: u8) = n"
  by (auto simp: unat_of_nat dest: arg_cong [of _ _ unat])

lemma decoded_len_blocks:
  "v \<noteq> [] \<Longrightarrow>
   decoded_len_loop (pre @ map (flip_if d) (blocks v) @ post) (flip_if d 0xFF) d n (length pre)
     = Inr (n + length v)"
proof (induction v arbitrary: pre n rule: blocks.induct)
  case (1 v)
  show ?case
  proof (cases "length v \<le> 32")
    case True
    then show ?thesis
      using of_nat_not_token [OF True]
      by (subst decoded_len_loop.simps)
        (auto simp: blocks_short BLOCK_SIZE_def nth_append flip_if_unfold)
  next
    case False
    let ?pre = "pre @ map (flip_if d) (take 32 v @ [0xFF])"
    have "decoded_len_loop (?pre @ map (flip_if d) (blocks (drop 32 v)) @ post) (flip_if d 0xFF) d
            (n + 32) (length ?pre) = Inr (n + 32 + length (drop 32 v))"
      using False by (intro "1.IH") auto
    then show ?thesis
      using False by (subst decoded_len_loop.simps) (simp add: blocks_long BLOCK_SIZE_def nth_append Let_def add.commute)
  qed
qed

lemma read_blocks_blocks:
  "v \<noteq> [] \<Longrightarrow>
   read_blocks (pre @ map (flip_if d) (blocks v) @ post) (length v) (length pre) acc
     = Inr (acc @ map (flip_if d) v, length pre + length (blocks v))"
proof (induction v arbitrary: pre acc rule: blocks.induct)
  case (1 v)
  consider "length v < 32" | "length v = 32" | "32 < length v" by linarith
  then show ?case
  proof cases
    case 1
    then show ?thesis
      using \<open>v \<noteq> []\<close> by (subst read_blocks.simps)
        (simp add: blocks_short pad_to_short BLOCK_SIZE_def row_slice_def)
  next
    case 2
    then show ?thesis
      by (subst read_blocks.simps, subst read_blocks.simps)
        (simp add: blocks_short pad_to_short BLOCK_SIZE_def row_slice_def)
  next
    case 3
    let ?pre = "pre @ map (flip_if d) (take 32 v @ [0xFF])"
    have "read_blocks (?pre @ map (flip_if d) (blocks (drop 32 v)) @ post) (length (drop 32 v))
            (length ?pre) (acc @ map (flip_if d) (take 32 v))
        = Inr ((acc @ map (flip_if d) (take 32 v)) @ map (flip_if d) (drop 32 v),
               length ?pre + length (blocks (drop 32 v)))"
      using 3 by (intro "1.IH") auto
    moreover have "map (flip_if d) v = map (flip_if d) (take 32 v) @ map (flip_if d) (drop 32 v)"
      by (metis append_take_drop_id map_append)
    ultimately show ?thesis
      using 3 by (subst read_blocks.simps)
        (simp add: blocks_long BLOCK_SIZE_def row_slice_def add.commute)
  qed
qed

lemma encode_one_Some:
  "v \<noteq> [] \<Longrightarrow> encode_one f (Some v) = map (flip_if (descending f)) (2 # blocks v)"
  by (cases v) (simp_all add: encode_one_def Let_def map_flip_if encode_blocks_eq
      NON_EMPTY_SENTINEL_def flip_if_def)

lemma encode_one_empty: "encode_one f (Some []) = [flip_if (descending f) 1]"
  by (simp add: encode_one_def flip_if_def EMPTY_SENTINEL_def)

lemma decode_encode_one_Some:
  assumes "v \<noteq> []"
  shows "decode_var f (encode_one f (Some v) @ rest) = Inr (Some v, rest)"
proof -
  let ?d = "descending f"
  let ?row = "map (flip_if ?d) (2 # blocks v) @ rest"
  have "decoded_len_loop ?row (flip_if ?d 0xFF) ?d 0 1 = Inr (length v)"
    using decoded_len_blocks [OF assms, of "[flip_if ?d 2]" ?d rest 0] by simp
  moreover have "read_blocks ?row (length v) 1 [] = Inr (map (flip_if ?d) v, 1 + length (blocks v))"
    using read_blocks_blocks [OF assms, of "[flip_if ?d 2]" ?d rest "[]"] by simp
  moreover have "flip_if ?d 2 \<noteq> get_null_sentinel f"
    by (simp add: flip_if_def get_null_sentinel_def)
  moreover have "(if ?d then (NOT 2, NOT 0xFF) else (2, 0xFF)) = (flip_if ?d 2, flip_if ?d 0xFF)"
    by (simp add: flip_if_def)
  ultimately show ?thesis
    unfolding decode_var_def encode_one_Some [OF assms] NON_EMPTY_SENTINEL_def
      BLOCK_CONTINUATION_TOKEN_def map_flip_if
    by (simp add: row_byte_def decoded_len_def row_rest_def comp_def)
qed

lemma decode_encode_one:
  "decode_var f (encode_one f x @ rest) = Inr (x, rest)"
proof (cases x)
  case None
  then show ?thesis
    by (simp add: decode_var_def encode_one_def row_byte_def decoded_len_def row_rest_def
        get_null_sentinel_def NON_EMPTY_SENTINEL_def read_blocks.simps Let_def)
next
  case (Some v)
  show ?thesis
  proof (cases "v = []")
    case True
    then show ?thesis
      by (simp add: Some decode_var_def encode_one_def row_byte_def decoded_len_def row_rest_def
        get_null_sentinel_def NON_EMPTY_SENTINEL_def EMPTY_SENTINEL_def read_blocks.simps Let_def)
  qed (simp add: Some decode_encode_one_Some)
qed

subsection \<open>The contract of a cell\<close>

text \<open>The order a field asks for: nulls at one end, and the values in one of the directions.\<close>

definition opt_less :: "('v \<Rightarrow> 'v \<Rightarrow> bool) \<Rightarrow> encoding_field \<Rightarrow> 'v option \<Rightarrow> 'v option \<Rightarrow> bool" where
  "opt_less lt f x y =
     (case (x, y) of
        (None, None) \<Rightarrow> False
      | (None, Some _) \<Rightarrow> \<not> nulls_last f
      | (Some _, None) \<Rightarrow> nulls_last f
      | (Some a, Some b) \<Rightarrow> if descending f then lt b a else lt a b)"

text \<open>
  What the row encoder relies on for every kind of column. A valid value never starts with
  one of the null sentinels, the first differing byte of two values decides their order, and
  the decoder reads a cell back and leaves what follows it.
\<close>

locale cell_format =
  fixes cell :: "encoding_field \<Rightarrow> 'v option \<Rightarrow> bytes"
    and read_cell :: "encoding_field \<Rightarrow> bytes \<Rightarrow> ('v option \<times> bytes) res"
    and valid :: "'v \<Rightarrow> bool"
    and lt :: "'v \<Rightarrow> 'v \<Rightarrow> bool"
    and canon :: "'v \<Rightarrow> 'v"
  assumes null_cell: "\<exists>pad. cell f None = get_null_sentinel f # pad"
    and value_cell: "\<not> no_order f \<Longrightarrow> valid a \<Longrightarrow>
      \<exists>b bs. cell f (Some a) = b # bs \<and> 0 < b \<and> b < 0xFF"
    and value_less: "\<not> no_order f \<Longrightarrow> valid a \<Longrightarrow> valid b \<Longrightarrow>
      bytes_less (cell f (Some a)) (cell f (Some b)) =
        (if descending f then lt b a else lt a b)"
    and value_linear: "\<not> no_order f \<Longrightarrow> valid a \<Longrightarrow> valid b \<Longrightarrow>
      bytes_less (cell f (Some a)) (cell f (Some b)) \<or> cell f (Some a) = cell f (Some b) \<or>
      bytes_less (cell f (Some b)) (cell f (Some a))"
    and read_null: "\<not> no_order f \<Longrightarrow> read_cell f (cell f None @ rest) = Inr (None, rest)"
    and read_value: "\<not> no_order f \<Longrightarrow> valid a \<Longrightarrow>
      read_cell f (cell f (Some a) @ rest) = Inr (Some (canon a), rest)"
begin

lemma cell_less:
  assumes f: "\<not> no_order f" and x: "pred_option valid x" and y: "pred_option valid y"
  shows "bytes_less (cell f x) (cell f y) = opt_less lt f x y"
proof -
  obtain pad where n: "cell f None = get_null_sentinel f # pad"
    using null_cell by blast
  have v: "bytes_less (cell f None) (cell f (Some a)) = (\<not> nulls_last f) \<and>
      bytes_less (cell f (Some a)) (cell f None) = nulls_last f" if a: "valid a" for a
    using value_cell [OF f a] by (auto simp: n get_null_sentinel_def)
  show ?thesis
    using x y v by (cases x; cases y) (auto simp: opt_less_def value_less f)
qed

lemma cell_linear:
  assumes f: "\<not> no_order f" and x: "pred_option valid x" and y: "pred_option valid y"
  shows "bytes_less (cell f x) (cell f y) \<or> cell f x = cell f y \<or> bytes_less (cell f y) (cell f x)"
proof (cases x; cases y)
  fix a b
  assume "x = Some a" "y = Some b"
  then show ?thesis
    using value_linear f x y by simp
qed (use assms in \<open>auto simp: cell_less opt_less_def\<close>)

lemma read_cell_cell:
  assumes "\<not> no_order f" and "pred_option valid x"
  shows "read_cell f (cell f x @ rest) = Inr (map_option canon x, rest)"
  using assms by (cases x) (simp_all add: read_null read_value)

end

lemma encode_value_flip: "encode_value p f v = 1 # map (flip_if (descending f)) (encode p v)"
  by (simp add: encode_value_def map_flip_if)

lemma length_encode_value [simp]: "length (encode_value p f v) = encoded_len_of p"
  by (simp add: encode_value_def encoded_len_of_def length_encode)

lemma length_encode_opt [simp]: "length (encode_opt p f x) = encoded_len_of p"
  by (simp add: encode_opt_def encoded_len_of_def length_encode split: option.splits)

lemma bytes_less_flip:
  "bytes_less (map (flip_if d) xs) (map (flip_if d) ys) = (if d then bytes_less ys xs else bytes_less xs ys)"
  using bytes_less_invert by (simp add: flip_if_def cong: map_cong)

lemma decode_fixed_value:
  assumes "prim_ok p" "prim_value p v"
  shows "decode_fixed p f (encode_value p f v @ rest) = Inr (Some (prim_canonical p v), rest)"
proof -
  have "(1 :: u8) \<noteq> get_null_sentinel f"
    by (simp add: get_null_sentinel_def)
  moreover have "(if descending f then decode_reverse p (map (flip_if (descending f)) (encode p v))
      else decode p (map (flip_if (descending f)) (encode p v))) = prim_canonical p v"
    using assms by (simp add: decode_reverse_def flip_if_def decode_encode comp_def cong: map_cong)
  ultimately show ?thesis
    by (simp add: decode_fixed_def encode_value_flip row_byte_def row_slice_def row_rest_def
        encoded_len_of_def length_encode Let_def)
qed

lemma decode_fixed_null:
  "decode_fixed p f (encode_opt p f None @ rest) = Inr (None, rest)"
  by (simp add: decode_fixed_def encode_opt_def row_byte_def row_slice_def row_rest_def
      encoded_len_of_def Let_def)

interpretation fixed_cell: cell_format "encode_opt p" "decode_fixed p"
  "\<lambda>v. prim_ok p \<and> prim_value p v" "\<lambda>a b. prim_key p a < prim_key p b" "prim_canonical p"
proof (unfold_locales, goal_cases)
  case (5 f rest)
  show ?case
    by (rule decode_fixed_null)
next
  case (4 f a b)
  then have "encode p a = encode p b \<longleftrightarrow> prim_key p a = prim_key p b"
    by (simp add: encode_eq)
  then show ?case
    using 4 by (auto simp: encode_opt_def encode_value_flip bytes_less_flip encode_less)
next
  case (6 f a rest)
  then show ?case
    by (simp add: encode_opt_def decode_fixed_value)
qed (auto simp: encode_opt_def encode_value_flip bytes_less_flip encode_less)

text \<open>Between byte strings the sentinel decides as soon as one of them is empty.\<close>

lemma encode_one_less:
  "bytes_less (encode_one f (Some a)) (encode_one f (Some b))
   = (if descending f then lex_less b a else lex_less a b)"
proof -
  have "flip_if (descending f) 1 < flip_if (descending f) 2 \<longleftrightarrow> \<not> descending f"
    "flip_if (descending f) 2 < flip_if (descending f) 1 \<longleftrightarrow> descending f"
    by (simp_all add: flip_if_def)
  then show ?thesis
    by (cases "a = []"; cases "b = []")
      (auto simp: encode_one_empty encode_one_Some bytes_less_flip blocks_less_iff simp del: flip_if_eq_iff)
qed

lemma encode_one_eq: "encode_one f (Some a) = encode_one f (Some b) \<longleftrightarrow> a = b"
  using decode_encode_one [of f "Some a" "[]"] decode_encode_one [of f "Some b" "[]"]
  by (metis Inr_inject Pair_inject option.inject)

interpretation var_cell: cell_format encode_var decode_var "\<lambda>_. True" lex_less "\<lambda>v. v"
proof (unfold_locales, goal_cases)
  case (1 f)
  then show ?case
    by (simp add: encode_var_def encode_one_def encode_one_no_order_def)
next
  case (2 f a)
  then show ?case
    by (cases "a = []") (auto simp: encode_var_def encode_one_Some encode_one_empty flip_if_def word_gt_0)
next
  case (4 f a b)
  then show ?case
    using lex_less_linear [of a b] by (auto simp: encode_var_def encode_one_less)
qed (auto simp: encode_var_def decode_encode_one encode_one_less)

end
