(* ===== verification/RowEncode.thy ===== *)
theory RowEncode
  imports RowCells
begin

section \<open>Row encoding: columns into rows\<close>

text \<open>
  The encoder of \<open>polars-row\<close> (\<open>encode.rs\<close>, \<open>row.rs\<close>) and its inverse (\<open>decode.rs\<close>).
  The columns are flattened into encoders, one pass over them computes the length of every
  row and lays the rows out in one uninitialised buffer, and then every column appends its
  cells to all rows, moving the offset of each row forward. The offsets are written shifted
  by one place (\<open>0, 0, l0, l0 + l1, ..\<close>), so that after the last column they are the ends
  of the rows.

  The buffer is raw memory: a write outside of it and a byte that is still uninitialised at
  the end are \<open>UB\<close>. Vectors may get more capacity than they ask for; \<open>extra\<close> is the surplus
  of an allocation of a given size. A byte of a buffer that is used again counts as
  uninitialised.

  The arrays keep what the encoder reads of them: the optional values of the leaves (a
  dictionary array and a binary array are both optional byte strings), the offsets and the
  validity of a list array, the validity of a struct array.
\<close>

datatype array =
    NullArr nat
  | FixedArr prim "int option list"
  | BinArr "bytes option list"
  | Utf8Arr "bytes option list"
  | LargeUtf8Arr "bytes option list"
  | StructArr "bool list" "array list"
  | ListArr "nat list" "bool list" array

fun arr_len :: "array \<Rightarrow> nat" where
  "arr_len (NullArr n) = n"
| "arr_len (FixedArr p xs) = length xs"
| "arr_len (BinArr xs) = length xs"
| "arr_len (Utf8Arr xs) = length xs"
| "arr_len (LargeUtf8Arr xs) = length xs"
| "arr_len (StructArr validity arrs) = length validity"
| "arr_len (ListArr offs validity a) = length offs - 1"

type_synonym row_array = "bytes \<times> nat list"

record rows_encoded =
  row_values :: "u8 memory"
  row_offsets :: "nat list"

text \<open>An encoder of a list: the inner encoders, the encoded inner rows, and the list array.\<close>

datatype encoder =
    EList "encoder list" "row_array option" "nat list" "bool list" encoding_field
  | ELeaf array

fun enc_len :: "encoder \<Rightarrow> nat" where
  "enc_len (EList enc rows offs validity fld) = length offs - 1"
| "enc_len (ELeaf arr) = arr_len arr"

fun is_variable :: "encoder \<Rightarrow> bool" where
  "is_variable (ELeaf (BinArr xs)) = True"
| "is_variable (ELeaf arr) = False"
| "is_variable (EList enc rows offs validity fld) = True"

subsection \<open>Lists\<close>

definition list_window :: "row_array \<Rightarrow> nat \<Rightarrow> nat \<Rightarrow> bytes res" where
  "list_window rows s e =
     (if s < length (snd rows) \<and> e < length (snd rows) then
        let start = snd rows ! s; finish = snd rows ! e in
        if start \<le> finish \<and> finish \<le> length (fst rows)
        then Inr (take (finish - start) (drop start (fst rows))) else Inl UB
      else Inl UB)"

definition list_item :: "row_array \<Rightarrow> (nat \<times> nat) \<times> bool \<Rightarrow> bytes option res" where
  "list_item rows w =
     (if snd w then rbind (list_window rows (fst (fst w)) (snd (fst w))) (\<lambda>bs. Inr (Some bs))
      else Inr None)"

fun list_iter :: "encoder \<Rightarrow> bytes option list res" where
  "list_iter (ELeaf arr) = Inl Panic"
| "list_iter (EList enc None offs validity fld) = Inl Panic"
| "list_iter (EList enc (Some rows) offs validity fld) =
     rmap (list_item rows) (zip (zip offs (tl offs)) validity)"

text \<open>
  For a struct with nulls the code combines the validity of the struct with that of each
  field, and passes it to \<open>with_validity\<close>, which returns a new array; that array is dropped
  and the field is encoded as it was.
\<close>

fun get_encoders :: "encoding_field \<Rightarrow> array \<Rightarrow> encoder list" where
  "get_encoders f (StructArr validity arrs) = concat (map (get_encoders f) arrs)"
| "get_encoders f (Utf8Arr xs) = [ELeaf (BinArr xs)]"
| "get_encoders f (ListArr offs validity a) = [EList (get_encoders f a) None offs validity f]"
| "get_encoders f arr = [ELeaf arr]"

subsection \<open>Writing a column\<close>

definition mem_write_bytes :: "u8 memory \<Rightarrow> nat \<Rightarrow> bytes \<Rightarrow> u8 memory res" where
  "mem_write_bytes m off bs =
     (if off + length bs \<le> length m
      then Inr (take off m @ map Some bs @ drop (off + length bs) m) else Inl UB)"

text \<open>The loop over the rows: \<open>out.offsets.iter_mut().skip(1).zip(input)\<close>.\<close>

fun write_rows :: "('v \<Rightarrow> bytes) \<Rightarrow> nat list \<Rightarrow> 'v list \<Rightarrow> u8 memory \<Rightarrow> (nat list \<times> u8 memory) res" where
  "write_rows cell (off # offs) (v # vs) m =
     rbind (mem_write_bytes m off (cell v)) (\<lambda>m.
     rbind (write_rows cell offs vs m) (\<lambda>(offs, m).
       Inr ((off + length (cell v)) # offs, m)))"
| "write_rows cell offs _ m = Inr (offs, m)"

definition write_column :: "('v \<Rightarrow> bytes) \<Rightarrow> 'v list \<Rightarrow> rows_encoded \<Rightarrow> rows_encoded res" where
  "write_column cell input out =
     rbind (write_rows cell (tl (row_offsets out)) input (row_values out)) (\<lambda>(offs, m).
       Inr \<lparr>row_values = m, row_offsets = take 1 (row_offsets out) @ offs\<rparr>)"

definition encode_slice :: "prim \<Rightarrow> encoding_field \<Rightarrow> int list \<Rightarrow> rows_encoded \<Rightarrow> rows_encoded res" where
  "encode_slice p f input out = write_column (encode_value p f) input out"

definition encode_iter_fixed ::
  "prim \<Rightarrow> encoding_field \<Rightarrow> int option list \<Rightarrow> rows_encoded \<Rightarrow> rows_encoded res" where
  "encode_iter_fixed p f input out = write_column (encode_opt p f) input out"

definition encode_iter_var ::
  "encoding_field \<Rightarrow> bytes option list \<Rightarrow> rows_encoded \<Rightarrow> rows_encoded res" where
  "encode_iter_var f input out =
     rbind (write_column (encode_var f) input out) (\<lambda>out.
       if row_offsets out = [] then Inl Panic
       else let off = last (row_offsets out) in
            rbind (mem_fill (row_values out) off (length (row_values out) - off) 0) (\<lambda>m.
              Inr (out\<lparr>row_values := m\<rparr>)))"

definition encode_primitive ::
  "prim \<Rightarrow> int option list \<Rightarrow> encoding_field \<Rightarrow> rows_encoded \<Rightarrow> rows_encoded res" where
  "encode_primitive p arr f out =
     (if None \<notin> set arr then encode_slice p f (map the arr) out
      else encode_iter_fixed p f arr out)"

fun encode_array :: "encoder \<Rightarrow> encoding_field \<Rightarrow> rows_encoded \<Rightarrow> rows_encoded res" where
  "encode_array (ELeaf (FixedArr PBool xs)) f out = encode_iter_fixed PBool f xs out"
| "encode_array (ELeaf (BinArr xs)) f out = encode_iter_var f xs out"
| "encode_array (ELeaf (FixedArr p xs)) f out = encode_primitive p xs f out"
| "encode_array (ELeaf _) f out = Inl Panic"
| "encode_array (EList enc rows offs validity fld) f out =
     rbind (list_iter (EList enc rows offs validity fld)) (\<lambda>vals.
       encode_iter_var new_unsorted vals out)"

fun encode_arrays :: "encoder list \<Rightarrow> encoding_field list \<Rightarrow> rows_encoded \<Rightarrow> rows_encoded res" where
  "encode_arrays (e # es) (f # fs) out = rbind (encode_array e f out) (encode_arrays es fs)"
| "encode_arrays _ _ out = Inr out"

subsection \<open>Laying out the rows\<close>

fun encoded_size :: "array \<Rightarrow> nat res" where
  "encoded_size (FixedArr p xs) = Inr (encoded_len_of p)"
| "encoded_size _ = Inl Panic"

fun row_size :: "encoder list \<Rightarrow> nat res" where
  "row_size [] = Inr 0"
| "row_size (e # es) =
     rbind (case e of ELeaf arr \<Rightarrow> if is_variable e then Inr 0 else encoded_size arr
            | EList _ _ _ _ _ \<Rightarrow> Inr 0) (\<lambda>n.
     rbind (row_size es) (\<lambda>m. Inr (n + m)))"

fun add_lengths :: "nat list \<Rightarrow> nat list \<Rightarrow> nat list" where
  "add_lengths (l # ls) (x # xs) = (l + x) # add_lengths ls xs"
| "add_lengths ls _ = ls"

definition var_lengths ::
  "nat \<Rightarrow> nat \<Rightarrow> encoding_field \<Rightarrow> bytes option list \<Rightarrow> nat \<Rightarrow> nat list \<Rightarrow> nat list res" where
  "var_lengths num_rows row_size_fixed f vals processed_count lengths =
     (if processed_count = 0 then
        if length lengths + length vals \<le> num_rows + 1
        then Inr (lengths @ map (\<lambda>x. row_size_fixed + encoded_len x f) vals) else Inl UB
      else Inr (add_lengths lengths (map (\<lambda>x. encoded_len x f) vals)))"

fun lag_offsets :: "nat list \<Rightarrow> nat \<Rightarrow> nat \<Rightarrow> nat list \<times> nat \<times> nat" where
  "lag_offsets [] lagged_offset current_offset = ([], lagged_offset, current_offset)"
| "lag_offsets (l # ls) lagged_offset current_offset =
     (let (offs, lagged, current) = lag_offsets ls current_offset (current_offset + l)
      in (lagged_offset # offs, lagged, current))"

fun push_offsets :: "nat \<Rightarrow> nat \<Rightarrow> nat \<Rightarrow> nat list" where
  "push_offsets 0 size1 current_offset = []"
| "push_offsets (Suc n) size1 current_offset =
     current_offset # push_offsets n size1 (current_offset + size1)"

definition new_values :: "(nat \<Rightarrow> nat) \<Rightarrow> nat \<Rightarrow> u8 memory" where
  "new_values extra n = replicate (n + extra n) None"

definition rows_to_array :: "bytes \<Rightarrow> nat list \<Rightarrow> row_array res" where
  "rows_to_array buf offs =
     (if offs \<noteq> [] \<and> int (last offs) < 0x7FFFFFFFFFFFFFFF then Inr (buf, offs) else Inl Panic)"

text \<open>
  Encoding columns whose rows are laid out: \<open>encode_array\<close> for every column, then \<open>set_len\<close>,
  which promises that the bytes are initialised.
\<close>

definition fill_rows ::
  "(nat \<Rightarrow> nat) \<Rightarrow> encoder list \<Rightarrow> encoding_field list \<Rightarrow> nat list \<Rightarrow> nat \<Rightarrow> row_array res" where
  "fill_rows extra es fs offs values_size =
     rbind (encode_arrays es fs \<lparr>row_values = new_values extra values_size, row_offsets = offs\<rparr>)
       (\<lambda>rows. rbind (mem_slice (row_values rows) 0 values_size) (\<lambda>bs.
         Inr (bs, row_offsets rows)))"

function (sequential)
  alloc_columns :: "(nat \<Rightarrow> nat) \<Rightarrow> nat \<Rightarrow> nat \<Rightarrow> encoder list \<Rightarrow> encoding_field list \<Rightarrow> nat \<Rightarrow>
    nat list \<Rightarrow> (encoder list \<times> nat list) res" and
  allocate_rows_buf :: "(nat \<Rightarrow> nat) \<Rightarrow> encoder list \<Rightarrow> encoding_field list \<Rightarrow>
    (encoder list \<times> nat list \<times> nat) res" where
  "alloc_columns extra num_rows fixed (EList inner rows offs validity fld # cs) (f # fs) done lengths =
     rbind (allocate_rows_buf extra inner (map (\<lambda>_. fld) inner)) (\<lambda>(inner, inner_offs, values_size).
     rbind (fill_rows extra inner (map (\<lambda>_. fld) inner) inner_offs values_size) (\<lambda>values_rows.
     rbind (rows_to_array (fst values_rows) (snd values_rows)) (\<lambda>values_rows.
       let enc = EList inner (Some values_rows) offs validity fld in
       rbind (list_iter enc) (\<lambda>vals.
       rbind (var_lengths num_rows fixed new_unsorted vals done lengths) (\<lambda>lengths.
       rbind (alloc_columns extra num_rows fixed cs fs (done + 1) lengths) (\<lambda>(cs, lengths).
         Inr (enc # cs, lengths)))))))"
| "alloc_columns extra num_rows fixed (ELeaf (BinArr xs) # cs) (f # fs) done lengths =
     rbind (var_lengths num_rows fixed f xs done lengths) (\<lambda>lengths.
     rbind (alloc_columns extra num_rows fixed cs fs (done + 1) lengths) (\<lambda>(cs, lengths).
       Inr (ELeaf (BinArr xs) # cs, lengths)))"
| "alloc_columns extra num_rows fixed (c # cs) (f # fs) done lengths =
     rbind (alloc_columns extra num_rows fixed cs fs done lengths) (\<lambda>(cs, lengths).
       Inr (c # cs, lengths))"
| "alloc_columns extra num_rows fixed cs _ done lengths = Inr (cs, lengths)"
| "allocate_rows_buf extra columns fs =
     (case columns of
        [] \<Rightarrow> Inl Panic
      | c # cs \<Rightarrow>
          if list_ex is_variable columns then
            rbind (row_size columns) (\<lambda>fixed.
            rbind (alloc_columns extra (enc_len c) fixed columns fs 0 []) (\<lambda>(columns, lengths).
              let (offs, lagged, current) = lag_offsets lengths 0 0
              in Inr (columns, offs @ [lagged], current)))
          else
            rbind (row_size columns) (\<lambda>size1.
              Inr (columns, 0 # push_offsets (enc_len c) size1 0, enc_len c * size1)))"
  by pat_completeness auto
termination
  by (relation "measure (\<lambda>x. case x of Inl (_, _, _, cs, _) \<Rightarrow> 2 * size_list size cs
        | Inr (_, cs, _) \<Rightarrow> Suc (2 * size_list size cs))") auto

declare alloc_columns.simps [simp del] allocate_rows_buf.simps [simp del]

subsection \<open>The conversions\<close>

fun needs_flatten :: "array \<Rightarrow> bool" where
  "needs_flatten (StructArr _ _) = True"
| "needs_flatten (Utf8Arr _) = True"
| "needs_flatten (ListArr _ _ _) = True"
| "needs_flatten _ = False"

fun flatten_columns :: "array list \<Rightarrow> encoding_field list \<Rightarrow> (encoder \<times> encoding_field) list" where
  "flatten_columns (arr # arrs) (f # fs) =
     map (\<lambda>e. (e, f)) (get_encoders f arr) @ flatten_columns arrs fs"
| "flatten_columns _ _ = []"

definition convert_columns_amortized ::
  "(nat \<Rightarrow> nat) \<Rightarrow> array list \<Rightarrow> encoding_field list \<Rightarrow> row_array res" where
  "convert_columns_amortized extra columns fs =
     (if length fs = length columns then
        if list_ex needs_flatten columns then
          let flat = flatten_columns columns fs; flattened_fields = map snd flat in
          rbind (allocate_rows_buf extra (map fst flat) flattened_fields) (\<lambda>(es, offs, values_size).
            fill_rows extra es flattened_fields offs values_size)
        else
          rbind (allocate_rows_buf extra (map ELeaf columns) fs) (\<lambda>(es, offs, values_size).
            fill_rows extra es fs offs values_size)
      else Inl Panic)"

definition convert_columns :: "(nat \<Rightarrow> nat) \<Rightarrow> array list \<Rightarrow> encoding_field list \<Rightarrow> row_array res" where
  "convert_columns extra columns fs = convert_columns_amortized extra columns fs"

definition convert_columns_no_order :: "(nat \<Rightarrow> nat) \<Rightarrow> array list \<Rightarrow> row_array res" where
  "convert_columns_no_order extra columns =
     convert_columns_amortized extra columns (replicate (length columns) field_default)"

text \<open>The iterator over the rows (\<open>RowsEncodedIter\<close>).\<close>

fun next_rows :: "bytes \<Rightarrow> nat \<Rightarrow> nat list \<Rightarrow> bytes list res" where
  "next_rows vals off [] = Inr []"
| "next_rows vals off (new_offset # ends) =
     (if off \<le> new_offset \<and> new_offset \<le> length vals then
        rbind (next_rows vals new_offset ends) (\<lambda>rest.
          Inr (take (new_offset - off) (drop off vals) # rest))
      else Inl UB)"

definition rows_iter :: "row_array \<Rightarrow> bytes list res" where
  "rows_iter rows =
     (case snd rows of [] \<Rightarrow> Inl Panic | off # ends \<Rightarrow> next_rows (fst rows) off ends)"

subsection \<open>Decoding\<close>

datatype row_dtype =
    DNull | DPrim prim | DBinary | DUtf8View | DLargeUtf8 | DStruct "row_dtype list" | DOther

fun decode_column :: "(bytes \<Rightarrow> ('v \<times> bytes) res) \<Rightarrow> bytes list \<Rightarrow> ('v list \<times> bytes list) res" where
  "decode_column dec [] = Inr ([], [])"
| "decode_column dec (row # rows) =
     rbind (dec row) (\<lambda>(v, rest).
     rbind (decode_column dec rows) (\<lambda>(vs, rests). Inr (v # vs, rest # rests)))"

definition decode_leaf ::
  "('v option list \<Rightarrow> array) \<Rightarrow> (bytes \<Rightarrow> ('v option \<times> bytes) res) \<Rightarrow> bytes list \<Rightarrow>
   (array \<times> bytes list) res" where
  "decode_leaf mk dec rows =
     rbind (decode_column dec rows) (\<lambda>(vals, rows). Inr (mk vals, rows))"

fun decode_dtype :: "encoding_field \<Rightarrow> row_dtype \<Rightarrow> bytes list \<Rightarrow> (array \<times> bytes list) res"
and decode_struct :: "encoding_field \<Rightarrow> row_dtype list \<Rightarrow> bytes list \<Rightarrow> (array list \<times> bytes list) res" where
  "decode_dtype f DNull rows = Inr (NullArr (length rows), rows)"
| "decode_dtype f (DPrim p) rows = decode_leaf (FixedArr p) (decode_fixed p f) rows"
| "decode_dtype f DBinary rows = decode_leaf BinArr (decode_var f) rows"
| "decode_dtype f DUtf8View rows = decode_leaf Utf8Arr (decode_var f) rows"
| "decode_dtype f DLargeUtf8 rows = decode_leaf LargeUtf8Arr (decode_var f) rows"
| "decode_dtype f (DStruct flds) rows =
     rbind (decode_struct f flds rows) (\<lambda>(arrs, rest).
       Inr (StructArr (replicate (length rows) True) arrs, rest))"
| "decode_dtype f DOther rows = Inl Panic"
| "decode_struct f [] rows = Inr ([], rows)"
| "decode_struct f (d # ds) rows =
     rbind (decode_dtype f d rows) (\<lambda>(arr, rows).
     rbind (decode_struct f ds rows) (\<lambda>(arrs, rows). Inr (arr # arrs, rows)))"

fun decode_columns :: "encoding_field list \<Rightarrow> row_dtype list \<Rightarrow> bytes list \<Rightarrow> array list res" where
  "decode_columns (f # fs) (d # ds) rows =
     rbind (decode_dtype f d rows) (\<lambda>(arr, rows).
     rbind (decode_columns fs ds rows) (\<lambda>arrs. Inr (arr # arrs)))"
| "decode_columns _ _ rows = Inr []"

definition decode_rows :: "bytes list \<Rightarrow> encoding_field list \<Rightarrow> row_dtype list \<Rightarrow> array list res" where
  "decode_rows rows fs ds =
     assert_that (length fs = length ds) (decode_columns fs ds rows)"

definition decode_rows_from_binary ::
  "row_array \<Rightarrow> encoding_field list \<Rightarrow> row_dtype list \<Rightarrow> array list res" where
  "decode_rows_from_binary arr fs ds = rbind (rows_iter arr) (\<lambda>rows. decode_rows rows fs ds)"

end
