(* ===== verification/RowLayout.thy ===== *)
theory RowLayout
  imports RowEncode
begin

section \<open>Row encoding: the layout of the rows\<close>

text \<open>
  The buffer of the encoder, as what it is meant to hold: a sequence of rows, each with the
  bytes written so far and the room left for the columns to come (\<open>rows_hold\<close>). Every column
  appends its cells and takes exactly its share of the room, so that writes stay inside the
  row, rows do not overwrite each other, and no room is left after the last column. The
  result is that the encoder returns the concatenation of the cells of each row
  (\<open>convert_flat\<close>), for lists recursively.
\<close>

subsection \<open>The cells of an encoder\<close>

definition rows_of :: "nat \<Rightarrow> bytes list list \<Rightarrow> bytes list" where
  "rows_of n css = map (\<lambda>i. concat (map (\<lambda>cs. cs ! i) css)) [0..<n]"

definition list_values :: "bytes list \<Rightarrow> nat list \<Rightarrow> bool list \<Rightarrow> bytes option list" where
  "list_values rws offs validity =
     map (\<lambda>((s, e), v). if v then Some (concat (take (e - s) (drop s rws))) else None)
       (zip (zip offs (tl offs)) validity)"

fun cells :: "encoder \<Rightarrow> encoding_field \<Rightarrow> bytes list" where
  "cells (ELeaf (FixedArr p xs)) f = map (encode_opt p f) xs"
| "cells (ELeaf (BinArr xs)) f = map (encode_var f) xs"
| "cells (ELeaf _) f = []"
| "cells (EList inner _ offs validity fld) f =
     map (encode_var new_unsorted)
       (list_values (rows_of (enc_len (hd inner)) (map (\<lambda>e. cells e fld) inner)) offs validity)"

text \<open>
  A list array is well formed when its offsets are monotone and inside its values. The last
  condition is that the encoded values of a list stay below the limit of a binary array.
\<close>

fun wf_enc :: "nat \<Rightarrow> encoder \<Rightarrow> bool" where
  "wf_enc n (ELeaf (FixedArr p xs)) = (length xs = n)"
| "wf_enc n (ELeaf (BinArr xs)) = (length xs = n)"
| "wf_enc n (ELeaf _) = False"
| "wf_enc n (EList inner _ offs validity fld) =
     (length offs = Suc n \<and> length validity = n \<and> sorted offs \<and> inner \<noteq> [] \<and>
      last offs \<le> enc_len (hd inner) \<and>
      (\<forall>e \<in> set inner. wf_enc (enc_len (hd inner)) e) \<and>
      int (length (concat (rows_of (enc_len (hd inner)) (map (\<lambda>e. cells e fld) inner))))
        < 0x7FFFFFFFFFFFFFFF)"

lemma wf_enc_len: "wf_enc n e \<Longrightarrow> enc_len e = n"
  by (induction n e rule: wf_enc.induct) auto

lemma length_cells: "wf_enc n e \<Longrightarrow> length (cells e f) = n"
  by (induction n e rule: wf_enc.induct) (auto simp: list_values_def)

lemma length_rows_of [simp]: "length (rows_of n css) = n"
  by (simp add: rows_of_def)

subsection \<open>Segments\<close>

definition seg_mem :: "(bytes \<times> u8 memory) list \<Rightarrow> u8 memory" where
  "seg_mem segs = concat (map (\<lambda>(d, r). map Some d @ r) segs)"

fun ends_from :: "nat \<Rightarrow> (bytes \<times> u8 memory) list \<Rightarrow> nat list" where
  "ends_from b [] = []"
| "ends_from b ((d, r) # segs) = (b + length d) # ends_from (b + length d + length r) segs"

definition put :: "('v \<Rightarrow> bytes) \<Rightarrow> (bytes \<times> u8 memory) list \<Rightarrow> 'v list \<Rightarrow> (bytes \<times> u8 memory) list" where
  "put cell segs vs = map2 (\<lambda>(d, r) v. (d @ cell v, drop (length (cell v)) r)) segs vs"

lemma seg_mem_simps [simp]:
  "seg_mem [] = []"
  "seg_mem ((d, r) # segs) = map Some d @ r @ seg_mem segs"
  "seg_mem (segs @ segs') = seg_mem segs @ seg_mem segs'"
  by (simp_all add: seg_mem_def)

lemma put_simps [simp]:
  "put cell [] vs = []"
  "put cell segs [] = []"
  "put cell ((d, r) # segs) (v # vs) = (d @ cell v, drop (length (cell v)) r) # put cell segs vs"
  by (simp_all add: put_def)

lemma ends_from_append:
  "ends_from b (segs @ segs') = ends_from b segs @ ends_from (b + length (seg_mem segs)) segs'"
  by (induction b segs rule: ends_from.induct) (auto simp: add.assoc)

lemma write_rows_put:
  assumes "list_all2 (\<lambda>(d, r) v. length (cell v) \<le> length r) segs vs"
  shows "write_rows cell (ends_from (length pre) segs) vs (pre @ seg_mem segs @ post)
       = Inr (ends_from (length pre) (put cell segs vs), pre @ seg_mem (put cell segs vs) @ post)"
  using assms
proof (induction segs vs arbitrary: pre rule: list_all2_induct)
  case (Cons seg segs v vs)
  obtain d r where seg: "seg = (d, r)" by (cases seg)
  let ?c = "cell v" and ?pre = "pre @ map Some d @ map Some (cell v) @ drop (length (cell v)) r"
  have le: "length ?c \<le> length r"
    using Cons.hyps(1) seg by simp
  have "mem_write_bytes (pre @ seg_mem (seg # segs) @ post) (length pre + length d) ?c
      = Inr (?pre @ seg_mem segs @ post)"
    using le by (simp add: seg mem_write_bytes_def)
  moreover have "length ?pre = length pre + length d + length r"
    using le by simp
  ultimately show ?case
    using Cons.IH [of ?pre] le by (simp add: seg add.assoc)
qed simp

subsection \<open>What the buffer holds\<close>

text \<open>The rows hold \<open>ds\<close>, have room for \<open>rs\<close> more bytes, and \<open>e\<close> bytes of capacity follow.\<close>

definition rows_hold :: "bytes list \<Rightarrow> nat list \<Rightarrow> nat \<Rightarrow> rows_encoded \<Rightarrow> bool" where
  "rows_hold ds rs e out =
     (\<exists>segs post. map fst segs = ds \<and> map (\<lambda>s. length (snd s)) segs = rs \<and> length post = e \<and>
        row_values out = seg_mem segs @ post \<and> row_offsets out = 0 # ends_from 0 segs)"

lemma put_fst: "length segs = length vs \<Longrightarrow> map fst (put cell segs vs) = map2 (@) (map fst segs) (map cell vs)"
  by (induction segs vs rule: list_induct2) auto

lemma put_snd:
  "length segs = length vs \<Longrightarrow>
   map (\<lambda>s. length (snd s)) (put cell segs vs)
     = map2 (\<lambda>r c. r - length c) (map (\<lambda>s. length (snd s)) segs) (map cell vs)"
  by (induction segs vs rule: list_induct2) auto

lemma write_column_holds:
  assumes hold: "rows_hold ds rs e out"
    and room: "list_all2 (\<lambda>r x. length (cell x) \<le> r) rs input"
  shows "\<exists>out'. write_column cell input out = Inr out' \<and>
    rows_hold (map2 (@) ds (map cell input)) (map2 (\<lambda>r c. r - length c) rs (map cell input)) e out'"
proof -
  obtain segs post where o: "map fst segs = ds" "map (\<lambda>s. length (snd s)) segs = rs" "length post = e"
    "row_values out = seg_mem segs @ post" "row_offsets out = 0 # ends_from 0 segs"
    using hold by (auto simp: rows_hold_def)
  have "list_all2 (\<lambda>(d, r) v. length (cell v) \<le> length r) segs input"
    using room unfolding o(2) [symmetric] by (simp add: list_all2_conv_all_nth split_def)
  moreover from this have "length segs = length input"
    by (rule list_all2_lengthD)
  ultimately show ?thesis
    using write_rows_put [of cell segs input "[]" post] o
    by (auto simp: write_column_def rows_hold_def put_fst put_snd
        intro!: exI [of _ "put cell segs input"] exI [of _ post])
qed

lemma fill_rest_holds:
  assumes hold: "rows_hold ds rs e out"
  shows "\<exists>m. mem_fill (row_values out) (last (row_offsets out))
      (length (row_values out) - last (row_offsets out)) 0 = Inr m \<and>
    rows_hold ds rs e (out\<lparr>row_values := m\<rparr>)"
proof -
  obtain segs post where o: "map fst segs = ds" "map (\<lambda>s. length (snd s)) segs = rs" "length post = e"
    "row_values out = seg_mem segs @ post" "row_offsets out = 0 # ends_from 0 segs"
    using hold by (auto simp: rows_hold_def)
  show ?thesis
  proof (cases segs rule: rev_cases)
    case Nil
    then show ?thesis
      using o by (auto simp: mem_fill_def rows_hold_def intro: exI [of _ "replicate e (Some 0)"])
  next
    case (snoc ss s)
    obtain d r where s: "s = (d, r)" by (cases s)
    let ?segs = "ss @ [(d, replicate (length r) (Some 0))]"
    have "last (row_offsets out) = length (seg_mem ss) + length d"
      by (simp add: o(5) snoc s ends_from_append)
    then have "mem_fill (row_values out) (last (row_offsets out))
        (length (row_values out) - last (row_offsets out)) 0
      = Inr (seg_mem ?segs @ replicate e (Some 0))"
      using o(3) by (simp add: mem_fill_def o(4) snoc s replicate_add)
    moreover have "rows_hold ds rs e (out\<lparr>row_values := seg_mem ?segs @ replicate e (Some 0)\<rparr>)"
      unfolding rows_hold_def using o(1,2,5) snoc s
      by (intro exI [of _ ?segs] exI [of _ "replicate e (Some 0)"]) (simp add: ends_from_append)
    ultimately show ?thesis by blast
  qed
qed

lemma encode_iter_var_holds:
  assumes "rows_hold ds rs e out" and "list_all2 (\<lambda>r x. length (encode_var f x) \<le> r) rs input"
  shows "\<exists>out'. encode_iter_var f input out = Inr out' \<and>
    rows_hold (map2 (@) ds (map (encode_var f) input))
      (map2 (\<lambda>r c. r - length c) rs (map (encode_var f) input)) e out'"
proof -
  obtain out1 where "write_column (encode_var f) input out = Inr out1"
    and hold: "rows_hold (map2 (@) ds (map (encode_var f) input))
      (map2 (\<lambda>r c. r - length c) rs (map (encode_var f) input)) e out1"
    using write_column_holds [OF assms] by blast
  moreover from hold have "row_offsets out1 \<noteq> []"
    by (auto simp: rows_hold_def)
  ultimately show ?thesis
    using fill_rest_holds [OF hold] by (auto simp: encode_iter_var_def Let_def)
qed

subsection \<open>One column\<close>

text \<open>The encoder of a list after the allocation: its inner rows are encoded.\<close>

fun prepared :: "encoder \<Rightarrow> encoder \<Rightarrow> bool" where
  "prepared (ELeaf arr) e' = (e' = ELeaf arr)"
| "prepared (EList inner rows offs validity fld) e' =
     (case e' of ELeaf _ \<Rightarrow> False
      | EList _ _ _ _ _ \<Rightarrow> list_iter e' = Inr (list_values
          (rows_of (enc_len (hd inner)) (map (\<lambda>e. cells e fld) inner)) offs validity))"

lemma encode_primitive_cells:
  "encode_primitive p xs f out = write_column (encode_opt p f) xs out"
proof (cases "None \<in> set xs")
  case True
  then show ?thesis
    by (simp add: encode_primitive_def encode_iter_fixed_def)
next
  case False
  have "write_rows (encode_value p f) offs (map the xs) m = write_rows (encode_opt p f) offs xs m"
    for offs m
    using False
  proof (induction xs arbitrary: offs m)
    case (Cons x xs)
    then show ?case
      by (cases offs; cases x) (auto simp: encode_opt_def)
  qed (cases offs; simp)
  then show ?thesis
    using False by (simp add: encode_primitive_def encode_slice_def write_column_def)
qed

lemma encode_array_holds:
  assumes "prepared e e'" "wf_enc n e" "rows_hold ds rs k out"
    and "list_all2 (\<lambda>r c. length c \<le> r) rs (cells e f)"
  shows "\<exists>out'. encode_array e' f out = Inr out' \<and>
    rows_hold (map2 (@) ds (cells e f)) (map2 (\<lambda>r c. r - length c) rs (cells e f)) k out'"
proof (cases "(n, e)" rule: wf_enc.cases)
  case (1 n' p xs)
  then have "encode_array e' f out = write_column (encode_opt p f) xs out"
    using assms(1) by (cases p) (simp_all add: encode_primitive_cells encode_iter_fixed_def)
  then show ?thesis
    using write_column_holds [OF assms(3), of "encode_opt p f" xs] assms(4) 1
    by (simp add: list_all2_map2 del: length_encode_opt)
next
  case (2 n' xs)
  then show ?thesis
    using encode_iter_var_holds [OF assms(3), of f xs] assms(1,4) by (simp add: list_all2_map2)
next
  case (4 n' inner rows offs validity fld)
  let ?vals = "list_values (rows_of (enc_len (hd inner)) (map (\<lambda>e. cells e fld) inner)) offs validity"
  have "encode_array e' f out = encode_iter_var new_unsorted ?vals out"
    using assms(1) 4 by (cases e') auto
  then show ?thesis
    using encode_iter_var_holds [OF assms(3), of new_unsorted ?vals] assms(4) 4
    by (simp add: list_all2_map2)
qed (use assms(2) in auto)

subsection \<open>All columns\<close>

definition row_lengths :: "nat \<Rightarrow> bytes list list \<Rightarrow> nat list" where
  "row_lengths n css = map (\<lambda>i. \<Sum>cs\<leftarrow>css. length (cs ! i)) [0..<n]"

lemma row_lengths_rows_of: "row_lengths n css = map length (rows_of n css)"
  by (simp add: row_lengths_def rows_of_def length_concat comp_def)

lemma row_lengths_Cons:
  "length cs = n \<Longrightarrow>
   map2 (\<lambda>r c. r - length c) (row_lengths n (cs # css)) cs = row_lengths n css"
  by (rule nth_equalityI) (simp_all add: row_lengths_def)

lemma rows_of_Cons:
  "length cs = n \<Longrightarrow> length ds = n \<Longrightarrow>
   map2 (@) (map2 (@) ds cs) (rows_of n css) = map2 (@) ds (rows_of n (cs # css))"
  by (rule nth_equalityI) (simp_all add: rows_of_def)

lemma encode_arrays_hold:
  assumes "list_all2 prepared es es'" and "\<forall>e \<in> set es. wf_enc n e" and "length fs = length es"
    and "length ds = n" and "rows_hold ds (row_lengths n (map2 cells es fs)) k out"
  shows "\<exists>out'. encode_arrays es' fs out = Inr out' \<and>
    rows_hold (map2 (@) ds (rows_of n (map2 cells es fs))) (replicate n 0) k out'"
  using assms
proof (induction es es' arbitrary: fs ds out rule: list_all2_induct)
  case Nil
  have "map2 (@) ds (rows_of n []) = ds"
    using Nil.prems(3) by (intro nth_equalityI) (simp_all add: rows_of_def)
  then show ?case
    using Nil by (simp add: row_lengths_def map_replicate_const)
next
  case (Cons e es e' es')
  then obtain f fs' where fs: "fs = f # fs'"
    by (cases fs) auto
  have len: "length (cells e f) = n"
    using Cons.prems(1) length_cells by simp
  let ?css = "map2 cells es fs'"
  have room: "list_all2 (\<lambda>r c. length c \<le> r) (row_lengths n (cells e f # ?css)) (cells e f)"
    using len by (simp add: list_all2_conv_all_nth row_lengths_def)
  have wf: "wf_enc n e" and start: "rows_hold ds (row_lengths n (cells e f # ?css)) k out"
    using Cons.prems fs by simp_all
  obtain out1 where out1: "encode_array e' f out = Inr out1"
    and hold: "rows_hold (map2 (@) ds (cells e f)) (row_lengths n ?css) k out1"
    using encode_array_holds [OF Cons.hyps(1) wf start room] row_lengths_Cons [OF len, of ?css]
    by auto
  have "\<exists>out'. encode_arrays es' fs' out1 = Inr out' \<and>
      rows_hold (map2 (@) (map2 (@) ds (cells e f)) (rows_of n ?css)) (replicate n 0) k out'"
    using Cons.prems fs len hold by (intro Cons.IH) simp_all
  then show ?case
    using out1 fs len Cons.prems(3) by (simp add: rows_of_Cons)
qed

text \<open>A finished buffer: the rows one after the other, and where each of them ends.\<close>

fun sums_from :: "nat \<Rightarrow> nat list \<Rightarrow> nat list" where
  "sums_from b [] = []"
| "sums_from b (l # ls) = (b + l) # sums_from (b + l) ls"

fun starts_from :: "nat \<Rightarrow> nat list \<Rightarrow> nat list" where
  "starts_from b [] = []"
| "starts_from b (l # ls) = b # starts_from (b + l) ls"

definition row_array_of :: "bytes list \<Rightarrow> row_array" where
  "row_array_of rws = (concat rws, 0 # sums_from 0 (map length rws))"

lemma rows_hold_done:
  assumes "rows_hold ds (replicate n 0) k out"
  shows "mem_slice (row_values out) 0 (length (concat ds)) = Inr (concat ds)"
    and "row_offsets out = 0 # sums_from 0 (map length ds)"
proof -
  obtain segs post where o: "map fst segs = ds" "map (\<lambda>s. length (snd s)) segs = replicate n 0"
    "row_values out = seg_mem segs @ post" "row_offsets out = 0 # ends_from 0 segs"
    using assms by (auto simp: rows_hold_def)
  have empty: "\<forall>s \<in> set segs. snd s = []"
    using o(2) by (metis imageI in_set_replicate length_0_conv list.set_map)
  then have "seg_mem segs = map Some (concat (map fst segs))"
    by (induction segs) (auto simp: seg_mem_def)
  then show "mem_slice (row_values out) 0 (length (concat ds)) = Inr (concat ds)"
    using o(1,3) by (auto simp: mem_slice_def)
  have "ends_from b segs = sums_from b (map length (map fst segs))" for b
    using empty by (induction b segs rule: ends_from.induct) auto
  then show "row_offsets out = 0 # sums_from 0 (map length ds)"
    using o(1,4) by simp
qed

lemma rows_hold_start:
  "rows_hold (replicate (length ls) []) ls (extra (sum_list ls))
     \<lparr>row_values = new_values extra (sum_list ls), row_offsets = 0 # starts_from 0 ls\<rparr>"
proof -
  let ?segs = "map (\<lambda>l. ([], replicate l None)) ls"
  have "ends_from b ?segs = starts_from b ls" for b
    by (induction ls arbitrary: b) auto
  moreover have "seg_mem ?segs = replicate (sum_list ls) None"
    by (induction ls) (auto simp: replicate_add)
  ultimately show ?thesis
    unfolding rows_hold_def
    by (intro exI [of _ ?segs] exI [of _ "replicate (extra (sum_list ls)) None"])
      (simp add: new_values_def replicate_add comp_def map_replicate_const)
qed

lemma fill_rows_exact:
  assumes "list_all2 prepared es es'" and "\<forall>e \<in> set es. wf_enc n e" and "length fs = length es"
  defines "rws \<equiv> rows_of n (map2 cells es fs)"
  shows "fill_rows extra es' fs (0 # starts_from 0 (map length rws)) (length (concat rws))
       = Inr (row_array_of rws)"
proof -
  let ?out = "\<lparr>row_values = new_values extra (length (concat rws)),
      row_offsets = 0 # starts_from 0 (map length rws)\<rparr>"
  have "rows_hold (replicate n []) (row_lengths n (map2 cells es fs)) (extra (length (concat rws))) ?out"
    using rows_hold_start [of "map length rws" extra]
    by (simp add: row_lengths_rows_of rws_def length_concat)
  then obtain out' where out': "encode_arrays es' fs ?out = Inr out'"
    and "rows_hold (map2 (@) (replicate n []) rws) (replicate n 0) (extra (length (concat rws))) out'"
    using encode_arrays_hold [OF assms(1-3), of "replicate n []"] by (auto simp: rws_def)
  moreover have "map2 (@) (replicate n []) rws = rws"
    by (rule nth_equalityI) (simp_all add: rws_def)
  ultimately show ?thesis
    using rows_hold_done [of rws n] by (simp add: fill_rows_def row_array_of_def)
qed

subsection \<open>The rows of a list\<close>

lemma sums_from_nth:
  "i \<le> length rws \<Longrightarrow>
   (b # sums_from b (map length rws)) ! i = b + length (concat (take i rws))"
proof (induction rws arbitrary: b i)
  case (Cons r rws)
  then show ?case
    by (cases i) (auto simp: add.assoc)
qed simp

lemma length_sums_from [simp]: "length (sums_from b ls) = length ls"
  by (induction ls arbitrary: b) auto

lemma list_window_rows:
  assumes "s \<le> e" "e \<le> length rws"
  shows "list_window (row_array_of rws) s e = Inr (concat (take (e - s) (drop s rws)))"
proof -
  let ?a = "concat (take s rws)" and ?m = "concat (take (e - s) (drop s rws))"
  have e: "take e rws = take s rws @ take (e - s) (drop s rws)"
    using assms by (metis le_add_diff_inverse take_add)
  have all: "concat rws = ?a @ ?m @ concat (drop e rws)"
    using e by (metis append_take_drop_id concat_append append.assoc)
  have off: "(0 # sums_from 0 (map length rws)) ! s = length ?a"
    "(0 # sums_from 0 (map length rws)) ! e = length ?a + length ?m"
    using sums_from_nth [of s rws 0] sums_from_nth [of e rws 0] assms by (simp_all add: e)
  have "s < length (0 # sums_from 0 (map length rws))" "e < length (0 # sums_from 0 (map length rws))"
    using assms by simp_all
  then show ?thesis
    unfolding list_window_def row_array_of_def fst_conv snd_conv off all by simp
qed

lemma list_iter_rows:
  assumes "sorted offs" "length offs = Suc n" "last offs \<le> length rws"
  shows "list_iter (EList inner (Some (row_array_of rws)) offs validity fld)
       = Inr (list_values rws offs validity)"
proof -
  have "list_item (row_array_of rws) w
      = Inr ((\<lambda>((s, e), v). if v then Some (concat (take (e - s) (drop s rws))) else None) w)"
    if w: "w \<in> set (zip (zip offs (tl offs)) validity)" for w
  proof -
    obtain s e v where sev: "w = ((s, e), v)" by (metis prod.collapse)
    then have "(s, e) \<in> set (zip offs (tl offs))"
      using w by (auto dest: set_zip_leftD)
    then obtain i where i: "i < n" "s = offs ! i" "e = offs ! Suc i"
      using assms(2) by (auto simp: in_set_zip nth_tl)
    have "e \<le> last offs"
      using assms(1,2) i by (simp add: last_conv_nth sorted_nth_mono flip: length_0_conv)
    then have "s \<le> e" "e \<le> length rws"
      using assms i by (simp_all add: sorted_nth_mono)
    then show ?thesis
      by (simp add: sev list_item_def list_window_rows)
  qed
  then have "rmap (list_item (row_array_of rws)) (zip (zip offs (tl offs)) validity)
      = Inr (list_values rws offs validity)"
    unfolding list_values_def by (rule rmap_Inr)
  then show ?thesis by simp
qed

lemma row_array_last: "last (snd (row_array_of rws)) = length (fst (row_array_of rws))"
proof -
  have "last (b # sums_from b ls) = b + sum_list ls" for b ls
    by (induction ls arbitrary: b) auto
  then show ?thesis
    by (simp add: row_array_of_def length_concat del: last.simps)
qed

lemma rows_to_array_rows:
  "int (length (concat rws)) < 0x7FFFFFFFFFFFFFFF \<Longrightarrow>
   rows_to_array (fst (row_array_of rws)) (snd (row_array_of rws)) = Inr (row_array_of rws)"
  unfolding rows_to_array_def row_array_last by (simp add: row_array_of_def)

subsection \<open>The allocation\<close>

lemma length_encode_var: "length (encode_var f x) = encoded_len x f"
proof (cases x)
  case (Some v)
  then show ?thesis
    by (cases "v = []") (auto simp: encode_var_def encode_one_Some encode_one_empty
        encode_one_no_order_def encoded_len_def padded_length_opt_def padded_length_def
        length_opt_def length_blocks ceil_def split: list.splits)
qed (simp add: encode_var_def encode_one_def encode_one_no_order_def encoded_len_def
    padded_length_opt_def length_opt_def)

fun fixed_len :: "encoder \<Rightarrow> nat" where
  "fixed_len (ELeaf (FixedArr p xs)) = encoded_len_of p"
| "fixed_len _ = 0"

definition var_len :: "encoder \<Rightarrow> encoding_field \<Rightarrow> nat \<Rightarrow> nat" where
  "var_len e f i = (if is_variable e then length (cells e f ! i) else 0)"

lemma cell_len_split:
  "wf_enc n e \<Longrightarrow> i < n \<Longrightarrow> length (cells e f ! i) = fixed_len e + var_len e f i"
  by (induction n e rule: wf_enc.induct) (auto simp: var_len_def)

lemma row_size_fixed:
  "\<forall>e \<in> set es. wf_enc n e \<Longrightarrow> row_size es = Inr (\<Sum>e\<leftarrow>es. fixed_len e)"
proof (induction es)
  case (Cons e es)
  then show ?case
    by (cases "(n, e)" rule: wf_enc.cases) auto
qed simp

lemma row_length_split:
  assumes "\<forall>e \<in> set es. wf_enc n e" "length fs = length es" "i < n"
  shows "(\<Sum>cs\<leftarrow>map2 cells es fs. length (cs ! i))
       = (\<Sum>e\<leftarrow>es. fixed_len e) + (\<Sum>x\<leftarrow>zip es fs. var_len (fst x) (snd x) i)"
  using assms(2) [symmetric] assms(1,3)
  by (induction es fs rule: list_induct2) (auto simp: cell_len_split)

lemma add_lengths_map2: "length ls = length xs \<Longrightarrow> add_lengths ls xs = map2 (+) ls xs"
  by (induction ls xs rule: list_induct2) auto

definition lengths_ok :: "nat \<Rightarrow> nat \<Rightarrow> nat list \<Rightarrow> bool" where
  "lengths_ok n dn ls = (if dn = 0 then ls = [] else length ls = n)"

definition len_at :: "nat \<Rightarrow> nat \<Rightarrow> nat list \<Rightarrow> nat \<Rightarrow> nat" where
  "len_at fixed dn ls i = (if dn = 0 then fixed else ls ! i)"

lemma var_lengths_exact:
  assumes "lengths_ok n dn ls" "length vals = n"
  shows "var_lengths n fixed f vals dn ls
       = Inr (map (\<lambda>i. len_at fixed dn ls i + length (encode_var f (vals ! i))) [0..<n])"
  using assms
  by (auto simp: var_lengths_def lengths_ok_def len_at_def add_lengths_map2 length_encode_var
      intro!: nth_equalityI)

lemma lag_offsets_starts:
  "lag_offsets ls lagged current = (offs, lagged', current') \<Longrightarrow>
   offs @ [lagged'] = lagged # starts_from current ls \<and> current' = current + sum_list ls"
  by (induction ls arbitrary: lagged current offs lagged' current')
    (fastforce split: prod.splits)+

lemma push_offsets_starts: "push_offsets n l b = starts_from b (replicate n l)"
  by (induction n arbitrary: b) auto

definition alloc_lengths ::
  "nat \<Rightarrow> nat \<Rightarrow> encoder list \<Rightarrow> encoding_field list \<Rightarrow> nat \<Rightarrow> nat list \<Rightarrow> nat list" where
  "alloc_lengths n fixed cs fs dn ls =
     (if dn = 0 \<and> \<not> list_ex is_variable cs then []
      else map (\<lambda>i. len_at fixed dn ls i + (\<Sum>x\<leftarrow>zip cs fs. var_len (fst x) (snd x) i)) [0..<n])"

definition alloc_ok :: "(encoder list \<times> nat list) res \<Rightarrow> encoder list \<Rightarrow> nat list \<Rightarrow> bool" where
  "alloc_ok r cs ls = (\<exists>cs'. r = Inr (cs', ls) \<and> list_all2 prepared cs cs')"

lemma alloc_lengths_var:
  assumes "is_variable e" "cells e f = map (encode_var g) vals" "length vals = n"
  shows "alloc_lengths n fixed cs fs (Suc dn)
           (map (\<lambda>i. len_at fixed dn ls i + length (encode_var g (vals ! i))) [0..<n])
       = alloc_lengths n fixed (e # cs) (f # fs) dn ls"
  using assms by (auto simp: alloc_lengths_def len_at_def var_len_def intro!: nth_equalityI)

lemma alloc_lengths_fixed:
  "\<not> is_variable e \<Longrightarrow>
   alloc_lengths n fixed cs fs dn ls = alloc_lengths n fixed (e # cs) (f # fs) dn ls"
  by (simp add: alloc_lengths_def var_len_def)

lemma alloc_lengths_Nil: "lengths_ok n dn ls \<Longrightarrow> alloc_lengths n fixed [] [] dn ls = ls"
  by (auto simp: alloc_lengths_def lengths_ok_def len_at_def intro!: nth_equalityI)

lemma lengths_ok_Suc [simp]: "lengths_ok n (Suc dn) (map g [0..<n])"
  by (simp add: lengths_ok_def)

text \<open>What the allocation of columns gives: prepared encoders and the layout of their rows.\<close>

definition layout_ok ::
  "nat \<Rightarrow> encoder list \<Rightarrow> encoding_field list \<Rightarrow> (encoder list \<times> nat list \<times> nat) res \<Rightarrow> bool" where
  "layout_ok n cs fs r =
     (\<exists>cs'. r = Inr (cs', 0 # starts_from 0 (map length (rows_of n (map2 cells cs fs))),
                      length (concat (rows_of n (map2 cells cs fs)))) \<and> list_all2 prepared cs cs')"

lemma row_lengths_alloc:
  assumes "\<forall>e \<in> set cs. wf_enc n e" "length fs = length cs"
  shows "map length (rows_of n (map2 cells cs fs))
       = map (\<lambda>i. (\<Sum>e\<leftarrow>cs. fixed_len e) + (\<Sum>x\<leftarrow>zip cs fs. var_len (fst x) (snd x) i)) [0..<n]"
  using row_length_split [OF assms]
  by (simp add: row_lengths_def flip: row_lengths_rows_of)

lemma layout_variable:
  assumes wf: "\<forall>e \<in> set cs. wf_enc n e" "length fs = length cs" and cs: "cs \<noteq> []" and
    var: "list_ex is_variable cs"
    and alloc: "alloc_ok (alloc_columns extra n (\<Sum>e\<leftarrow>cs. fixed_len e) cs fs 0 []) cs
      (alloc_lengths n (\<Sum>e\<leftarrow>cs. fixed_len e) cs fs 0 [])"
  shows "layout_ok n cs fs (allocate_rows_buf extra cs fs)"
proof -
  let ?ls = "map length (rows_of n (map2 cells cs fs))"
  have ls: "alloc_lengths n (\<Sum>e\<leftarrow>cs. fixed_len e) cs fs 0 [] = ?ls"
    using var row_lengths_alloc [OF wf] by (simp add: alloc_lengths_def len_at_def)
  obtain offs lagged current where lag: "lag_offsets ?ls 0 0 = (offs, lagged, current)"
    by (metis prod.collapse)
  obtain c cs0 where c: "cs = c # cs0" "enc_len c = n"
    using cs wf(1) wf_enc_len by (cases cs) auto
  obtain cs' where cs': "alloc_columns extra n (\<Sum>e\<leftarrow>cs. fixed_len e) cs fs 0 [] = Inr (cs', ?ls)"
    "list_all2 prepared cs cs'"
    using alloc unfolding alloc_ok_def ls by blast
  have "allocate_rows_buf extra cs fs = Inr (cs', offs @ [lagged], current)"
    using var cs'(1) lag row_size_fixed [OF wf(1)] c
    by (subst allocate_rows_buf.simps) simp
  then show ?thesis
    using lag_offsets_starts [OF lag] cs'(2) by (simp add: layout_ok_def length_concat)
qed

lemma layout_fixed:
  assumes wf: "\<forall>e \<in> set cs. wf_enc n e" "length fs = length cs" and cs: "cs \<noteq> []" and
    var: "\<not> list_ex is_variable cs"
  shows "layout_ok n cs fs (allocate_rows_buf extra cs fs)"
proof -
  have "(\<Sum>x\<leftarrow>zip cs fs. var_len (fst x) (snd x) i) = 0" for i
    using var by (auto simp: var_len_def list_ex_iff dest: set_zip_leftD)
  then have ls: "map length (rows_of n (map2 cells cs fs)) = replicate n (\<Sum>e\<leftarrow>cs. fixed_len e)"
    using row_lengths_alloc [OF wf] by (intro nth_equalityI) (simp_all only: length_map length_upt
        length_replicate nth_map nth_replicate diff_zero nth_upt add_0 add_0_right length_rows_of)
  obtain c cs0 where c: "cs = c # cs0" "enc_len c = n"
    using cs wf(1) wf_enc_len by (cases cs) auto
  have "list_all2 prepared cs cs"
    using var unfolding list_ex_iff list_all2_same
    by (metis is_variable.simps(8) prepared.simps(1) encoder.exhaust)
  moreover have "allocate_rows_buf extra cs fs
      = Inr (cs, 0 # push_offsets n (\<Sum>e\<leftarrow>cs. fixed_len e) 0, n * (\<Sum>e\<leftarrow>cs. fixed_len e))"
    using var row_size_fixed [OF wf(1)] c by (subst allocate_rows_buf.simps) simp
  ultimately show ?thesis
    unfolding layout_ok_def length_concat ls push_offsets_starts by (simp add: sum_list_replicate)
qed

lemma map2_const: "map2 g xs (map (\<lambda>_. c) xs) = map (\<lambda>x. g x c) xs"
  by (induction xs) auto

lemma alloc_list:
  assumes wf: "wf_enc n (EList inner rows offs validity fld)" and ls: "lengths_ok n dn ls"
    and inner: "layout_ok (enc_len (hd inner)) inner (map (\<lambda>_. fld) inner)
      (allocate_rows_buf extra inner (map (\<lambda>_. fld) inner))"
    and rest: "\<And>ls. lengths_ok n (Suc dn) ls \<Longrightarrow>
      alloc_ok (alloc_columns extra n fixed cs fs (Suc dn) ls) cs (alloc_lengths n fixed cs fs (Suc dn) ls)"
  shows "alloc_ok (alloc_columns extra n fixed (EList inner rows offs validity fld # cs) (f # fs) dn ls)
    (EList inner rows offs validity fld # cs)
    (alloc_lengths n fixed (EList inner rows offs validity fld # cs) (f # fs) dn ls)"
proof -
  let ?m = "enc_len (hd inner)" and ?e = "EList inner rows offs validity fld"
  define rws where "rws = rows_of ?m (map (\<lambda>e. cells e fld) inner)"
  define vals where "vals = list_values rws offs validity"
  obtain inner' where alloc: "allocate_rows_buf extra inner (map (\<lambda>_. fld) inner)
      = Inr (inner', 0 # starts_from 0 (map length rws), length (concat rws))"
    and prep: "list_all2 prepared inner inner'"
    using inner by (auto simp: layout_ok_def map2_const rws_def)
  have flds: "map (\<lambda>_. fld) inner' = map (\<lambda>_. fld) inner"
    using list_all2_lengthD [OF prep] by (simp add: map_replicate_const)
  have fill: "fill_rows extra inner' (map (\<lambda>_. fld) inner') (0 # starts_from 0 (map length rws))
      (length (concat rws)) = Inr (row_array_of rws)"
    using fill_rows_exact [OF prep, of ?m "map (\<lambda>_. fld) inner" extra] wf
    by (simp add: flds map2_const rws_def)
  have arr: "rows_to_array (fst (row_array_of rws)) (snd (row_array_of rws)) = Inr (row_array_of rws)"
    using wf by (intro rows_to_array_rows) (simp add: rws_def)
  have iter: "list_iter (EList i (Some (row_array_of rws)) offs validity fld) = Inr vals" for i
    unfolding vals_def using wf by (intro list_iter_rows [where n = n]) (simp_all add: rws_def)
  have vals: "length vals = n"
    using wf by (simp add: vals_def list_values_def)
  have cells: "cells ?e f = map (encode_var new_unsorted) vals"
    by (simp add: vals_def rws_def)
  let ?ls = "map (\<lambda>i. len_at fixed dn ls i + length (encode_var new_unsorted (vals ! i))) [0..<n]"
  have "alloc_ok (alloc_columns extra n fixed cs fs (Suc dn) ?ls) cs
      (alloc_lengths n fixed (?e # cs) (f # fs) dn ls)"
    using rest [of ?ls] alloc_lengths_var [OF _ cells vals] by simp
  moreover have "prepared ?e (EList inner' (Some (row_array_of rws)) offs validity fld)"
    using iter by (simp add: vals_def rws_def del: list_iter.simps)
  ultimately show ?thesis
    using alloc fill arr iter var_lengths_exact [OF ls vals, of fixed new_unsorted]
    by (auto simp: alloc_ok_def alloc_columns.simps Let_def simp del: list_iter.simps prepared.simps)
qed

lemma alloc_columns_ok:
  assumes "\<forall>c \<in> set cs. wf_enc n c" "length fs = length cs" "lengths_ok n dn ls"
    and "\<And>inner rows offs validity fld. EList inner rows offs validity fld \<in> set cs \<Longrightarrow>
      layout_ok (enc_len (hd inner)) inner (map (\<lambda>_. fld) inner)
        (allocate_rows_buf extra inner (map (\<lambda>_. fld) inner))"
  shows "alloc_ok (alloc_columns extra n fixed cs fs dn ls) cs (alloc_lengths n fixed cs fs dn ls)"
  using assms
proof (induction cs arbitrary: fs dn ls)
  case Nil
  then show ?case
    by (simp add: alloc_columns.simps alloc_ok_def alloc_lengths_Nil)
next
  case (Cons c cs)
  then obtain f fs' where fs: "fs = f # fs'"
    by (cases fs) auto
  have rest: "alloc_ok (alloc_columns extra n fixed cs fs' dn' ls') cs
      (alloc_lengths n fixed cs fs' dn' ls')" if "lengths_ok n dn' ls'" for dn' ls'
  proof (rule Cons.IH)
    fix inner rows offs validity fld
    assume "EList inner rows offs validity fld \<in> set cs"
    then show "layout_ok (enc_len (hd inner)) inner (map (\<lambda>_. fld) inner)
        (allocate_rows_buf extra inner (map (\<lambda>_. fld) inner))"
      by (intro Cons.prems(4)) (rule list.set_intros(2))
  qed (use Cons.prems(1,2) fs that in simp_all)
  have wf: "wf_enc n c"
    using Cons.prems(1) by simp
  show ?case
  proof (cases "(n, c)" rule: wf_enc.cases)
    case (1 n' p xs)
    then show ?thesis
      using rest [OF Cons.prems(3)] alloc_lengths_fixed [of c n fixed cs fs' dn ls f]
      by (auto simp: alloc_ok_def alloc_columns.simps fs)
  next
    case (2 n' xs)
    let ?ls = "map (\<lambda>i. len_at fixed dn ls i + length (encode_var f (xs ! i))) [0..<n]"
    have "alloc_ok (alloc_columns extra n fixed cs fs' (Suc dn) ?ls) cs
        (alloc_lengths n fixed (c # cs) (f # fs') dn ls)"
      using rest [of "Suc dn" ?ls] alloc_lengths_var [of c f f xs n fixed cs fs' dn ls] wf 2 by simp
    then show ?thesis
      using var_lengths_exact [OF Cons.prems(3), of xs fixed f] wf 2
      by (auto simp: alloc_ok_def alloc_columns.simps fs)
  next
    case (4 n' inner rows offs validity fld)
    then have c: "c = EList inner rows offs validity fld"
      by simp
    then have "layout_ok (enc_len (hd inner)) inner (map (\<lambda>_. fld) inner)
        (allocate_rows_buf extra inner (map (\<lambda>_. fld) inner))"
      by (intro Cons.prems(4)) (simp, blast)
    then show ?thesis
      unfolding fs c by (rule alloc_list [OF wf [unfolded c] Cons.prems(3)]) (rule rest)
  qed (use wf in auto)
qed

lemma allocation:
  assumes "\<forall>c \<in> set cs. wf_enc n c" "length fs = length cs" "cs \<noteq> []"
  shows "layout_ok n cs fs (allocate_rows_buf extra cs fs)"
  using assms
proof (induction cs arbitrary: n fs rule: measure_induct_rule [of "size_list size"])
  case (less cs)
  have inner: "layout_ok (enc_len (hd inner)) inner (map (\<lambda>_. fld) inner)
      (allocate_rows_buf extra inner (map (\<lambda>_. fld) inner))"
    if c: "EList inner rows offs validity fld \<in> set cs" for inner rows offs validity fld
  proof (rule less.IH)
    show "size_list size inner < size_list size cs"
      by (rule size_list_estimation [OF c]) simp
  qed (use less.prems(1) c in fastforce)+
  have "alloc_ok (alloc_columns extra n fixed cs fs 0 []) cs (alloc_lengths n fixed cs fs 0 [])"
    for fixed
    by (rule alloc_columns_ok [OF less.prems(1,2) _ inner]) (simp add: lengths_ok_def)
  then show ?case
    using layout_variable [OF less.prems] layout_fixed [OF less.prems] by blast
qed

subsection \<open>The conversion\<close>

lemma flatten_leaves:
  "\<not> list_ex needs_flatten columns \<Longrightarrow> length fs = length columns \<Longrightarrow>
   flatten_columns columns fs = zip (map ELeaf columns) fs"
proof (induction columns fs rule: flatten_columns.induct)
  case (1 arr arrs f fs)
  then have "get_encoders f arr = [ELeaf arr]"
    by (cases arr) auto
  then show ?case
    using 1 by simp
qed auto

text \<open>Both branches of the conversion encode the flattened columns.\<close>

lemma convert_columns_flat:
  assumes "length fs = length columns"
  defines "es \<equiv> map fst (flatten_columns columns fs)" and "gs \<equiv> map snd (flatten_columns columns fs)"
  assumes "\<forall>e \<in> set es. wf_enc n e" and "es \<noteq> []"
  shows "convert_columns_amortized extra columns fs = Inr (row_array_of (rows_of n (map2 cells es gs)))"
proof -
  have len: "length gs = length es"
    by (simp add: es_def gs_def)
  obtain es' where "allocate_rows_buf extra es gs =
      Inr (es', 0 # starts_from 0 (map length (rows_of n (map2 cells es gs))),
           length (concat (rows_of n (map2 cells es gs))))" "list_all2 prepared es es'"
    using allocation [OF assms(4) len assms(5)] by (auto simp: layout_ok_def)
  moreover have "convert_columns_amortized extra columns fs =
      rbind (allocate_rows_buf extra es gs) (\<lambda>(es, offs, size). fill_rows extra es gs offs size)"
    using flatten_leaves [OF _ assms(1)] assms(1)
    by (cases "list_ex needs_flatten columns")
      (simp_all add: convert_columns_amortized_def Let_def es_def gs_def)
  ultimately show ?thesis
    using fill_rows_exact [OF _ assms(4) len] by simp
qed

lemma rows_iter_rows: "rows_iter (row_array_of rws) = Inr rws"
proof -
  have "next_rows (pre @ concat rws @ post) (length pre) (sums_from (length pre) (map length rws))
      = Inr rws" for pre post
  proof (induction rws arbitrary: pre)
    case (Cons r rws)
    then show ?case
      using Cons.IH [of "pre @ r"] by simp
  qed simp
  from this [of "[]" "[]"] show ?thesis
    by (simp add: rows_iter_def row_array_of_def)
qed

end
