(* ===== verification/RowOrder.thy ===== *)
theory RowOrder
  imports RowLayout
begin

section \<open>Row encoding: order, round trip and collisions\<close>

text \<open>
  What the row format is for: comparing two encoded rows byte by byte compares the rows
  column by column, in the direction and with the place of the nulls that each field asks
  for, and the decoder gives the columns back. Both hold for columns of booleans, integers,
  floats, strings, binaries and structs of such columns without nulls of their own
  (\<open>plain\<close>). They do not hold for list columns and for structs with nulls: the last property
  shows rows that differ and have the same bytes.
\<close>

subsection \<open>Rows of linear cells\<close>

definition linear_cells :: "nat \<Rightarrow> bytes list \<Rightarrow> bool" where
  "linear_cells n cs =
     (\<forall>i < n. \<forall>j < n. bytes_less (cs ! i) (cs ! j) \<or> cs ! i = cs ! j \<or> bytes_less (cs ! j) (cs ! i))"

fun cols_less :: "bytes list list \<Rightarrow> nat \<Rightarrow> nat \<Rightarrow> bool" where
  "cols_less [] i j = False"
| "cols_less (cs # css) i j =
     (bytes_less (cs ! i) (cs ! j) \<or> \<not> bytes_less (cs ! j) (cs ! i) \<and> cols_less css i j)"

lemma linear_cells_cases:
  assumes "linear_cells n cs" "i < n" "j < n"
  obtains "bytes_less (cs ! i) (cs ! j)" | "cs ! i = cs ! j" | "bytes_less (cs ! j) (cs ! i)"
  using assms unfolding linear_cells_def by blast

lemma rows_less:
  assumes "list_all (linear_cells n) css" "i < n" "j < n"
  shows "bytes_less (rows_of n css ! i) (rows_of n css ! j) = cols_less css i j"
proof -
  have "bytes_less (concat (map (\<lambda>cs. cs ! i) css)) (concat (map (\<lambda>cs. cs ! j) css)) = cols_less css i j"
    using assms(1)
  proof (induction css)
    case (Cons cs css)
    then have "linear_cells n cs" by simp
    then show ?case
      using assms(2,3)
    proof (cases rule: linear_cells_cases)
      case 3
      then have "\<not> bytes_less (cs ! i @ vs) (cs ! j @ us)" for us vs
        by (intro bytes_less_asym bytes_less_append)
      then show ?thesis
        using 3 bytes_less_asym [OF 3] by simp
    qed (use Cons in \<open>auto intro: bytes_less_append\<close>)
  qed simp
  then show ?thesis
    using assms(2,3) by (simp add: rows_of_def)
qed

lemma rows_linear:
  assumes "list_all (linear_cells n) css"
  shows "linear_cells n (rows_of n css)"
proof -
  have "bytes_less (concat (map (\<lambda>cs. cs ! i) css)) (concat (map (\<lambda>cs. cs ! j) css)) \<or>
      concat (map (\<lambda>cs. cs ! i) css) = concat (map (\<lambda>cs. cs ! j) css) \<or>
      bytes_less (concat (map (\<lambda>cs. cs ! j) css)) (concat (map (\<lambda>cs. cs ! i) css))"
    if "i < n" "j < n" for i j
    using assms
  proof (induction css)
    case (Cons cs css)
    then have "linear_cells n cs" by simp
    then show ?case
      using that by (cases rule: linear_cells_cases) (use Cons in \<open>auto intro: bytes_less_append\<close>)
  qed simp
  then show ?thesis
    by (simp add: linear_cells_def rows_of_def)
qed

lemma bytes_less_lex: "bytes_less xs ys \<Longrightarrow> lex_less xs ys"
  by (induction xs ys rule: bytes_less.induct) auto

lemma lex_less_linear_cells:
  assumes "linear_cells n cs" "i < n" "j < n"
  shows "lex_less (cs ! i) (cs ! j) = bytes_less (cs ! i) (cs ! j)"
  using assms by (cases rule: linear_cells_cases)
    (auto dest: bytes_less_lex lex_less_asym bytes_less_asym)

lemma cols_less_append:
  "list_all (linear_cells n) css \<Longrightarrow> i < n \<Longrightarrow> j < n \<Longrightarrow>
   cols_less (css @ css') i j = (cols_less css i j \<or> \<not> cols_less css j i \<and> cols_less css' i j)"
proof (induction css)
  case (Cons cs css)
  then show ?case
    by (auto dest: bytes_less_asym)
qed simp

subsection \<open>The columns and their order\<close>

fun plain :: "nat \<Rightarrow> array \<Rightarrow> bool" where
  "plain n (FixedArr p xs) =
     (length xs = n \<and> list_all (pred_option (\<lambda>v. prim_ok p \<and> prim_value p v)) xs)"
| "plain n (BinArr xs) = (length xs = n)"
| "plain n (Utf8Arr xs) = (length xs = n)"
| "plain n (StructArr validity arrs) = (validity = replicate n True \<and> list_all (plain n) arrs)"
| "plain n _ = False"

fun arr_less :: "encoding_field \<Rightarrow> array \<Rightarrow> nat \<Rightarrow> nat \<Rightarrow> bool"
and arrs_less :: "encoding_field \<Rightarrow> array list \<Rightarrow> nat \<Rightarrow> nat \<Rightarrow> bool" where
  "arr_less f (FixedArr p xs) i j =
     opt_less (\<lambda>a b. prim_key p a < prim_key p b) f (xs ! i) (xs ! j)"
| "arr_less f (BinArr xs) i j = opt_less lex_less f (xs ! i) (xs ! j)"
| "arr_less f (Utf8Arr xs) i j = opt_less lex_less f (xs ! i) (xs ! j)"
| "arr_less f (StructArr validity arrs) i j = arrs_less f arrs i j"
| "arr_less f _ i j = False"
| "arrs_less f [] i j = False"
| "arrs_less f (a # as) i j = (arr_less f a i j \<or> \<not> arr_less f a j i \<and> arrs_less f as i j)"

fun row_less :: "(array \<times> encoding_field) list \<Rightarrow> nat \<Rightarrow> nat \<Rightarrow> bool" where
  "row_less [] i j = False"
| "row_less ((a, f) # cols) i j = (arr_less f a i j \<or> \<not> arr_less f a j i \<and> row_less cols i j)"

definition arr_cells :: "encoding_field \<Rightarrow> array \<Rightarrow> bytes list list" where
  "arr_cells f a = map (\<lambda>e. cells e f) (get_encoders f a)"

lemma arr_cells_simps [simp]:
  "arr_cells f (FixedArr p xs) = [map (encode_opt p f) xs]"
  "arr_cells f (BinArr ys) = [map (encode_var f) ys]"
  "arr_cells f (Utf8Arr ys) = [map (encode_var f) ys]"
  "arr_cells f (StructArr validity arrs) = concat (map (arr_cells f) arrs)"
  by (simp_all add: arr_cells_def [abs_def] map_concat comp_def)

lemma linear_fixed:
  "\<not> no_order f \<Longrightarrow> plain n (FixedArr p xs) \<Longrightarrow> linear_cells n (map (encode_opt p f) xs)"
  using fixed_cell.cell_linear [of f p] by (fastforce simp: linear_cells_def list_all_length)

lemma linear_var: "\<not> no_order f \<Longrightarrow> length xs = n \<Longrightarrow> linear_cells n (map (encode_var f) xs)"
  using var_cell.cell_linear by (auto simp: linear_cells_def pred_option_def)

lemma arr_cells_linear:
  "\<not> no_order f \<Longrightarrow> plain n a \<Longrightarrow> list_all (linear_cells n) (arr_cells f a)"
proof (induction n a rule: plain.induct)
  case (4 n validity arrs)
  then show ?case
    by (auto simp: list_all_iff)
qed (auto simp: linear_var intro: linear_fixed)

lemma arr_less_cells:
  assumes "\<not> no_order f" "i < n" "j < n"
  shows "plain n a \<Longrightarrow> arr_less f a i j = cols_less (arr_cells f a) i j"
    and "list_all (plain n) as \<Longrightarrow> arrs_less f as i j = cols_less (concat (map (arr_cells f) as)) i j"
  using assms
proof (induction f a i j and f as i j rule: arr_less_arrs_less.induct)
  case (1 f p xs i j)
  then show ?case
    using fixed_cell.cell_less [of f p "xs ! i" "xs ! j"] fixed_cell.cell_less [of f p "xs ! j" "xs ! i"]
    by (simp add: list_all_length)
next
  case (7 f a as i j)
  then show ?case
    using cols_less_append [of n "arr_cells f a" i j] arr_cells_linear [of f n a] by simp
qed (simp_all add: var_cell.cell_less pred_option_def)

subsection \<open>Whole tables\<close>

definition table_cells :: "array list \<Rightarrow> encoding_field list \<Rightarrow> bytes list list" where
  "table_cells columns fs = concat (map (\<lambda>(a, f). arr_cells f a) (zip columns fs))"

definition plain_columns :: "nat \<Rightarrow> array list \<Rightarrow> encoding_field list \<Rightarrow> bool" where
  "plain_columns n columns fs =
     (length fs = length columns \<and> list_all (plain n) columns \<and> list_all (\<lambda>f. \<not> no_order f) fs \<and>
      flatten_columns columns fs \<noteq> [])"

lemma flatten_cells:
  "length fs = length columns \<Longrightarrow>
   map2 cells (map fst (flatten_columns columns fs)) (map snd (flatten_columns columns fs))
     = table_cells columns fs"
proof (induction columns fs rule: flatten_columns.induct)
  case (1 a as f fs)
  have "map2 cells (map fst (map (\<lambda>e. (e, f)) es)) (map snd (map (\<lambda>e. (e, f)) es))
      = map (\<lambda>e. cells e f) es" for es
    by (induction es) auto
  then show ?case
    using 1 by (simp add: table_cells_def arr_cells_def)
qed (auto simp: table_cells_def)

lemma plain_wf: "plain n a \<Longrightarrow> e \<in> set (get_encoders f a) \<Longrightarrow> wf_enc n e"
proof (induction n a rule: plain.induct)
  case (4 n validity arrs)
  then show ?case
    by (auto simp: list_all_iff)
qed auto

lemma plain_columns_wf:
  "list_all (plain n) columns \<Longrightarrow> e \<in> fst ` set (flatten_columns columns fs) \<Longrightarrow> wf_enc n e"
  by (induction columns fs rule: flatten_columns.induct) (auto intro: plain_wf)

lemma table_rows:
  assumes "length fs = length columns" "flatten_columns columns fs \<noteq> []"
    and "\<forall>e \<in> fst ` set (flatten_columns columns fs). wf_enc n e"
  shows "convert_columns extra columns fs = Inr (row_array_of (rows_of n (table_cells columns fs)))"
  using convert_columns_flat [OF assms(1), of n extra] assms
  by (simp add: convert_columns_def flatten_cells)

lemma table_linear:
  "list_all (plain n) columns \<Longrightarrow> list_all (\<lambda>f. \<not> no_order f) fs \<Longrightarrow>
   list_all (linear_cells n) (table_cells columns fs)"
proof (induction columns fs rule: list_induct2')
  case (4 a as f fs)
  then show ?case
    using arr_cells_linear [of f n a] by (simp add: table_cells_def)
qed (auto simp: table_cells_def)

lemma row_less_cells:
  assumes "list_all (plain n) columns" "list_all (\<lambda>f. \<not> no_order f) fs" "i < n" "j < n"
  shows "row_less (zip columns fs) i j = cols_less (table_cells columns fs) i j"
  using assms(1,2)
proof (induction columns fs rule: list_induct2')
  case (4 a as f fs)
  then have "arr_less f a i j = cols_less (arr_cells f a) i j"
    "arr_less f a j i = cols_less (arr_cells f a) j i"
    using assms(3,4) by (simp_all add: arr_less_cells(1))
  then show ?case
    using 4 arr_cells_linear [of f n a] cols_less_append [of n "arr_cells f a" i j] assms(3,4)
    by (simp add: table_cells_def)
qed (auto simp: table_cells_def)

subsection \<open>Decoding\<close>

fun dtype_of :: "array \<Rightarrow> row_dtype" where
  "dtype_of (FixedArr p xs) = DPrim p"
| "dtype_of (BinArr xs) = DBinary"
| "dtype_of (Utf8Arr xs) = DUtf8View"
| "dtype_of (StructArr validity arrs) = DStruct (map dtype_of arrs)"
| "dtype_of (NullArr n) = DNull"
| "dtype_of (LargeUtf8Arr xs) = DLargeUtf8"
| "dtype_of (ListArr offs validity a) = DOther"

text \<open>Floats come back with one zero and one NaN.\<close>

fun canonical_arr :: "array \<Rightarrow> array" where
  "canonical_arr (FixedArr p xs) = FixedArr p (map (map_option (prim_canonical p)) xs)"
| "canonical_arr (StructArr validity arrs) = StructArr validity (map canonical_arr arrs)"
| "canonical_arr arr = arr"

lemma decode_column_cells:
  assumes "\<And>x rest. x \<in> set xs \<Longrightarrow> dec (cell x @ rest) = Inr (g x, rest)" "length rests = length xs"
  shows "decode_column dec (map2 (@) (map cell xs) rests) = Inr (map g xs, rests)"
  using assms(2) [symmetric] assms(1) by (induction xs rests rule: list_induct2) auto

lemma rows_of_append:
  assumes "length rests = n"
  shows "map2 (@) (rows_of n (css @ css')) rests = map2 (@) (rows_of n css) (map2 (@) (rows_of n css') rests)"
  using assms by (intro nth_equalityI) (simp_all add: rows_of_def)

lemma rows_of_single: "length cs = n \<Longrightarrow> rows_of n [cs] = cs"
  by (intro nth_equalityI) (simp_all add: rows_of_def)

lemma rows_of_Nil: "length rests = n \<Longrightarrow> map2 (@) (rows_of n []) rests = rests"
  by (intro nth_equalityI) (simp_all add: rows_of_def)

lemma decode_struct_cells:
  assumes "\<And>a rests. a \<in> set as \<Longrightarrow> length rests = n \<Longrightarrow>
      decode_dtype f (dtype_of a) (map2 (@) (rows_of n (arr_cells f a)) rests) = Inr (canonical_arr a, rests)"
    and "length rests = n"
  shows "decode_struct f (map dtype_of as) (map2 (@) (rows_of n (concat (map (arr_cells f) as))) rests)
       = Inr (map canonical_arr as, rests)"
  using assms(1)
proof (induction as)
  case (Cons a as)
  then show ?case
    using assms(2) by (simp add: rows_of_append)
qed (simp add: rows_of_Nil assms(2))

lemma decode_var_cells:
  assumes "\<not> no_order f" "length rests = length xs"
  shows "decode_column (decode_var f) (map2 (@) (map (encode_var f) xs) rests) = Inr (xs, rests)"
proof -
  have "decode_var f (encode_var f x @ rest) = Inr (x, rest)" for x rest
    using var_cell.read_cell_cell [OF assms(1), of x] by (simp add: pred_option_def option.map_ident)
  then show ?thesis
    using decode_column_cells [where g = "\<lambda>x. x" and cell = "encode_var f" and xs = xs] assms(2) by simp
qed

lemma decode_arr_cells:
  assumes "\<not> no_order f" "plain n a" "length rests = n"
  shows "decode_dtype f (dtype_of a) (map2 (@) (rows_of n (arr_cells f a)) rests)
       = Inr (canonical_arr a, rests)"
  using assms(2,3)
proof (induction a arbitrary: rests)
  case (FixedArr p xs)
  have "decode_column (decode_fixed p f) (map2 (@) (map (encode_opt p f) xs) rests)
      = Inr (map (map_option (prim_canonical p)) xs, rests)"
    using FixedArr assms(1) by (intro decode_column_cells fixed_cell.read_cell_cell)
      (auto simp: list_all_iff)
  then show ?case
    using FixedArr by (simp add: rows_of_single decode_leaf_def)
next
  case (StructArr validity as)
  then show ?case
    using decode_struct_cells [of as n f rests] by (simp add: list_all_iff)
qed (use assms(1) in \<open>simp_all add: rows_of_single decode_leaf_def decode_var_cells\<close>)

lemma decode_table_cells:
  assumes "length fs = length columns" "list_all (plain n) columns" "list_all (\<lambda>f. \<not> no_order f) fs"
    "length rests = n"
  shows "decode_columns fs (map dtype_of columns) (map2 (@) (rows_of n (table_cells columns fs)) rests)
       = Inr (map canonical_arr columns)"
  using assms(1-3)
proof (induction fs columns rule: list_induct2)
  case (Cons f fs a as)
  have "map2 (@) (rows_of n (table_cells (a # as) (f # fs))) rests
      = map2 (@) (rows_of n (arr_cells f a)) (map2 (@) (rows_of n (table_cells as fs)) rests)"
    using assms(4) by (simp add: table_cells_def rows_of_append)
  then show ?case
    using Cons assms(4) by (simp add: decode_arr_cells)
qed simp

subsection \<open>The properties\<close>

definition sample_columns :: "array list" where
  "sample_columns =
     [Utf8Arr [Some [98], None, Some []],
      FixedArr (PInt 2) [Some (- 1), Some 5, None],
      StructArr [True, True, True]
        [FixedArr PF32 [Some 0x80000000, Some 0xC0000000, None], FixedArr PBool [Some 1, None, Some 0]]]"

definition sample_fields :: "encoding_field list" where
  "sample_fields = [new_sorted True True, new_sorted False False, new_sorted True False]"

lemma sample_plain: "plain_columns 3 sample_columns sample_fields"
  by (simp add: plain_columns_def sample_columns_def sample_fields_def new_sorted_def numeral_eq_Suc)

text \<open>
  C12. The encoder never panics and never leaves its buffer or hands out an uninitialised
  byte, whatever capacity its vectors get: for well-formed columns of one height, lists and
  structs included, it returns one row per row of the columns, and every row is the
  concatenation of the cells of the flattened columns.
\<close>

theorem row_encoding_layout:
  assumes "length fs = length columns" and "flatten_columns columns fs \<noteq> []"
    and "\<forall>e \<in> fst ` set (flatten_columns columns fs). wf_enc n e"
  shows "\<exists>rows. convert_columns extra columns fs = Inr rows \<and>
    last (snd rows) = length (fst rows) \<and>
    rows_iter rows = Inr (map (\<lambda>i. concat (map (\<lambda>(e, f). cells e f ! i) (flatten_columns columns fs))) [0..<n])"
proof -
  have "rows_of n (table_cells columns fs)
      = map (\<lambda>i. concat (map (\<lambda>(e, f). cells e f ! i) (flatten_columns columns fs))) [0..<n]"
    using flatten_cells [OF assms(1)] by (simp add: rows_of_def flip: flatten_cells [OF assms(1)]) (simp add: zip_map_fst_snd comp_def split_def)
  then show ?thesis
    using table_rows [OF assms, of extra] rows_iter_rows row_array_last by simp
qed

theorem row_encoding_layout_witness:
  "\<exists>rows. convert_columns (\<lambda>n. 3)
      [ListArr [0, 1, 1] [True, False] (Utf8Arr [Some [65]]), FixedArr (PUInt 1) [Some 7, None]]
      [new_sorted True False, new_sorted False True] = Inr rows \<and>
    last (snd rows) = length (fst rows) \<and>
    rows_iter rows = Inr (map (\<lambda>i. concat (map (\<lambda>(e, f). cells e f ! i) (flatten_columns
      [ListArr [0, 1, 1] [True, False] (Utf8Arr [Some [65]]), FixedArr (PUInt 1) [Some 7, None]]
      [new_sorted True False, new_sorted False True]))) [0..<2])"
proof (rule row_encoding_layout)
  show "\<forall>e \<in> fst ` set (flatten_columns
      [ListArr [0, 1, 1] [True, False] (Utf8Arr [Some [65]]), FixedArr (PUInt 1) [Some 7, None]]
      [new_sorted True False, new_sorted False True]). wf_enc 2 e"
    by (simp add: rows_of_def encode_var_def new_sorted_def encode_one_Some blocks_short)
qed simp_all

text \<open>
  C3. Comparing two encoded rows as byte strings compares the rows of the table column by
  column: ascending or descending as the field says, nulls first or last as the field says
  whatever the direction, strings by their bytes, floats by value with NaN as the greatest,
  structs field by field.
\<close>

theorem row_encoding_ordered:
  assumes "plain_columns n columns fs" and "i < n" and "j < n"
  shows "\<exists>rows rws. convert_columns extra columns fs = Inr rows \<and> rows_iter rows = Inr rws \<and>
    (lex_less (rws ! i) (rws ! j) \<longleftrightarrow> row_less (zip columns fs) i j)"
proof -
  let ?css = "table_cells columns fs"
  have plain: "length fs = length columns" "list_all (plain n) columns" "list_all (\<lambda>f. \<not> no_order f) fs"
    "flatten_columns columns fs \<noteq> []"
    using assms(1) by (simp_all add: plain_columns_def)
  have linear: "list_all (linear_cells n) ?css"
    using plain(2,3) by (rule table_linear)
  have "convert_columns extra columns fs = Inr (row_array_of (rows_of n ?css))"
    using plain_columns_wf [OF plain(2)] by (intro table_rows plain(1,4)) blast
  moreover have "lex_less (rows_of n ?css ! i) (rows_of n ?css ! j) \<longleftrightarrow> row_less (zip columns fs) i j"
    using lex_less_linear_cells [OF rows_linear [OF linear] assms(2,3)] rows_less [OF linear assms(2,3)]
      row_less_cells [OF plain(2,3) assms(2,3)] by simp
  ultimately show ?thesis
    using rows_iter_rows by blast
qed

theorem row_encoding_ordered_witness:
  "\<exists>rows rws. convert_columns (\<lambda>n. n) sample_columns sample_fields = Inr rows \<and>
    rows_iter rows = Inr rws \<and> lex_less (rws ! 2) (rws ! 1)"
proof -
  have "row_less (zip sample_columns sample_fields) 2 1"
    by (simp add: sample_columns_def sample_fields_def new_sorted_def opt_less_def)
  then show ?thesis
    using row_encoding_ordered [OF sample_plain, of 2 1 "\<lambda>n. n"] by simp
qed

text \<open>
  C8. Decoding the encoded rows gives the columns back, nulls, empty strings and strings of
  every length included; floats come back canonical.
\<close>

theorem row_encoding_round_trip:
  assumes "plain_columns n columns fs"
  shows "\<exists>rows. convert_columns extra columns fs = Inr rows \<and>
    decode_rows_from_binary rows fs (map dtype_of columns) = Inr (map canonical_arr columns)"
proof -
  let ?rws = "rows_of n (table_cells columns fs)"
  have plain: "length fs = length columns" "list_all (plain n) columns" "list_all (\<lambda>f. \<not> no_order f) fs"
    "flatten_columns columns fs \<noteq> []"
    using assms by (simp_all add: plain_columns_def)
  have "convert_columns extra columns fs = Inr (row_array_of ?rws)"
    using plain_columns_wf [OF plain(2)] by (intro table_rows plain(1,4)) blast
  moreover have "map2 (@) ?rws (replicate n []) = ?rws"
    by (intro nth_equalityI) simp_all
  then have "decode_rows ?rws fs (map dtype_of columns) = Inr (map canonical_arr columns)"
    using decode_table_cells [OF plain(1-3), of "replicate n []"] plain(1) by (simp add: decode_rows_def)
  ultimately show ?thesis
    by (simp add: decode_rows_from_binary_def rows_iter_rows)
qed

theorem row_encoding_round_trip_witness:
  "\<exists>rows. convert_columns (\<lambda>n. n) sample_columns sample_fields = Inr rows \<and>
    decode_rows_from_binary rows sample_fields (map dtype_of sample_columns) = Inr
     [Utf8Arr [Some [98], None, Some []],
      FixedArr (PInt 2) [Some (- 1), Some 5, None],
      StructArr [True, True, True]
        [FixedArr PF32 [Some 0, Some 0xC0000000, None], FixedArr PBool [Some 1, None, Some 0]]]"
proof -
  have "map canonical_arr sample_columns =
     [Utf8Arr [Some [98], None, Some []],
      FixedArr (PInt 2) [Some (- 1), Some 5, None],
      StructArr [True, True, True]
        [FixedArr PF32 [Some 0, Some 0xC0000000, None], FixedArr PBool [Some 1, None, Some 0]]]"
    by (simp add: sample_columns_def canonical_f32_def)
  then show ?thesis
    using row_encoding_round_trip [OF sample_plain, of "\<lambda>n. n"] by simp
qed

definition colliding_lists :: "array list" where
  "colliding_lists =
     [ListArr [0, 2, 3] [True, True] (Utf8Arr [Some [], Some [1], Some []]),
      ListArr [0, 0, 34] [False, True] (Utf8Arr ([Some []] @ replicate 31 None @ [Some [], None]))]"

lemma colliding_rows:
  "rows_of 2 (table_cells colliding_lists [field_default, field_default])
   = (let r = [2, 1, 2, 1] @ replicate 31 0 @ [1, 0] in [r, r])"
  by code_simp

lemma colliding_wf:
  "\<forall>e \<in> fst ` set (flatten_columns colliding_lists [field_default, field_default]). wf_enc 2 e"
  by code_simp

text \<open>
  C35. The encoding is not injective on two kinds of columns. A null struct is encoded as
  the values under it, because the combined validity that \<open>get_encoders\<close> computes is dropped.
  The rows of a list are written without their length, so that the elements of a list can
  be taken for the beginning of the next column: here the list of the
  empty string and the string of the byte 1, with a null list, is one row, and the list of
  the empty string, with a list of 34 strings and nulls, is the other.
\<close>

theorem row_encoding_conflates:
  "(\<exists>rows r. convert_columns extra
       [StructArr [True, False] [FixedArr (PInt 4) [Some 1, Some 1]]] [field_default] = Inr rows \<and>
     rows_iter rows = Inr [r, r]) \<and>
   (\<exists>rows r. convert_columns extra colliding_lists [field_default, field_default] = Inr rows \<and>
     rows_iter rows = Inr [r, r])"
proof
  let ?cols = "[StructArr [True, False] [FixedArr (PInt 4) [Some 1, Some 1]]]"
  have "rows_of 2 (table_cells ?cols [field_default])
      = (let r = encode_opt (PInt 4) field_default (Some 1) in [r, r])"
    by (simp add: table_cells_def rows_of_def upt_rec numeral_2_eq_2 Let_def)
  moreover have "convert_columns extra ?cols [field_default]
      = Inr (row_array_of (rows_of 2 (table_cells ?cols [field_default])))"
    by (rule table_rows) simp_all
  ultimately show "\<exists>rows r. convert_columns extra ?cols [field_default] = Inr rows \<and>
      rows_iter rows = Inr [r, r]"
    using rows_iter_rows by (simp add: Let_def)
next
  have "convert_columns extra colliding_lists [field_default, field_default]
      = Inr (row_array_of (rows_of 2 (table_cells colliding_lists [field_default, field_default])))"
    using colliding_wf by (intro table_rows) (simp_all add: colliding_lists_def)
  then show "\<exists>rows r. convert_columns extra colliding_lists [field_default, field_default] = Inr rows \<and>
      rows_iter rows = Inr [r, r]"
    unfolding colliding_rows Let_def using rows_iter_rows by blast
qed

end
