(* ===== verification/Varint.thy ===== *)
theory Varint
  imports Prelude
begin

section \<open>Parquet: variable length integers\<close>

text \<open>
  ULEB128 integers (\<open>polars-parquet/src/parquet/encoding/uleb128.rs\<close>) and the signed
  integers that are folded into them (\<open>zigzag_leb128.rs\<close>). An encoded integer is followed by
  other data, so decoding also returns how many bytes it used. A shift by more than 63 bits,
  which only a malformed integer of more than ten bytes causes, takes the amount modulo 64,
  as the shift does without overflow checks. The variant of the decoder for processors with
  the instruction \<open>pext\<close> is not modelled.
\<close>

subsection \<open>The code\<close>

text \<open>The loop of the encoder, with the room that is left in the container.\<close>

fun uleb_encode :: "nat \<Rightarrow> u64 \<Rightarrow> bytes res" where
  "uleb_encode 0 value = Inl Panic"
| "uleb_encode (Suc room) value =
     (let byte = (ucast value :: u8) AND NOT 128; rest = drop_bit 7 value in
      if rest \<noteq> 0 then rbind (uleb_encode room rest) (\<lambda>bs. Inr ((byte OR 128) # bs))
      else Inr [byte])"

fun uleb_decode_loop :: "bytes \<Rightarrow> u64 \<Rightarrow> nat \<Rightarrow> nat \<Rightarrow> u64 \<times> nat" where
  "uleb_decode_loop [] result shift consumed = (result, consumed)"
| "uleb_decode_loop (byte # bs) result shift consumed =
     (let result' = result OR push_bit (shift mod 64) (ucast (byte AND 127)) in
      if byte AND 128 = 0 then (result', consumed + 1)
      else uleb_decode_loop bs result' (shift + 7) (consumed + 1))"

definition uleb_decode :: "bytes \<Rightarrow> u64 \<times> nat" where
  "uleb_decode bs = uleb_decode_loop bs 0 0 0"

definition zigzag_encode :: "u64 \<Rightarrow> bytes res" where
  "zigzag_encode value = uleb_encode 10 (push_bit 1 value XOR signed_drop_bit 63 value)"

definition zigzag_decode :: "bytes \<Rightarrow> u64 \<times> nat" where
  "zigzag_decode bs =
     (let (u, consumed) = uleb_decode bs in (drop_bit 1 u XOR - (u AND 1), consumed))"

subsection \<open>Round trip\<close>

lemma and_127: "(b :: u8) AND 127 = take_bit 7 b"
  by (simp add: take_bit_eq_mask mask_eq_exp_minus_1)

lemma and_not_128: "(b :: u8) AND NOT 128 = take_bit 7 b"
proof -
  have "(NOT 128 :: u8) = 127" by simp
  then show ?thesis by (simp only: and_127)
qed

lemma low_byte: "(ucast (take_bit 7 (ucast (v :: u64) :: u8)) :: u64) = take_bit 7 v"
  by (rule bit_word_eqI) (simp add: bit_ucast_iff bit_take_bit_iff, auto)

lemma or_128: "((take_bit 7 b OR 128) AND 127 :: u8) = take_bit 7 b" "(take_bit 7 b OR 128) AND 128 = (128 :: u8)"
  "take_bit 7 b AND 128 = (0 :: u8)"
proof -
  have e: "(128 :: u8) = push_bit 7 1" by simp
  show "((take_bit 7 b OR 128) AND 127 :: u8) = take_bit 7 b"
    unfolding and_127 by (rule bit_word_eqI) (simp only: e bit_take_bit_iff bit_or_iff bit_push_bit_iff, auto)
  show "(take_bit 7 b OR 128) AND 128 = (128 :: u8)"
    by (rule bit_word_eqI) (simp only: e bit_and_iff bit_take_bit_iff bit_or_iff bit_push_bit_iff, auto)
  show "take_bit 7 b AND 128 = (0 :: u8)"
    by (rule bit_word_eqI) (simp only: e bit_and_iff bit_take_bit_iff bit_or_iff bit_push_bit_iff, auto)
qed

lemma take_bit_extend:
  "take_bit s (v :: u64) OR push_bit s (take_bit 7 (drop_bit s v)) = take_bit (7 + s) v"
  by (rule bit_word_eqI) (auto simp: bit_or_iff bit_take_bit_iff bit_push_bit_iff bit_drop_bit_eq)

lemma drop_bit_zero_take: "drop_bit s (v :: u64) = 0 \<Longrightarrow> take_bit s v = v"
  by (metis bits_ident add.left_neutral push_bit_of_0)

lemma drop_bit_nonzero: "drop_bit s (v :: u64) \<noteq> 0 \<Longrightarrow> s < 64"
  by (rule ccontr) (auto simp: bit_eq_iff bit_drop_bit_eq dest: bit_imp_le_length)

lemma uleb_encode_Suc:
  "uleb_encode (Suc room) v =
     (if drop_bit 7 v \<noteq> 0
      then rbind (uleb_encode room (drop_bit 7 v)) (\<lambda>bs. Inr ((take_bit 7 (ucast v) OR 128) # bs))
      else Inr [take_bit 7 (ucast v)])"
  by (simp only: uleb_encode.simps Let_def and_not_128)

declare uleb_encode.simps(2) [simp del]

lemma uleb_decode_encode_loop:
  assumes "uleb_encode room (drop_bit s v) = Inr bs" and "s < 64"
  shows "uleb_decode_loop (bs @ rest) (take_bit s v) s c = (v, c + length bs)"
  using assms
proof (induction room arbitrary: s bs c)
  case (Suc room)
  let ?d = "take_bit 7 (ucast (drop_bit s v) :: u8)" and ?r = "drop_bit (7 + s) v"
  have step: "take_bit s v OR push_bit s (ucast ?d) = take_bit (7 + s) v"
    by (simp only: low_byte take_bit_extend)
  have s: "s mod 64 = s"
    using Suc.prems(2) by simp
  show ?case
  proof (cases "?r = 0")
    case True
    then have "bs = [?d]"
      using Suc.prems(1) by (simp add: uleb_encode_Suc)
    then show ?thesis
      using step True s drop_bit_zero_take by (simp add: Let_def and_127 or_128 take_bit_take_bit)
  next
    case False
    then obtain bs' where bs': "uleb_encode room ?r = Inr bs'" "bs = (?d OR 128) # bs'"
      using Suc.prems(1) by (auto simp: uleb_encode_Suc rbind_eq_Inr_iff)
    show ?thesis
      using step s Suc.IH [OF bs'(1) drop_bit_nonzero [OF False], of "c + 1"]
      by (simp add: bs'(2) or_128 Let_def add.commute [of s 7])
  qed
qed simp

lemma uleb_encode_room:
  "0 < room \<Longrightarrow> drop_bit (7 * room) v = 0 \<Longrightarrow> \<exists>bs. uleb_encode room v = Inr bs \<and> length bs \<le> room"
proof (induction room arbitrary: v)
  case (Suc room)
  show ?case
  proof (cases "drop_bit 7 v = 0")
    case False
    have "drop_bit (7 * room) (drop_bit 7 v) = 0"
      using Suc.prems(2) by (simp add: add.commute)
    moreover from this False have "0 < room"
      by (cases room) auto
    ultimately show ?thesis
      using Suc.IH [of "drop_bit 7 v"] False by (auto simp: uleb_encode_Suc)
  qed (simp add: uleb_encode_Suc)
qed simp

text \<open>Ten bytes are enough for every integer, and reading it back gives the value and its length.\<close>

lemma uleb_encode_total: "\<exists>bs. uleb_encode 10 v = Inr bs \<and> length bs \<le> 10"
proof (rule uleb_encode_room)
  show "drop_bit (7 * 10) v = 0"
    by (rule bit_word_eqI) (auto simp: bit_drop_bit_eq dest: bit_imp_le_length)
qed simp

lemma uleb_round_trip: "uleb_encode 10 v = Inr bs \<Longrightarrow> uleb_decode (bs @ rest) = (v, length bs)"
  using uleb_decode_encode_loop [of 10 0 v bs rest 0] by (simp add: uleb_decode_def)

lemma uleb_not_empty: "uleb_encode room v = Inr bs \<Longrightarrow> bs \<noteq> []"
  by (cases room) (auto simp: uleb_encode_Suc rbind_eq_Inr_iff split: if_splits)

lemma zigzag_fold:
  assumes "u = push_bit 1 v XOR signed_drop_bit 63 (v :: u64)"
  shows "drop_bit 1 u XOR - (u AND 1) = v"
proof -
  have u: "bit u n \<longleftrightarrow> (if n = 0 then bit v 63 else bit v (n - 1) \<noteq> bit v 63)" if "n < 64" for n
    unfolding assms bit_xor_iff bit_push_bit_iff bit_signed_drop_bit_iff
    using that by (auto simp: min_def possible_bit_word)
  have "u AND 1 = (if bit v 63 then 1 else 0)"
    using u [of 0] by (simp add: and_one_eq mod_2_eq_odd flip: bit_0)
  then have neg: "bit (- (u AND 1)) n \<longleftrightarrow> n < 64 \<and> bit v 63" for n
    by (simp add: bit_minus_1_iff possible_bit_word)
  show ?thesis
  proof (rule bit_word_eqI)
    fix n
    assume "n < LENGTH(64)"
    then have n: "n < 64" by simp
    have "bit u (Suc n) \<longleftrightarrow> n < 63 \<and> bit v n \<noteq> bit v 63"
      using u [of "Suc n"] bit_imp_le_length [of u "Suc n"] by (cases "n < 63") auto
    then show "bit (drop_bit 1 u XOR - (u AND 1)) n = bit v n"
      using n by (cases "n = 63") (simp_all only: bit_xor_iff bit_drop_bit_eq comp_def neg, auto)
  qed
qed

lemma zigzag_round_trip:
  assumes "zigzag_encode v = Inr bs"
  shows "zigzag_decode (bs @ rest) = (v, length bs)"
  using uleb_round_trip [OF assms [unfolded zigzag_encode_def]] zigzag_fold [OF refl, of v]
  by (simp add: zigzag_decode_def)

end
