(* ===== verification/BitPack.thy ===== *)
theory BitPack
  imports Prelude
begin

section \<open>Parquet: bit packing\<close>

text \<open>
  Blocks of 32 integers, packed with a fixed number of bits each
  (\<open>polars-parquet/src/parquet/encoding/bitpacked\<close>): the packer of \<open>pack.rs\<close>, which shifts
  the values through one register, the unpacker of \<open>unpack.rs\<close>, which reads one or two
  words for every value, and the decoder of \<open>decode.rs\<close>, which unpacks block by block. The
  unrolled loops of the macros are loops here. The width is that of \<open>u32\<close>, the one the hybrid
  encoding uses; the instance for \<open>u64\<close> is the same code with other constants.

  \<open>packed_value bs k i\<close> is the specification: the value of the \<open>k\<close> bits from bit \<open>i * k\<close>
  of the bytes.
\<close>

subsection \<open>Packing\<close>

definition u32_to_le_bytes :: "u32 \<Rightarrow> bytes" where
  "u32_to_le_bytes w = map (\<lambda>i. ucast (drop_bit (8 * i) w)) [0..<4]"

definition u32_from_le_bytes :: "bytes \<Rightarrow> u32" where
  "u32_from_le_bytes bs = foldr (\<lambda>b acc. ucast b OR push_bit 8 acc) bs 0"

text \<open>One turn of the loop: the register and the words written so far.\<close>

definition pack_step :: "nat \<Rightarrow> u32 list \<Rightarrow> nat \<Rightarrow> u32 \<times> u32 list \<Rightarrow> u32 \<times> u32 list" where
  "pack_step num_bits input i st =
     (let (out_register, out) = st;
          bits_filled = i * num_bits;
          inner_cursor = bits_filled mod 32;
          remaining = 32 - inner_cursor;
          in_register = input ! i;
          out_register = (if inner_cursor > 0 then out_register OR push_bit inner_cursor in_register
                          else in_register)
      in if remaining \<le> num_bits
         then (if 0 < remaining \<and> remaining < num_bits then drop_bit remaining in_register
               else out_register, out @ [out_register])
         else (out_register, out))"

definition pack_words :: "nat \<Rightarrow> u32 list \<Rightarrow> u32 list" where
  "pack_words num_bits input =
     (let st = (input ! 0, if num_bits = 32 then [input ! 0] else []);
          (out_register, out) = fold (pack_step num_bits input) [1..<31] st;
          in_register = input ! 31;
          out_register = (if 32 - num_bits > 0 then out_register OR push_bit (32 - num_bits) in_register
                          else in_register)
      in out @ [out_register])"

definition pack32 :: "u32 list \<Rightarrow> bytes \<Rightarrow> nat \<Rightarrow> bytes res" where
  "pack32 input output num_bits =
     (if num_bits = 0 then Inr (map (\<lambda>_. 0) output)
      else if 32 < num_bits \<or> length output < num_bits * 4 then Inl Panic
      else Inr (concat (map u32_to_le_bytes (pack_words num_bits input)) @ drop (num_bits * 4) output))"

text \<open>\<open>encode_pack\<close>: an incomplete block is filled up with zeroes.\<close>

definition encode_pack :: "u32 list \<Rightarrow> nat \<Rightarrow> bytes \<Rightarrow> bytes res" where
  "encode_pack unpacked num_bits packed =
     (if length unpacked < 32 then pack32 (unpacked @ replicate (32 - length unpacked) 0) packed num_bits
      else if length unpacked = 32 then pack32 unpacked packed num_bits
      else Inl Panic)"

subsection \<open>Unpacking\<close>

definition read_word :: "bytes \<Rightarrow> nat \<Rightarrow> u32 res" where
  "read_word input idx =
     (if idx * 4 + 4 \<le> length input then Inr (u32_from_le_bytes (take 4 (drop (idx * 4) input)))
      else Inl Panic)"

definition unpack_mask :: "nat \<Rightarrow> u32" where
  "unpack_mask num_bits = (if num_bits = 32 then - 1 else push_bit num_bits 1 - 1)"

definition unpack_one :: "bytes \<Rightarrow> nat \<Rightarrow> nat \<Rightarrow> u32 res" where
  "unpack_one input num_bits i =
     (let start_bit = i * num_bits;
          end_bit = start_bit + num_bits;
          start_bit_offset = start_bit mod 32;
          end_bit_offset = end_bit mod 32;
          start_byte = start_bit div 32;
          end_byte = end_bit div 32
      in if start_byte \<noteq> end_byte \<and> end_bit_offset \<noteq> 0 then
           rbind (read_word input start_byte) (\<lambda>v.
             let a = drop_bit start_bit_offset v in
             rbind (read_word input end_byte) (\<lambda>v.
               let b = push_bit (num_bits - end_bit_offset) v in
               Inr (a OR (b AND unpack_mask num_bits))))
         else
           rbind (read_word input start_byte) (\<lambda>v.
             Inr (drop_bit start_bit_offset v AND unpack_mask num_bits)))"

definition unpack32 :: "bytes \<Rightarrow> nat \<Rightarrow> u32 list res" where
  "unpack32 input num_bits =
     (if num_bits = 0 then Inr (replicate 32 0)
      else if 32 < num_bits \<or> length input < num_bits * 4 then Inl Panic
      else rmap (unpack_one input num_bits) [0..<32])"

definition decode_pack :: "bytes \<Rightarrow> nat \<Rightarrow> u32 list res" where
  "decode_pack packed num_bits =
     (if length packed < 32 * num_bits div 8 then
        if length packed \<le> 128 then unpack32 (packed @ replicate (128 - length packed) 0) num_bits
        else Inl Panic
      else unpack32 packed num_bits)"

subsection \<open>The decoder of a packed slice\<close>

text \<open>The bytes that are left; the iterator cuts them into blocks of \<open>4 * num_bits\<close> bytes.\<close>

record bp_decoder =
  bp_packed :: bytes
  bp_bits :: nat
  bp_length :: nat

definition bp_try_new :: "bytes \<Rightarrow> nat \<Rightarrow> nat \<Rightarrow> bp_decoder res" where
  "bp_try_new packed num_bits len =
     (if num_bits = 0 then Inl (Err ''Bitpacking requires num_bits > 0'')
      else if length packed * 8 < len * num_bits
      then Inl (Err ''Unpacking requires more bytes'')
      else Inr \<lparr>bp_packed = packed, bp_bits = num_bits, bp_length = len\<rparr>)"

definition chunks_next :: "bp_decoder \<Rightarrow> (bytes \<times> bp_decoder) option" where
  "chunks_next d =
     (if bp_packed d = [] then None
      else Some (take (4 * bp_bits d) (bp_packed d),
                 d\<lparr>bp_packed := drop (4 * bp_bits d) (bp_packed d)\<rparr>))"

definition chunks_next_back :: "bp_decoder \<Rightarrow> (bytes \<times> bp_decoder) option" where
  "chunks_next_back d =
     (if bp_packed d = [] then None
      else let n = length (bp_packed d);
               last_len = (if n mod (4 * bp_bits d) = 0 then 4 * bp_bits d else n mod (4 * bp_bits d))
           in Some (drop (n - last_len) (bp_packed d), d\<lparr>bp_packed := take (n - last_len) (bp_packed d)\<rparr>))"

definition chunked_next :: "bp_decoder \<Rightarrow> (u32 list option \<times> bp_decoder) res" where
  "chunked_next d =
     (if bp_length d < 32 then Inr (None, d)
      else case chunks_next d of
        None \<Rightarrow> Inr (None, d)
      | Some (packed, d) \<Rightarrow>
          rbind (decode_pack packed (bp_bits d)) (\<lambda>unpacked.
            Inr (Some unpacked, d\<lparr>bp_length := bp_length d - 32\<rparr>)))"

definition chunked_remainder :: "bp_decoder \<Rightarrow> ((u32 list \<times> nat) option \<times> bp_decoder) res" where
  "chunked_remainder d =
     (let remainder_len = bp_length d mod 32 in
      if remainder_len > 0 then
        case chunks_next_back d of
          None \<Rightarrow> Inl Panic
        | Some (packed, d) \<Rightarrow>
            rbind (decode_pack packed (bp_bits d)) (\<lambda>unpacked.
              Inr (Some (unpacked, remainder_len), d\<lparr>bp_length := bp_length d - remainder_len\<rparr>))
      else Inr (None, d))"

definition next_inexact :: "bp_decoder \<Rightarrow> ((u32 list \<times> nat) option \<times> bp_decoder) res" where
  "next_inexact d =
     (if 32 \<le> bp_length d then
        rbind (chunked_next d) (\<lambda>(unpacked, d).
          case unpacked of None \<Rightarrow> Inl Panic | Some u \<Rightarrow> Inr (Some (u, 32), d))
      else chunked_remainder d)"

fun skip_packed :: "nat \<Rightarrow> bp_decoder \<Rightarrow> bp_decoder" where
  "skip_packed 0 d = d"
| "skip_packed (Suc n) d =
     (case chunks_next d of None \<Rightarrow> d | Some (_, d) \<Rightarrow> skip_packed n d)"

definition skip_chunks :: "bp_decoder \<Rightarrow> nat \<Rightarrow> bp_decoder" where
  "skip_chunks d n = (let d = skip_packed n d in d\<lparr>bp_length := bp_length d - n * 32\<rparr>)"

definition bp_take :: "bp_decoder \<Rightarrow> bp_decoder \<times> bp_decoder" where
  "bp_take d = (d, d\<lparr>bp_packed := [], bp_length := 0\<rparr>)"

text \<open>The loop of \<open>collect_into\<close> over the blocks; the vector is cut to the length at the end.\<close>

fun collect_packs :: "nat \<Rightarrow> bp_decoder \<Rightarrow> u32 list res" where
  "collect_packs 0 d = Inr []"
| "collect_packs (Suc n) d =
     (case chunks_next d of
        None \<Rightarrow> Inl Panic
      | Some (packed, d) \<Rightarrow>
          rbind (decode_pack packed (bp_bits d)) (\<lambda>unpacked.
          rbind (collect_packs n d) (\<lambda>rest. Inr (unpacked @ rest))))"

definition collect_into :: "bp_decoder \<Rightarrow> u32 list \<Rightarrow> u32 list res" where
  "collect_into d vec =
     (let num_packs = bp_length d div 32 + (if bp_length d mod 32 \<noteq> 0 then 1 else 0) in
      rbind (collect_packs num_packs d) (\<lambda>unpacked. Inr (vec @ take (bp_length d) unpacked)))"

end
