(* ===== verification/BitPackLaws.thy ===== *)
theory BitPackLaws
  imports BitPack
begin

section \<open>Parquet: laws of bit packing\<close>

text \<open>
  The packer writes the bits of its values one after the other, and the unpacker reads the
  value at every place, so that unpacking inverts packing for values that fit the width. The
  decoder yields the specified values of its bytes in every way it can be read, as long as
  the bytes have no whole block more than the length needs (\<open>bp_wf\<close>).
\<close>

subsection \<open>Bits of words and of bytes\<close>

definition bs_bit :: "bytes \<Rightarrow> nat \<Rightarrow> bool" where
  "bs_bit bs j = (j < 8 * length bs \<and> bit (bs ! (j div 8)) (j mod 8))"

definition packed_value :: "bytes \<Rightarrow> nat \<Rightarrow> nat \<Rightarrow> u32" where
  "packed_value bs k i = horner_sum of_bool 2 (map (\<lambda>b. bs_bit bs (i * k + b)) [0..<k])"

lemma bit_packed_value:
  "bit (packed_value bs k i) b \<longleftrightarrow> b < 32 \<and> b < k \<and> bs_bit bs (i * k + b)"
  by (auto simp: packed_value_def bit_horner_sum_bit_word_iff)

lemma bit_u32_from_le_bytes:
  "bit (u32_from_le_bytes bs) n \<longleftrightarrow> n < 32 \<and> bs_bit bs n"
proof (induction bs arbitrary: n)
  case Nil
  then show ?case
    by (simp add: u32_from_le_bytes_def bs_bit_def)
next
  case (Cons b bs)
  have e: "u32_from_le_bytes (b # bs) = ucast b OR push_bit 8 (u32_from_le_bytes bs)"
    by (simp add: u32_from_le_bytes_def)
  show ?case
  proof (cases "n < 8")
    case True
    then show ?thesis
      by (auto simp: e bit_or_iff bit_push_bit_iff bit_ucast_iff bs_bit_def)
  next
    case False
    then obtain m where n: "n = 8 + m"
      by (metis le_add_diff_inverse not_less)
    have "(8 + m) div 8 = Suc (m div 8)" "(8 + m) mod 8 = m mod 8"
      by simp_all
    then show ?thesis
      using Cons.IH [of m] bit_imp_le_length [of b n] unfolding n
      by (auto simp: e bit_or_iff bit_push_bit_iff bit_ucast_iff bs_bit_def)
  qed
qed

lemma length_u32_to_le_bytes [simp]: "length (u32_to_le_bytes w) = 4"
  by (simp add: u32_to_le_bytes_def)

lemma bs_bit_u32_to_le_bytes: "n < 32 \<Longrightarrow> bs_bit (u32_to_le_bytes w) n = bit w n"
  by (simp add: bs_bit_def u32_to_le_bytes_def bit_ucast_iff bit_drop_bit_eq less_mult_imp_div_less)

lemma bs_bit_append:
  "bs_bit (xs @ ys) j = (if j < 8 * length xs then bs_bit xs j else bs_bit ys (j - 8 * length xs))"
proof (cases "j < 8 * length xs")
  case True
  then show ?thesis
    by (simp add: bs_bit_def nth_append less_mult_imp_div_less mult.commute)
next
  case False
  then obtain m where m: "j = 8 * length xs + m"
    by (metis le_add_diff_inverse not_less)
  then show ?thesis
    by (simp add: bs_bit_def nth_append)
qed

lemma bs_bit_take: "bs_bit (take n xs) j = (j < 8 * n \<and> bs_bit xs j)"
  using less_mult_imp_div_less [of j n 8]
  by (auto simp: bs_bit_def min_def mult.commute)

lemma bs_bit_drop: "bs_bit (drop n xs) j = bs_bit xs (8 * n + j)"
  by (auto simp: bs_bit_def less_diff_conv add.commute mult.commute diff_mult_distrib)

lemma length_concat_words [simp]: "length (concat (map u32_to_le_bytes ws)) = 4 * length ws"
  by (induction ws) auto

lemma bs_bit_words:
  "bs_bit (concat (map u32_to_le_bytes ws)) j \<longleftrightarrow> j < 32 * length ws \<and> bit (ws ! (j div 32)) (j mod 32)"
proof (induction ws arbitrary: j)
  case Nil
  then show ?case
    by (simp add: bs_bit_def)
next
  case (Cons w ws)
  show ?case
  proof (cases "j < 32")
    case True
    then show ?thesis
      by (simp add: bs_bit_append bs_bit_u32_to_le_bytes)
  next
    case False
    then obtain m where j: "j = 32 + m"
      by (metis le_add_diff_inverse not_less)
    have "(32 + m) div 32 = Suc (m div 32)" "(32 + m) mod 32 = m mod 32"
      by simp_all
    then show ?thesis
      using Cons.IH [of m] unfolding j by (auto simp: bs_bit_append)
  qed
qed

subsection \<open>The packer\<close>

definition fits :: "nat \<Rightarrow> u32 list \<Rightarrow> bool" where
  "fits k xs = (\<forall>x \<in> set xs. take_bit k x = x)"

definition stream_bit :: "nat \<Rightarrow> u32 list \<Rightarrow> nat \<Rightarrow> bool" where
  "stream_bit k xs j = bit (xs ! (j div k)) (j mod k)"

lemma stream_bit_at: "m < k \<Longrightarrow> stream_bit k xs (i * k + m) = bit (xs ! i) m"
  by (simp add: stream_bit_def)

lemma fits_bit: "fits k xs \<Longrightarrow> i < length xs \<Longrightarrow> bit (xs ! i) b \<Longrightarrow> b < k"
  by (metis bit_take_bit_iff fits_def nth_mem)

text \<open>After \<open>i\<close> values the words hold all full words of the stream, the register the rest.\<close>

definition pack_inv :: "nat \<Rightarrow> u32 list \<Rightarrow> nat \<Rightarrow> nat \<Rightarrow> u32 \<times> u32 list \<Rightarrow> bool" where
  "pack_inv k xs q c st =
     (length (snd st) = q \<and>
      (\<forall>w < q. \<forall>b < 32. bit (snd st ! w) b = stream_bit k xs (32 * w + b)) \<and>
      (c \<noteq> 0 \<longrightarrow> (\<forall>b < 32. bit (fst st) b = (b < c \<and> stream_bit k xs (32 * q + b)))))"

lemma pack_inv_push:
  assumes "pack_inv k xs q c (reg, out)" and "\<forall>b < 32. bit w b = stream_bit k xs (32 * q + b)"
    and "c' \<noteq> 0 \<Longrightarrow> \<forall>b < 32. bit reg' b = (b < c' \<and> stream_bit k xs (32 * Suc q + b))"
  shows "pack_inv k xs (Suc q) c' (reg', out @ [w])"
  using assms by (auto simp: pack_inv_def nth_append less_Suc_eq)

lemma register_filled:
  assumes inv: "pack_inv k xs q c (reg, out)" and T: "i * k = 32 * q + c" and c: "c < 32"
    and k: "0 < k" "k \<le> 32" and xs: "fits k xs" "i < length xs" and b: "b < 32"
  shows "bit (if c > 0 then reg OR push_bit c (xs ! i) else xs ! i) b
     \<longleftrightarrow> b < c + k \<and> stream_bit k xs (32 * q + b)"
proof (cases "b < c")
  case True
  then show ?thesis
    using inv b by (simp add: pack_inv_def bit_or_iff bit_push_bit_iff)
next
  case False
  have x: "bit (xs ! i) (b - c) \<longleftrightarrow> b < c + k \<and> stream_bit k xs (32 * q + b)"
  proof (cases "b - c < k")
    case True
    have "i * k + (b - c) = 32 * q + b"
      using T False by simp
    then show ?thesis
      using stream_bit_at [OF True, of xs i] True False by auto
  qed (use fits_bit [OF xs] False in auto)
  then show ?thesis
    using False inv b by (cases "c = 0") (auto simp: pack_inv_def bit_or_iff bit_push_bit_iff)
qed

lemma pack_step_inv:
  assumes inv: "pack_inv k xs (i * k div 32) (i * k mod 32) st"
    and k: "0 < k" "k \<le> 32" and xs: "fits k xs" "i < length xs"
  shows "pack_inv k xs (Suc i * k div 32) (Suc i * k mod 32) (pack_step k xs i st)"
proof -
  obtain reg out where st: "st = (reg, out)" by (cases st)
  define q c where "q = i * k div 32" and "c = i * k mod 32"
  have T: "i * k = 32 * q + c" and c: "c < 32"
    by (simp_all add: q_def c_def)
  have inv': "pack_inv k xs q c (reg, out)"
    using inv by (simp add: st q_def c_def)
  define reg1 where "reg1 = (if c > 0 then reg OR push_bit c (xs ! i) else xs ! i)"
  have reg1: "bit reg1 b \<longleftrightarrow> b < c + k \<and> stream_bit k xs (32 * q + b)" if "b < 32" for b
    unfolding reg1_def by (rule register_filled [OF inv' T c k xs that])
  show ?thesis
  proof (cases "32 - c \<le> k")
    case True
    define r where "r = 32 - c"
    have r: "c + r = 32" "r \<le> k"
      using True c by (simp_all add: r_def)
    have T': "Suc i * k = 32 * Suc q + (k - r)"
      using T r by simp
    have low: "(\<forall>b < 32. bit (drop_bit r (xs ! i)) b = (b < k - r \<and> stream_bit k xs (32 * Suc q + b)))"
    proof (intro allI impI)
      fix b :: nat
      assume "b < 32"
      have e: "32 * Suc q + b = i * k + (r + b)"
        using T r by simp
      show "bit (drop_bit r (xs ! i)) b = (b < k - r \<and> stream_bit k xs (32 * Suc q + b))"
        unfolding e using stream_bit_at [of "r + b" k xs i] fits_bit [OF xs, of "r + b"]
        by (auto simp: bit_drop_bit_eq)
    qed
    have "pack_step k xs i st
        = (if r < k then drop_bit r (xs ! i) else reg1, out @ [reg1])"
      using True c by (simp add: pack_step_def st reg1_def Let_def r_def flip: c_def)
    moreover have "(32 * n + d) div 32 = n" "(32 * n + d) mod 32 = d" if "d < 32" for n d :: nat
      using that by simp_all
    moreover have "k - r < 32"
      using r k c by linarith
    ultimately have "pack_step k xs i st = (if r < k then drop_bit r (xs ! i) else reg1, out @ [reg1])"
      "Suc i * k div 32 = Suc q" "Suc i * k mod 32 = k - r"
      unfolding T' by blast+
    then show ?thesis
      using pack_inv_push [OF inv', of reg1 "k - r"] reg1 r low by auto
  next
    case False
    have T': "Suc i * k = 32 * q + (c + k)"
      using T by simp
    have "pack_step k xs i st = (reg1, out)"
      using False by (simp add: pack_step_def st reg1_def Let_def flip: c_def)
    moreover have "Suc i * k div 32 = q" "Suc i * k mod 32 = c + k"
      unfolding T' using False by simp_all
    ultimately show ?thesis
      using inv' reg1 by (auto simp: pack_inv_def)
  qed
qed

lemma pack_fold_inv:
  assumes "pack_inv k xs k' c st" "k' = m * k div 32" "c = m * k mod 32" "m \<le> n" "n \<le> length xs"
    and k: "0 < k" "k \<le> 32" "fits k xs"
  shows "pack_inv k xs (n * k div 32) (n * k mod 32) (fold (pack_step k xs) [m..<n] st)"
  using assms(4,5)
proof (induction n rule: dec_induct)
  case base
  then show ?case
    using assms(1-3) by simp
next
  case (step i)
  then show ?case
    using pack_step_inv [of k xs i "fold (pack_step k xs) [m..<i] st"] k by simp
qed

lemma pack_words_bits:
  assumes "length xs = 32" "fits k xs" "0 < k" "k \<le> 32"
  shows "length (pack_words k xs) = k"
    and "w < k \<Longrightarrow> b < 32 \<Longrightarrow> bit (pack_words k xs ! w) b = stream_bit k xs (32 * w + b)"
proof -
  let ?st = "(xs ! 0, if k = 32 then [xs ! 0] else [])"
  define st where "st = fold (pack_step k xs) [1..<31] ?st"
  have "pack_inv k xs (1 * k div 32) (1 * k mod 32) ?st"
  proof (cases "k = 32")
    case True
    then show ?thesis
      using stream_bit_at [of _ k xs 0] by (simp add: pack_inv_def)
  next
    case False
    then show ?thesis
      using assms stream_bit_at [of _ k xs 0] fits_bit [OF assms(2), of 0] by (auto simp: pack_inv_def)
  qed
  then have "pack_inv k xs (31 * k div 32) (31 * k mod 32) st"
    unfolding st_def by (rule pack_fold_inv [OF _ refl refl]) (use assms in simp_all)
  then have inv: "pack_inv k xs (Suc 31 * k div 32) (Suc 31 * k mod 32) (pack_step k xs 31 st)"
    using assms by (intro pack_step_inv) simp_all
  have cursor: "31 * k mod 32 = (if k = 32 then 0 else 32 - k)"
  proof (cases "k = 32")
    case False
    have "31 * k = 32 * (k - 1) + (32 - k)"
      using assms(3,4) by (cases k) auto
    then show ?thesis
      using False assms(3) by (metis mod_mult_self4 mod_less diff_less zero_less_numeral)
  qed simp
  have "pack_words k xs = snd (pack_step k xs 31 st)"
    using assms(3,4) by (auto simp: pack_words_def pack_step_def Let_def cursor split_def st_def)
  then show "length (pack_words k xs) = k"
    and "w < k \<Longrightarrow> b < 32 \<Longrightarrow> bit (pack_words k xs ! w) b = stream_bit k xs (32 * w + b)"
    using inv by (simp_all add: pack_inv_def)
qed

text \<open>The packed bytes hold the values.\<close>

lemma pack32_values:
  assumes "length xs = 32" "fits k xs" "0 < k" "k \<le> 32" "k * 4 \<le> length output"
  shows "\<exists>bs. pack32 xs output k = Inr bs \<and> length bs = length output \<and>
    (\<forall>i < 32. \<forall>b < k. bs_bit bs (i * k + b) = bit (xs ! i) b)"
proof -
  let ?bs = "concat (map u32_to_le_bytes (pack_words k xs)) @ drop (k * 4) output"
  have len: "length (pack_words k xs) = k"
    by (rule pack_words_bits(1) [OF assms(1-4)])
  have "bs_bit ?bs (i * k + b) = bit (xs ! i) b" if "i < 32" "b < k" for i b
  proof -
    have "i * k + b < Suc i * k"
      using that by simp
    also have "\<dots> \<le> 32 * k"
      using that(1) by (intro mult_le_mono1) simp
    finally have j: "i * k + b < 32 * k" .
    then have "(i * k + b) div 32 < k"
      by (simp add: less_mult_imp_div_less)
    then have "bs_bit ?bs (i * k + b) = stream_bit k xs (32 * ((i * k + b) div 32) + (i * k + b) mod 32)"
      using j pack_words_bits(2) [OF assms(1-4)] by (simp add: bs_bit_append len bs_bit_words)
    then show ?thesis
      using stream_bit_at [OF that(2)] by simp
  qed
  then show ?thesis
    using assms len by (intro exI [of _ ?bs]) (auto simp: pack32_def)
qed

subsection \<open>The unpacker\<close>

lemma read_word_bits:
  assumes "4 * idx + 4 \<le> length input"
  shows "\<exists>w. read_word input idx = Inr w \<and> (\<forall>n. bit w n = (n < 32 \<and> bs_bit input (32 * idx + n)))"
  using assms
  by (auto simp: read_word_def mult.commute bit_u32_from_le_bytes bs_bit_take bs_bit_drop)

lemma unpack_mask_eq: "k \<le> 32 \<Longrightarrow> unpack_mask k = mask k"
  by (cases "k = 32") (simp_all add: unpack_mask_def mask_eq_exp_minus_1 push_bit_eq_mult)

lemma unpack_one_value:
  assumes "i < 32" "0 < k" "k \<le> 32" "4 * k \<le> length input"
  shows "unpack_one input k i = Inr (packed_value input k i)"
proof -
  define q c where "q = i * k div 32" and "c = i * k mod 32"
  have T: "i * k = 32 * q + c" "c < 32"
    by (simp_all add: q_def c_def)
  have "i * k + k \<le> 32 * k"
    using mult_le_mono1 [of "Suc i" 32 k] assms(1) by simp
  then have q: "32 * q + c + k \<le> 32 * k"
    using T by simp
  then have "q < k"
    using T assms(2) by linarith
  then obtain w where w: "read_word input q = Inr w"
    "\<And>n. bit w n \<longleftrightarrow> n < 32 \<and> bs_bit input (32 * q + n)"
    using read_word_bits [of q input] assms(4) by (auto simp: mult.commute)
  show ?thesis
  proof (cases "32 < c + k")
    case False
    have same: "q = (i * k + k) div 32 \<or> (i * k + k) mod 32 = 0"
      using False T by (cases "c + k = 32") (auto simp: add.assoc)
    have "drop_bit c w AND mask k = packed_value input k i"
      by (rule bit_word_eqI) (use False T in \<open>auto simp: bit_and_iff bit_drop_bit_eq bit_mask_iff w(2)
          bit_packed_value add.assoc possible_bit_word\<close>)
    then show ?thesis
      using same w(1) assms(3) by (auto simp: unpack_one_def Let_def unpack_mask_eq simp flip: q_def c_def)
  next
    case True
    define e where "e = c + k - 32"
    have e: "c + k = 32 + e" "0 < e" "e < 32" "k - e = 32 - c"
      using True T assms(3) by (simp_all add: e_def)
    have end_: "(i * k + k) div 32 = Suc q" "(i * k + k) mod 32 = e"
      using T(1) e by (simp_all add: add.assoc)
    have "Suc q < k"
      using q e by linarith
    then obtain v where v: "read_word input (Suc q) = Inr v"
      "\<And>n. bit v n \<longleftrightarrow> n < 32 \<and> bs_bit input (32 * Suc q + n)"
      using read_word_bits [of "Suc q" input] assms(4) by auto
    have "drop_bit c w OR (push_bit (32 - c) v AND mask k) = packed_value input k i"
    proof (rule bit_word_eqI)
      fix b
      assume "b < LENGTH(32)"
      then have b: "b < 32" by simp
      show "bit (drop_bit c w OR (push_bit (32 - c) v AND mask k)) b = bit (packed_value input k i) b"
      proof (cases "c + b < 32")
        case True
        then show ?thesis
          using b e T by (auto simp: bit_or_iff bit_and_iff bit_drop_bit_eq bit_push_bit_iff bit_mask_iff
              w(2) bit_packed_value add.assoc possible_bit_word)
      next
        case False
        have "bs_bit input (32 * q + (b + c)) = bs_bit input (i * k + b)"
          by (simp add: T(1) ac_simps)
        then show ?thesis
          using False b T(2) by (auto simp: bit_or_iff bit_and_iff bit_drop_bit_eq bit_push_bit_iff bit_mask_iff
              w(2) v(2) bit_packed_value possible_bit_word)
      qed
    qed
    then show ?thesis
      using w(1) v(1) e assms(3) end_
      by (simp add: unpack_one_def Let_def unpack_mask_eq flip: q_def c_def)
  qed
qed

lemma unpack32_values:
  assumes "0 < k" "k \<le> 32" "4 * k \<le> length input"
  shows "unpack32 input k = Inr (map (packed_value input k) [0..<32])"
  using assms unpack_one_value [OF _ assms] by (auto simp: unpack32_def mult.commute intro!: rmap_Inr)

lemma packed_value_append:
  "(i + 1) * k \<le> 8 * length bs \<Longrightarrow> packed_value (bs @ bs') k i = packed_value bs k i"
  by (auto simp: packed_value_def bs_bit_append intro!: arg_cong [where f = "horner_sum of_bool 2"])

text \<open>A block that is cut short is unpacked as if zeroes followed.\<close>

lemma bs_bit_zeroes: "bs_bit (bs @ replicate n 0) j = bs_bit bs j"
  by (auto simp: bs_bit_append bs_bit_def nth_append less_mult_imp_div_less)

lemma decode_pack_values:
  assumes "0 < k" "k \<le> 32" "length packed \<le> 4 * k"
  shows "decode_pack packed k = Inr (map (packed_value packed k) [0..<32])"
proof (cases "length packed < 4 * k")
  case True
  have "packed_value (packed @ replicate (128 - length packed) 0) k = packed_value packed k"
    by (intro ext) (simp add: packed_value_def bs_bit_zeroes)
  then show ?thesis
    using True assms unpack32_values [of k "packed @ replicate (128 - length packed) 0"]
    by (simp add: decode_pack_def)
next
  case False
  then show ?thesis
    using assms unpack32_values [of k packed] by (simp add: decode_pack_def)
qed

subsection \<open>The decoder\<close>

definition bp_values :: "bp_decoder \<Rightarrow> u32 list" where
  "bp_values d = map (packed_value (bp_packed d) (bp_bits d)) [0..<bp_length d]"

definition bp_enough :: "bp_decoder \<Rightarrow> bool" where
  "bp_enough d = (0 < bp_bits d \<and> bp_bits d \<le> 32 \<and> bp_length d * bp_bits d \<le> 8 * length (bp_packed d))"

text \<open>An incomplete last block is the last one of the bytes.\<close>

definition bp_wf :: "bp_decoder \<Rightarrow> bool" where
  "bp_wf d = (bp_enough d \<and>
     (bp_length d mod 32 \<noteq> 0 \<longrightarrow> length (bp_packed d) \<le> 4 * bp_bits d * (bp_length d div 32 + 1)))"

lemma length_bp_values [simp]: "length (bp_values d) = bp_length d"
  by (simp add: bp_values_def)

lemma packed_value_take:
  "(i + 1) * k \<le> 8 * n \<Longrightarrow> packed_value (take n bs) k i = packed_value bs k i"
  by (auto simp: packed_value_def bs_bit_take intro!: arg_cong [where f = "horner_sum of_bool 2"])

lemma packed_value_drop: "packed_value (drop (4 * k) bs) k i = packed_value bs k (32 + i)"
  by (simp add: packed_value_def bs_bit_drop algebra_simps)

lemma bp_values_split:
  assumes "bp_length d' = bp_length d - 32" "bp_bits d' = bp_bits d"
    "bp_packed d' = drop (4 * bp_bits d) (bp_packed d)"
  shows "bp_values d' = drop 32 (bp_values d)"
  using assms by (intro nth_equalityI) (simp_all add: bp_values_def packed_value_drop)

lemma first_block:
  "map (packed_value (take (4 * k) bs) k) [0..<32] = map (packed_value bs k) [0..<32]"
proof (rule map_cong [OF refl])
  fix i :: nat
  assume "i \<in> set [0..<32]"
  then have "(i + 1) * k \<le> 32 * k"
    by (intro mult_le_mono1) simp
  then show "packed_value (take (4 * k) bs) k i = packed_value bs k i"
    by (intro packed_value_take) simp
qed

lemma decode_first_block:
  "0 < k \<Longrightarrow> k \<le> 32 \<Longrightarrow> decode_pack (take (4 * k) bs) k = Inr (map (packed_value bs k) [0..<32])"
  using first_block decode_pack_values [of k "take (4 * k) bs"] by simp

lemma bp_wf_next:
  assumes "bp_wf d" "32 \<le> bp_length d"
  shows "bp_packed d \<noteq> []"
    and "bp_wf (d\<lparr>bp_packed := drop (4 * bp_bits d) (bp_packed d), bp_length := bp_length d - 32\<rparr>)"
proof -
  obtain m where m: "bp_length d = 32 + m"
    using assms(2) le_Suc_ex by blast
  show "bp_packed d \<noteq> []"
    using assms by (auto simp: bp_wf_def bp_enough_def)
  show "bp_wf (d\<lparr>bp_packed := drop (4 * bp_bits d) (bp_packed d), bp_length := bp_length d - 32\<rparr>)"
  proof -
    have "(m + 32) div 32 = Suc (m div 32)" by simp
    then show ?thesis
      using assms(1) m by (auto simp: bp_wf_def bp_enough_def algebra_simps)
  qed
qed

lemma chunked_next_values:
  assumes "bp_wf d" "32 \<le> bp_length d"
  shows "\<exists>d'. chunked_next d = Inr (Some (take 32 (bp_values d)), d') \<and> bp_wf d' \<and>
    bp_values d' = drop 32 (bp_values d)"
proof -
  let ?d = "d\<lparr>bp_packed := drop (4 * bp_bits d) (bp_packed d), bp_length := bp_length d - 32\<rparr>"
  have bits: "0 < bp_bits d" "bp_bits d \<le> 32"
    using assms(1) by (simp_all add: bp_wf_def bp_enough_def)
  have "take 32 (bp_values d) = map (packed_value (bp_packed d) (bp_bits d)) [0..<32]"
    using assms(2) by (simp add: bp_values_def take_map)
  then have "chunked_next d = Inr (Some (take 32 (bp_values d)), ?d)"
    using assms(2) bp_wf_next(1) [OF assms] decode_first_block [OF bits]
    by (simp add: chunked_next_def chunks_next_def)
  then show ?thesis
    using bp_wf_next(2) [OF assms] bp_values_split [of ?d d] by simp
qed

lemma chunked_remainder_values:
  assumes "bp_wf d" "0 < bp_length d" "bp_length d < 32"
  shows "\<exists>us d'. chunked_remainder d = Inr (Some (us, bp_length d), d') \<and> length us = 32 \<and>
    take (bp_length d) us = bp_values d \<and> bp_wf d' \<and> bp_values d' = []"
proof -
  have d: "0 < bp_bits d" "bp_bits d \<le> 32" "bp_length d * bp_bits d \<le> 8 * length (bp_packed d)"
    "length (bp_packed d) \<le> 4 * bp_bits d"
    using assms by (simp_all add: bp_wf_def bp_enough_def)
  have "bp_packed d \<noteq> []"
    using d(1,3) assms(2) by (auto simp: mult_eq_0_iff)
  then have nb: "chunks_next_back d = Some (bp_packed d, d\<lparr>bp_packed := []\<rparr>)"
    using d(1,4) by (cases "length (bp_packed d) = 4 * bp_bits d") (auto simp: chunks_next_back_def Let_def)
  let ?us = "map (packed_value (bp_packed d) (bp_bits d)) [0..<32]"
  have "chunked_remainder d = Inr (Some (?us, bp_length d), d\<lparr>bp_packed := [], bp_length := 0\<rparr>)"
    using assms(2,3) nb decode_pack_values [OF d(1,2,4)] by (simp add: chunked_remainder_def)
  moreover have "take (bp_length d) ?us = bp_values d"
    using assms(3) by (simp add: bp_values_def take_map)
  moreover have "bp_wf (d\<lparr>bp_packed := [], bp_length := 0\<rparr>)"
    using d(1,2) by (simp add: bp_wf_def bp_enough_def)
  ultimately show ?thesis
    by (auto simp: bp_values_def)
qed

lemma next_inexact_values:
  assumes "bp_wf d" "0 < bp_length d"
  shows "\<exists>us d'. next_inexact d = Inr (Some (us, min 32 (bp_length d)), d') \<and> length us = 32 \<and>
    take (min 32 (bp_length d)) us = take 32 (bp_values d) \<and> bp_wf d' \<and> bp_values d' = drop 32 (bp_values d)"
proof (cases "32 \<le> bp_length d")
  case True
  then show ?thesis
    using chunked_next_values [OF assms(1) True] by (auto simp: next_inexact_def min_def)
next
  case False
  then show ?thesis
    using chunked_remainder_values [OF assms] by (auto simp: next_inexact_def min_def)
qed

lemma skip_chunks_values:
  assumes "bp_wf d" "32 * n \<le> bp_length d"
  shows "bp_wf (skip_chunks d n) \<and> bp_values (skip_chunks d n) = drop (32 * n) (bp_values d)"
  using assms
proof (induction n arbitrary: d)
  case (Suc n)
  let ?d = "d\<lparr>bp_packed := drop (4 * bp_bits d) (bp_packed d), bp_length := bp_length d - 32\<rparr>"
  have comm: "skip_packed n (d\<lparr>bp_length := l\<rparr>) = (skip_packed n d)\<lparr>bp_length := l\<rparr>" for d l n
  proof (induction n arbitrary: d)
    case (Suc n)
    have "d\<lparr>bp_length := l, bp_packed := p\<rparr> = d\<lparr>bp_packed := p, bp_length := l\<rparr>" for p
      by (cases d) simp
    then show ?case
      using Suc [of "d\<lparr>bp_packed := drop (4 * bp_bits d) (bp_packed d)\<rparr>"]
      by (simp only: skip_packed.simps chunks_next_def) (auto simp: Let_def)
  qed simp
  have len: "bp_length (skip_packed n d) = bp_length d" for d n
    by (induction n arbitrary: d) (auto simp: chunks_next_def)
  have l: "32 \<le> bp_length d"
    using Suc.prems(2) by simp
  have "skip_chunks d (Suc n) = skip_chunks ?d n"
    using bp_wf_next(1) [OF Suc.prems(1) l] by (simp add: skip_chunks_def chunks_next_def Let_def comm len)
  moreover have "bp_values ?d = drop 32 (bp_values d)"
    by (rule bp_values_split) simp_all
  ultimately show ?case
    using Suc.IH [OF bp_wf_next(2) [OF Suc.prems(1) l]] Suc.prems(2) by (simp add: add.commute)
qed (simp add: skip_chunks_def)

lemma collect_packs_values:
  assumes "0 < bp_bits d" "bp_bits d \<le> 32" "n = 0 \<or> (n - 1) * 4 * bp_bits d < length (bp_packed d)"
  shows "collect_packs n d = Inr (map (packed_value (bp_packed d) (bp_bits d)) [0..<32 * n])"
  using assms
proof (induction n arbitrary: d)
  case (Suc n)
  let ?d = "d\<lparr>bp_packed := drop (4 * bp_bits d) (bp_packed d)\<rparr>"
  have ne: "bp_packed d \<noteq> []"
    using Suc.prems(3) by auto
  have "n = 0 \<or> (n - 1) * 4 * bp_bits ?d < length (bp_packed ?d)"
    using Suc.prems(3) by (cases n) (auto simp: algebra_simps)
  then have "collect_packs n ?d = Inr (map (packed_value (bp_packed ?d) (bp_bits d)) [0..<32 * n])"
    using Suc.IH [of ?d] Suc.prems(1,2) by simp
  moreover have "map (packed_value (bp_packed d) (bp_bits d)) [0..<32 * Suc n]
      = map (packed_value (bp_packed d) (bp_bits d)) [0..<32] @ map (packed_value (bp_packed ?d) (bp_bits d)) [0..<32 * n]"
    by (intro nth_equalityI) (auto simp: nth_append packed_value_drop)
  ultimately show ?case
    using ne decode_first_block [OF Suc.prems(1,2)] by (simp add: chunks_next_def)
qed simp

lemma collect_into_values:
  assumes "bp_enough d"
  shows "collect_into d vec = Inr (vec @ bp_values d)"
proof -
  define n where "n = bp_length d div 32 + (if bp_length d mod 32 \<noteq> 0 then 1 else 0)"
  define q r where "q = bp_length d div 32" and "r = bp_length d mod 32"
  have l: "bp_length d = 32 * q + r" "r < 32" "n = q + (if r \<noteq> 0 then 1 else 0)"
    by (simp_all add: q_def r_def n_def)
  then have n: "bp_length d \<le> 32 * n" "n = 0 \<or> (n - 1) * 32 < bp_length d"
    by auto
  have k: "0 < bp_bits d" "bp_bits d \<le> 32" "bp_length d * bp_bits d \<le> 8 * length (bp_packed d)"
    using assms by (simp_all add: bp_enough_def)
  have "n = 0 \<or> (n - 1) * 4 * bp_bits d < length (bp_packed d)"
  proof (rule disjCI)
    assume "\<not> (n - 1) * 4 * bp_bits d < length (bp_packed d)"
    then have "8 * length (bp_packed d) \<le> 8 * ((n - 1) * 4 * bp_bits d)"
      by (simp only: not_less mult_le_mono2)
    then have "bp_length d * bp_bits d \<le> 8 * ((n - 1) * 4 * bp_bits d)"
      by (rule le_trans [OF k(3)])
    then have "bp_length d * bp_bits d \<le> (n - 1) * 32 * bp_bits d"
      by (simp only: mult.assoc mult.left_commute)
    then show "n = 0"
      using k(1) n(2) by simp
  qed
  then show ?thesis
    using collect_packs_values [OF k(1,2), of n] n(1)
    unfolding collect_into_def Let_def n_def [symmetric] by (simp add: bp_values_def take_map)
qed

end
