(* ===== verification/HybridRle.thy ===== *)
theory HybridRle
  imports Varint BitPackLaws
begin

section \<open>Parquet: the hybrid of run lengths and bit packing\<close>

text \<open>
  The encoding of dictionary indices and levels in Parquet
  (\<open>polars-parquet/src/parquet/encoding/hybrid_rle\<close>). The encoder (\<open>encoder.rs\<close>) collects
  values in a buffer of at most 8192 and writes them as a bit-packed run, unless the last
  value repeats more than eight times, which becomes a run length. The decoder (\<open>mod.rs\<close>,
  \<open>gatherer.rs\<close>, \<open>buffered.rs\<close>) hands out the values in portions of any size, and keeps the
  rest of a run that it had to stop in.

  The gatherer is the one that collects the values unchanged (\<open>UnitTranslator\<close>). A
  subtraction below zero is \<open>Panic\<close>, as with overflow checks.
\<close>

definition ceil8 :: "nat \<Rightarrow> nat" where
  "ceil8 v = v div 8 + (if v mod 8 \<noteq> 0 then 1 else 0)"

definition MAX_VALUES_PER_LITERAL_RUN :: nat where
  "MAX_VALUES_PER_LITERAL_RUN = 2 ^ 10 * 8"

subsection \<open>Writing runs of integers\<close>

text \<open>The loop over the blocks of 32, with the values to come and the reused buffer.\<close>

fun pack_chunks :: "nat \<Rightarrow> nat \<Rightarrow> u32 list \<Rightarrow> u32 list \<Rightarrow> (bytes \<times> u32 list \<times> u32 list) res" where
  "pack_chunks num_bits 0 iter buffer = Inr ([], iter, buffer)"
| "pack_chunks num_bits (Suc chunks) iter buffer =
     (let buffer = take 32 iter @ drop (length (take 32 iter)) buffer in
      rbind (encode_pack buffer num_bits (replicate 128 0)) (\<lambda>packed.
      if 4 * num_bits \<le> 128 then
        rbind (pack_chunks num_bits chunks (drop 32 iter) buffer) (\<lambda>(out, iter, buffer).
          Inr (take (4 * num_bits) packed @ out, iter, buffer))
      else Inl Panic))"

definition u32_bitpacked_encode :: "nat \<Rightarrow> u32 list \<Rightarrow> bytes res" where
  "u32_bitpacked_encode num_bits vals =
     (let len = length vals; header = push_bit 1 (of_nat (ceil8 len)) OR 1 in
      rbind (uleb_encode 10 header) (\<lambda>container.
      let chunks = len div 32; remainder = len - chunks * 32 in
      rbind (pack_chunks num_bits chunks vals (replicate 32 0)) (\<lambda>(out, iter, buffer).
      if remainder \<noteq> 0 then
        let buffer = take remainder iter @ drop (length (take remainder iter)) buffer in
        rbind (encode_pack buffer num_bits (replicate 128 0)) (\<lambda>packed.
          if ceil8 remainder * num_bits \<le> 128
          then Inr (container @ out @ take (ceil8 remainder * num_bits) packed) else Inl Panic)
      else Inr (container @ out))))"

definition u32_run_length_encode :: "nat \<Rightarrow> nat \<Rightarrow> u32 \<Rightarrow> bytes res" where
  "u32_run_length_encode bit_width run_length v =
     rbind (uleb_encode 10 (push_bit 1 (of_nat run_length))) (\<lambda>container.
       if ceil8 bit_width \<le> 4 then Inr (container @ take (ceil8 bit_width) (u32_to_le_bytes v))
       else Inl Panic)"

subsection \<open>Writing runs of booleans\<close>

fun pack_bools :: "nat \<Rightarrow> bool list \<Rightarrow> u8 \<Rightarrow> u8" where
  "pack_bools i [] byte = byte"
| "pack_bools i (b # bs) byte = pack_bools (Suc i) bs (if b then byte OR push_bit i 1 else byte)"

fun encode_bool :: "nat \<Rightarrow> bool list \<Rightarrow> bytes" where
  "encode_bool 0 iter = (if iter \<noteq> [] then [pack_bools 0 iter 0] else [])"
| "encode_bool (Suc chunks) iter = pack_bools 0 (take 8 iter) 0 # encode_bool chunks (drop 8 iter)"

definition bool_bitpacked_encode :: "bool list \<Rightarrow> bytes res" where
  "bool_bitpacked_encode vals =
     (let header = push_bit 1 (of_nat (ceil8 (length vals))) OR 1 in
      rbind (uleb_encode 10 header) (\<lambda>container.
        Inr (container @ encode_bool (length vals div 8) vals)))"

definition bool_run_length_encode :: "nat \<Rightarrow> bool \<Rightarrow> bytes res" where
  "bool_run_length_encode run_length v =
     rbind (uleb_encode 10 (push_bit 1 (of_nat run_length))) (\<lambda>container.
       Inr (container @ [if v then 1 else 0]))"

subsection \<open>The encoder\<close>

record 'v rle_encoder =
  repeats :: nat
  previous_val :: 'v
  buffered_bits :: "'v list"
  buffer_idx :: nat
  literal_run_idx :: nat
  writer :: bytes

text \<open>A literal run of the buffer, and the run of the last value, appended to the writer.\<close>

definition write_literal :: "('v list \<Rightarrow> bytes res) \<Rightarrow> nat \<Rightarrow> 'v rle_encoder \<Rightarrow> 'v rle_encoder res" where
  "write_literal bitpacked n st =
     rbind (bitpacked (take n (buffered_bits st))) (\<lambda>bs. Inr (st\<lparr>writer := writer st @ bs\<rparr>))"

definition write_run :: "(nat \<Rightarrow> 'v \<Rightarrow> bytes res) \<Rightarrow> 'v rle_encoder \<Rightarrow> 'v rle_encoder res" where
  "write_run run_length st =
     rbind (run_length (repeats st) (previous_val st)) (\<lambda>bs. Inr (st\<lparr>writer := writer st @ bs\<rparr>))"

text \<open>The end of the loop body: flush a full buffer, then keep the value.\<close>

definition keep_value :: "('v list \<Rightarrow> bytes res) \<Rightarrow> 'v \<Rightarrow> 'v rle_encoder \<Rightarrow> 'v rle_encoder res" where
  "keep_value bitpacked v st =
     rbind (if buffer_idx st = MAX_VALUES_PER_LITERAL_RUN then
              rbind (write_literal bitpacked (length (buffered_bits st)) st) (\<lambda>st.
                Inr (st\<lparr>repeats := 1, buffer_idx := 0, literal_run_idx := 0\<rparr>))
            else Inr st) (\<lambda>st.
     if buffer_idx st < length (buffered_bits st)
     then Inr (st\<lparr>buffered_bits := (buffered_bits st)[buffer_idx st := v], previous_val := v,
                  buffer_idx := buffer_idx st + 1\<rparr>)
     else Inl Panic)"

definition encode_val ::
  "('v list \<Rightarrow> bytes res) \<Rightarrow> (nat \<Rightarrow> 'v \<Rightarrow> bytes res) \<Rightarrow> 'v \<Rightarrow> 'v rle_encoder \<Rightarrow> 'v rle_encoder res" where
  "encode_val bitpacked run_length v st =
     (if v = previous_val st then
        let st = st\<lparr>repeats := repeats st + 1\<rparr> in
        if repeats st > 8 then Inr st
        else if repeats st = 8 then
          let literal_padding = (8 - literal_run_idx st mod 8) mod 8 in
          keep_value bitpacked v (st\<lparr>repeats := repeats st - literal_padding,
            literal_run_idx := literal_run_idx st + literal_padding\<rparr>)
        else keep_value bitpacked v st
      else if repeats st > 8 then
        rbind (if literal_run_idx st > 0 then
                 rbind (write_literal bitpacked (literal_run_idx st) st) (\<lambda>st.
                   Inr (st\<lparr>literal_run_idx := 0\<rparr>))
               else Inr st) (\<lambda>st.
        rbind (write_run run_length st) (\<lambda>st.
          keep_value bitpacked v (st\<lparr>repeats := 1, buffer_idx := 0\<rparr>)))
      else keep_value bitpacked v (st\<lparr>literal_run_idx := buffer_idx st, repeats := 1\<rparr>))"

fun encode_vals ::
  "('v list \<Rightarrow> bytes res) \<Rightarrow> (nat \<Rightarrow> 'v \<Rightarrow> bytes res) \<Rightarrow> 'v list \<Rightarrow> 'v rle_encoder \<Rightarrow> 'v rle_encoder res" where
  "encode_vals bitpacked run_length [] st = Inr st"
| "encode_vals bitpacked run_length (v # vs) st =
     rbind (encode_val bitpacked run_length v st) (encode_vals bitpacked run_length vs)"

definition encode_finish ::
  "('v list \<Rightarrow> bytes res) \<Rightarrow> (nat \<Rightarrow> 'v \<Rightarrow> bytes res) \<Rightarrow> 'v rle_encoder \<Rightarrow> bytes res" where
  "encode_finish bitpacked run_length st =
     (let st = (if repeats st \<le> 8 then st\<lparr>literal_run_idx := buffer_idx st\<rparr> else st) in
      rbind (if literal_run_idx st > 0 then write_literal bitpacked (literal_run_idx st) st else Inr st)
        (\<lambda>st. rbind (if repeats st > 8 then write_run run_length st else Inr st) (\<lambda>st.
          Inr (writer st))))"

definition hybrid_encode ::
  "('v list \<Rightarrow> bytes res) \<Rightarrow> (nat \<Rightarrow> 'v \<Rightarrow> bytes res) \<Rightarrow> 'v \<Rightarrow> 'v list \<Rightarrow> bytes res" where
  "hybrid_encode bitpacked run_length dflt vals =
     rbind (encode_vals bitpacked run_length vals
       \<lparr>repeats = 0, previous_val = dflt,
        buffered_bits = replicate MAX_VALUES_PER_LITERAL_RUN dflt,
        buffer_idx = 0, literal_run_idx = 0, writer = []\<rparr>)
       (encode_finish bitpacked run_length)"

definition encode_u32 :: "nat \<Rightarrow> u32 list \<Rightarrow> bytes res" where
  "encode_u32 num_bits vals =
     hybrid_encode (u32_bitpacked_encode num_bits) (u32_run_length_encode num_bits) 0 vals"

definition encode_bools :: "bool list \<Rightarrow> bytes res" where
  "encode_bools vals = hybrid_encode bool_bitpacked_encode bool_run_length_encode False vals"

subsection \<open>The buffered rest of a run\<close>

datatype rle_buffered =
    BufBitpacked "u32 list" nat nat bp_decoder
  | BufRle u32 nat

fun gather_chunks :: "nat \<Rightarrow> bp_decoder \<Rightarrow> u32 list \<Rightarrow> (u32 list \<times> bp_decoder) res" where
  "gather_chunks 0 d target = Inr (target, d)"
| "gather_chunks (Suc n) d target =
     rbind (chunked_next d) (\<lambda>(unpacked, d).
       case unpacked of None \<Rightarrow> Inr (target, d) | Some us \<Rightarrow> gather_chunks n d (target @ us))"

definition gather_bitpacked_limited ::
  "u32 list \<Rightarrow> bp_decoder \<Rightarrow> nat \<Rightarrow> (u32 list \<times> rle_buffered) res" where
  "gather_bitpacked_limited target d limit =
     assert_that (limit < bp_length d)
       (rbind (gather_chunks (limit div 32) d target) (\<lambda>(target, d).
        rbind (next_inexact d) (\<lambda>(chunk, d).
          case chunk of
            None \<Rightarrow> Inl Panic
          | Some (unpacked, unpacked_length) \<Rightarrow>
              let unpacked_offset = limit mod 32 in
              Inr (target @ take unpacked_offset unpacked,
                   BufBitpacked unpacked unpacked_offset unpacked_length d))))"

definition gather_bitpacked ::
  "u32 list \<Rightarrow> bp_decoder \<Rightarrow> nat option \<Rightarrow> (u32 list \<times> nat \<times> rle_buffered option) res" where
  "gather_bitpacked target d limit =
     (case limit of
        None \<Rightarrow> rbind (collect_into d target) (\<lambda>target. Inr (target, bp_length d, None))
      | Some l \<Rightarrow>
          if l \<ge> bp_length d then
            rbind (collect_into d target) (\<lambda>target. Inr (target, bp_length d, None))
          else
            rbind (gather_bitpacked_limited target d l) (\<lambda>(target, b). Inr (target, l, Some b)))"

fun buffered_gather_limited ::
  "rle_buffered \<Rightarrow> u32 list \<Rightarrow> nat \<Rightarrow> (u32 list \<times> nat \<times> rle_buffered) res" where
  "buffered_gather_limited (BufRle v len) target limit =
     (let num_elements = min len limit in
      Inr (target @ replicate num_elements v, num_elements, BufRle v (len - num_elements)))"
| "buffered_gather_limited (BufBitpacked unpacked start stop d) target limit =
     (let unpacked_num_elements = stop - start in
      if limit \<le> unpacked_num_elements then
        Inr (target @ take limit (drop start unpacked), limit, BufBitpacked unpacked (start + limit) stop d)
      else
        let target = target @ take unpacked_num_elements (drop start unpacked);
            limit = limit - unpacked_num_elements;
            (decoder, d) = bp_take d
        in if limit \<ge> bp_length decoder then
             rbind (collect_into decoder target) (\<lambda>target.
               Inr (target, unpacked_num_elements + bp_length decoder, BufBitpacked unpacked 0 0 d))
           else
             rbind (gather_bitpacked_limited target decoder limit) (\<lambda>(target, b).
               Inr (target, unpacked_num_elements + limit, b)))"

fun buffered_gather_into :: "rle_buffered \<Rightarrow> u32 list \<Rightarrow> (u32 list \<times> nat) res" where
  "buffered_gather_into (BufRle v len) target = Inr (target @ replicate len v, len)"
| "buffered_gather_into (BufBitpacked unpacked start stop d) target =
     rbind (collect_into d (target @ take (stop - start) (drop start unpacked))) (\<lambda>target.
       Inr (target, (stop - start) + bp_length d))"

fun buffered_skip :: "rle_buffered \<Rightarrow> nat \<Rightarrow> (nat \<times> rle_buffered) res" where
  "buffered_skip (BufRle v len) n =
     (let num_elements = min len n in Inr (num_elements, BufRle v (len - num_elements)))"
| "buffered_skip (BufBitpacked unpacked start stop d) n =
     (let unpacked_num_elements = stop - start in
      if n < unpacked_num_elements then Inr (n, BufBitpacked unpacked (start + n) stop d)
      else
        let n = n - unpacked_num_elements in
        if bp_length d > n then
          rbind (next_inexact (skip_chunks d (n div 32))) (\<lambda>(chunk, d).
            case chunk of
              None \<Rightarrow> Inl Panic
            | Some (us, us_length) \<Rightarrow>
                Inr (unpacked_num_elements + n, BufBitpacked us (n mod 32) us_length d))
        else let (decoder, d) = bp_take d
             in Inr (bp_length decoder + unpacked_num_elements, BufBitpacked unpacked 0 0 d))"

subsection \<open>The decoder\<close>

record hybrid_rle =
  h_data :: bytes
  h_bits :: nat
  h_values :: nat
  h_buffered :: "rle_buffered option"

definition hybrid_new :: "bytes \<Rightarrow> nat \<Rightarrow> nat \<Rightarrow> hybrid_rle" where
  "hybrid_new data num_bits num_values =
     \<lparr>h_data = data, h_bits = num_bits, h_values = num_values, h_buffered = None\<rparr>"

definition consume :: "hybrid_rle \<Rightarrow> nat \<Rightarrow> hybrid_rle res" where
  "consume h n = (if n \<le> h_values h then Inr (h\<lparr>h_values := h_values h - n\<rparr>) else Inl Panic)"

text \<open>The packed bytes that follow a header; the product is taken on machine integers.\<close>

definition packed_bytes :: "hybrid_rle \<Rightarrow> u64 \<Rightarrow> nat" where
  "packed_bytes h indicator =
     min (unat (drop_bit 1 indicator * of_nat (h_bits h))) (length (h_data h))"

definition packed_decoder :: "hybrid_rle \<Rightarrow> bytes \<Rightarrow> bp_decoder res" where
  "packed_decoder h packed =
     bp_try_new packed (h_bits h) (min (length packed * 8 div h_bits h) (h_values h))"

text \<open>The value of a run length, from at most four little-endian bytes.\<close>

definition run_value :: "bytes \<Rightarrow> u32" where
  "run_value pack = u32_from_le_bytes (take 4 pack @ replicate (4 - length pack) 0)"

definition gather_limited_once ::
  "hybrid_rle \<Rightarrow> u32 list \<Rightarrow> nat option \<Rightarrow> (u32 list \<times> hybrid_rle) res" where
  "gather_limited_once h target limit =
     (if limit = Some 0 then Inr (target, h)
      else
        let (indicator, consumed) = uleb_decode (h_data h);
            h = h\<lparr>h_data := drop consumed (h_data h)\<rparr>
        in
        if consumed = 0 then
          let step_size = (case limit of None \<Rightarrow> h_values h | Some l \<Rightarrow> min (h_values h) l) in
          Inr (target @ replicate step_size 0, h\<lparr>h_values := h_values h - step_size\<rparr>)
        else if indicator AND 1 = 1 then
          let n = packed_bytes h indicator;
              packed = take n (h_data h);
              h = h\<lparr>h_data := drop n (h_data h)\<rparr>
          in rbind (packed_decoder h packed) (\<lambda>decoder.
             rbind (gather_bitpacked target decoder limit) (\<lambda>(target, num_processed, buffered).
             rbind (consume (h\<lparr>h_buffered := buffered\<rparr>) num_processed) (\<lambda>h. Inr (target, h))))
        else
          let run_length = unat (drop_bit 1 indicator);
              rle_bytes = ceil8 (h_bits h)
          in if rle_bytes \<le> length (h_data h) then
               let pack = take rle_bytes (h_data h);
                   h = h\<lparr>h_data := drop rle_bytes (h_data h)\<rparr>
               in if run_length = 0 then Inr (target, h)
                  else
                    let v = run_value pack;
                        num_elements = (case limit of None \<Rightarrow> run_length | Some l \<Rightarrow> min run_length l);
                        h = (case limit of
                               None \<Rightarrow> h
                             | Some l \<Rightarrow>
                                 if run_length > l
                                 then h\<lparr>h_buffered := Some (BufRle v (run_length - num_elements))\<rparr>
                                 else h)
                    in rbind (consume h num_elements) (\<lambda>h. Inr (target @ replicate num_elements v, h))
             else Inl Panic)"

definition skip_once :: "hybrid_rle \<Rightarrow> nat \<Rightarrow> (nat \<times> hybrid_rle) res" where
  "skip_once h n =
     (let (indicator, consumed) = uleb_decode (h_data h);
          h = h\<lparr>h_data := drop consumed (h_data h)\<rparr>
      in
      rbind
       (if consumed = 0 then Inr (n, h)
        else if indicator AND 1 = 1 then
          let b = packed_bytes h indicator;
              packed = take b (h_data h);
              h = h\<lparr>h_data := drop b (h_data h)\<rparr>
          in rbind (packed_decoder h packed) (\<lambda>decoder.
             if bp_length decoder \<le> n then Inr (bp_length decoder, h)
             else
               rbind (next_inexact (skip_chunks decoder (n div 32))) (\<lambda>(chunk, decoder).
               case chunk of
                 None \<Rightarrow> Inl Panic
               | Some (unpacked, unpacked_length) \<Rightarrow>
                   Inr (n, h\<lparr>h_buffered :=
                     Some (BufBitpacked unpacked (n mod 32) unpacked_length decoder)\<rparr>)))
        else
          let run_length = unat (drop_bit 1 indicator);
              rle_bytes = ceil8 (h_bits h)
          in if rle_bytes \<le> length (h_data h) then
               let pack = take rle_bytes (h_data h);
                   h = h\<lparr>h_data := drop rle_bytes (h_data h)\<rparr>
               in if run_length \<le> n then Inr (run_length, h)
                  else Inr (n, h\<lparr>h_buffered := Some (BufRle (run_value pack) (run_length - n))\<rparr>)
             else Inl Panic)
       (\<lambda>(num_skipped, h). rbind (consume h num_skipped) (\<lambda>h. Inr (num_skipped, h))))"

text \<open>Each step uses up bytes, or values once the bytes have run out, so the loops end.\<close>

lemma uleb_decode_loop_consumed:
  "snd (uleb_decode_loop bs r s c) \<le> c + length bs \<and> (bs \<noteq> [] \<longrightarrow> c < snd (uleb_decode_loop bs r s c))"
  by (induction bs r s c rule: uleb_decode_loop.induct) (auto simp: Let_def)

lemma uleb_decode_consumed:
  assumes "uleb_decode bs = (v, c)"
  shows "c \<le> length bs" and "c = 0 \<longleftrightarrow> bs = []"
  using uleb_decode_loop_consumed [of bs 0 0 0] assms by (auto simp: uleb_decode_def)

lemma consume_Inr: "consume h n = Inr h' \<longleftrightarrow> n \<le> h_values h \<and> h' = h\<lparr>h_values := h_values h - n\<rparr>"
  by (auto simp: consume_def)

lemma uleb_decode_Nil: "uleb_decode [] = (0, 0)"
  by (simp add: uleb_decode_def)

lemma gather_limited_once_empty:
  "h_data h = [] \<Longrightarrow> limit \<noteq> Some 0 \<Longrightarrow> gather_limited_once h target limit =
     (let step_size = (case limit of None \<Rightarrow> h_values h | Some l \<Rightarrow> min (h_values h) l) in
      Inr (target @ replicate step_size 0, h\<lparr>h_values := h_values h - step_size\<rparr>))"
  by (cases h) (simp add: gather_limited_once_def uleb_decode_Nil Let_def split: option.split)

lemma gather_limited_once_progress:
  assumes "gather_limited_once h target limit = Inr (target', h')" "limit \<noteq> Some 0" "0 < h_values h"
  shows "length (h_data h') + h_values h' < length (h_data h) + h_values h"
proof (cases "h_data h = []")
  case True
  then show ?thesis
    using assms by (auto simp: gather_limited_once_empty Let_def split: option.splits)
next
  case False
  obtain v c where u: "uleb_decode (h_data h) = (v, c)" by (cases "uleb_decode (h_data h)")
  have "length (h_data h') < length (h_data h)" "h_values h' \<le> h_values h"
    using assms False uleb_decode_consumed [OF u]
    by (auto simp: gather_limited_once_def u Let_def rbind_eq_Inr_iff consume_Inr split: if_splits option.splits)
  then show ?thesis by simp
qed

lemma skip_once_empty:
  "h_data h = [] \<Longrightarrow> skip_once h n = rbind (consume h n) (\<lambda>h. Inr (n, h))"
  by (cases h) (simp add: skip_once_def uleb_decode_Nil Let_def)

lemma skip_once_progress:
  assumes "skip_once h n = Inr (m, h')" "0 < n" "0 < h_values h"
  shows "length (h_data h') + h_values h' < length (h_data h) + h_values h"
proof (cases "h_data h = []")
  case True
  then show ?thesis
    using assms by (auto simp: skip_once_empty rbind_eq_Inr_iff consume_Inr)
next
  case False
  obtain v c where u: "uleb_decode (h_data h) = (v, c)" by (cases "uleb_decode (h_data h)")
  have "length (h_data h') < length (h_data h)" "h_values h' \<le> h_values h"
    using assms False uleb_decode_consumed [OF u]
    by (auto simp: skip_once_def u Let_def rbind_eq_Inr_iff consume_Inr split: if_splits option.splits)
  then show ?thesis by simp
qed

function gather_all_loop :: "hybrid_rle \<Rightarrow> u32 list \<Rightarrow> u32 list res" where
  "gather_all_loop h target =
     (if 0 < h_values h then
        rbind (gather_limited_once h target None) (\<lambda>(target, h). gather_all_loop h target)
      else Inr target)"
  by pat_completeness auto
termination
  by (relation "measure (\<lambda>(h, _). length (h_data h) + h_values h)")
    (auto dest: gather_limited_once_progress)

function gather_n_loop :: "hybrid_rle \<Rightarrow> u32 list \<Rightarrow> nat \<Rightarrow> (u32 list \<times> hybrid_rle) res" where
  "gather_n_loop h target target_length =
     (if length target < target_length \<and> 0 < h_values h then
        rbind (gather_limited_once h target (Some (target_length - length target)))
          (\<lambda>(target, h). gather_n_loop h target target_length)
      else Inr (target, h))"
  by pat_completeness auto
termination
  by (relation "measure (\<lambda>(h, _). length (h_data h) + h_values h)")
    (auto dest: gather_limited_once_progress)

function skip_loop :: "hybrid_rle \<Rightarrow> nat \<Rightarrow> hybrid_rle res" where
  "skip_loop h n =
     (if 0 < n \<and> 0 < h_values h then
        rbind (skip_once h n) (\<lambda>(num_skipped, h). skip_loop h (n - num_skipped))
      else Inr h)"
  by pat_completeness auto
termination
  by (relation "measure (\<lambda>(h, _). length (h_data h) + h_values h)") (auto dest: skip_once_progress)

declare gather_all_loop.simps [simp del] gather_n_loop.simps [simp del] skip_loop.simps [simp del]

definition gather_into :: "hybrid_rle \<Rightarrow> u32 list \<Rightarrow> u32 list res" where
  "gather_into h target =
     (if h_values h = 0 then Inr target
      else if h_bits h = 0 then Inr (target @ replicate (h_values h) 0)
      else
        rbind (case h_buffered h of
                 None \<Rightarrow> Inr (target, h)
               | Some b \<Rightarrow>
                   rbind (buffered_gather_into b target) (\<lambda>(target, num_buffered).
                   rbind (consume (h\<lparr>h_buffered := None\<rparr>) num_buffered) (\<lambda>h. Inr (target, h))))
          (\<lambda>(target, h). gather_all_loop h target))"

definition gather_n_into :: "hybrid_rle \<Rightarrow> u32 list \<Rightarrow> nat \<Rightarrow> (u32 list \<times> hybrid_rle) res" where
  "gather_n_into h target n =
     (if h_values h = 0 \<or> n = 0 then Inr (target, h)
      else if h_bits h = 0 then
        let n = min n (h_values h) in
        Inr (target @ replicate n 0, h\<lparr>h_values := h_values h - n\<rparr>)
      else
        let target_length = length target + n in
        rbind (case h_buffered h of
                 None \<Rightarrow> Inr (target, h)
               | Some b \<Rightarrow>
                   rbind (buffered_gather_limited b target n) (\<lambda>(target, num_buffered, b).
                   rbind (consume (h\<lparr>h_buffered := Some b\<rparr>) num_buffered) (\<lambda>h.
                     Inr (target, if num_buffered < n then h\<lparr>h_buffered := None\<rparr> else h))))
          (\<lambda>(target, h). gather_n_loop h target target_length))"

definition hybrid_collect :: "hybrid_rle \<Rightarrow> u32 list res" where
  "hybrid_collect h = gather_into h []"

definition skip_in_place :: "hybrid_rle \<Rightarrow> nat \<Rightarrow> hybrid_rle res" where
  "skip_in_place h n =
     (if h_values h = 0 \<or> n = 0 then Inr h
      else if n \<ge> h_values h then Inr (h\<lparr>h_data := [], h_values := 0, h_buffered := None\<rparr>)
      else if h_bits h = 0 then Inr (h\<lparr>h_values := h_values h - n\<rparr>)
      else
        rbind (case h_buffered h of
                 None \<Rightarrow> Inr (n, h)
               | Some b \<Rightarrow>
                   rbind (buffered_skip b n) (\<lambda>(num_skipped, b).
                   let h = h\<lparr>h_buffered := if num_skipped < n then None else Some b\<rparr> in
                   rbind (consume h num_skipped) (\<lambda>h. Inr (n - num_skipped, h))))
          (\<lambda>(n, h). skip_loop h n))"

end
