(* ===== verification/HybridRleLaws.thy ===== *)
theory HybridRleLaws
  imports HybridRle
begin

section \<open>Parquet: reading the hybrid encoding is a cursor over its values\<close>

text \<open>
  What the bytes of the hybrid encoding mean, run by run, and that the decoder of
  \<open>HybridRle\<close> hands out exactly these values: all at once, in portions, or skipping some,
  also when a portion ends inside a run.
\<close>

subsection \<open>The values of a run\<close>

definition run_packed :: "bytes \<Rightarrow> nat \<Rightarrow> u64 \<Rightarrow> bytes" where
  "run_packed data k indicator = take (unat (drop_bit 1 indicator * of_nat k)) data"

definition packed_count :: "bytes \<Rightarrow> nat \<Rightarrow> nat \<Rightarrow> nat" where
  "packed_count packed k n = min (length packed * 8 div k) n"

definition next_run :: "bytes \<Rightarrow> nat \<Rightarrow> nat \<Rightarrow> u32 list \<times> bytes" where
  "next_run data k n =
     (let (indicator, consumed) = uleb_decode data; data = drop consumed data in
      if consumed = 0 then (replicate n 0, [])
      else if indicator AND 1 = 1 then
        let packed = run_packed data k indicator in
        (map (packed_value packed k) [0..<packed_count packed k n], drop (length packed) data)
      else (replicate (unat (drop_bit 1 indicator)) (run_value (take (ceil8 k) data)), drop (ceil8 k) data))"

text \<open>
  A run can be read if a repetition has its value and is no longer than what remains, and
  packed bytes do not go on for a whole block after the last value.
\<close>

definition run_readable :: "bytes \<Rightarrow> nat \<Rightarrow> nat \<Rightarrow> bool" where
  "run_readable data k n =
     (let (indicator, consumed) = uleb_decode data; data = drop consumed data in
      if consumed = 0 then True
      else if indicator AND 1 = 1 then
        let packed = run_packed data k indicator; len = packed_count packed k n in
        len mod 32 = 0 \<or> length packed \<le> 4 * k * (len div 32 + 1)
      else ceil8 k \<le> length data \<and> unat (drop_bit 1 indicator) \<le> n)"

lemma next_run_smaller:
  assumes "next_run data k n = (vs, rest)" "0 < n"
  shows "length rest + (n - length vs) < length data + n"
proof (cases "data = []")
  case False
  obtain v c where u: "uleb_decode data = (v, c)" by (cases "uleb_decode data")
  have "length rest < length data"
    using assms(1) False uleb_decode_consumed [OF u]
    by (auto simp: next_run_def u Let_def split: if_splits)
  then show ?thesis by simp
qed (use assms in \<open>auto simp: next_run_def uleb_decode_Nil\<close>)

function decoded :: "bytes \<Rightarrow> nat \<Rightarrow> nat \<Rightarrow> u32 list" where
  "decoded data k n =
     (if n = 0 then []
      else let (vs, rest) = next_run data k n in vs @ decoded rest k (n - length vs))"
  by pat_completeness auto
termination
  by (relation "measure (\<lambda>(data, _, n). length data + n)") (auto dest: next_run_smaller [OF sym])

function data_ok :: "bytes \<Rightarrow> nat \<Rightarrow> nat \<Rightarrow> bool" where
  "data_ok data k n =
     (if n = 0 then True
      else let (vs, rest) = next_run data k n in run_readable data k n \<and> data_ok rest k (n - length vs))"
  by pat_completeness auto
termination
  by (relation "measure (\<lambda>(data, _, n). length data + n)") (auto dest: next_run_smaller [OF sym])

declare decoded.simps [simp del] data_ok.simps [simp del]

lemma length_next_run: "run_readable data k n \<Longrightarrow> length (fst (next_run data k n)) \<le> n"
  by (cases "uleb_decode data") (auto simp: run_readable_def next_run_def packed_count_def Let_def)

lemma length_decoded: "data_ok data k n \<Longrightarrow> length (decoded data k n) = n"
proof (induction data k n rule: decoded.induct)
  case (1 data k n)
  obtain vs rest where r: "next_run data k n = (vs, rest)" by (cases "next_run data k n")
  show ?case
  proof (cases "n = 0")
    case False
    then have "run_readable data k n" "data_ok rest k (n - length vs)"
      using 1(2) by (simp_all add: data_ok.simps [of data] r)
    then show ?thesis
      using False 1(1) [OF False r [symmetric] refl] length_next_run [of data k n] r
      by (simp add: decoded.simps [of data])
  qed (simp add: decoded.simps)
qed

lemma decoded_empty: "decoded [] k n = replicate n 0" "data_ok [] k n"
proof -
  have r: "next_run [] k n = (replicate n 0, [])" by (simp add: next_run_def uleb_decode_Nil)
  show "decoded [] k n = replicate n 0"
    by (cases "n = 0") (simp_all add: decoded.simps [of "[]" k n] r decoded.simps [of _ _ 0])
  show "data_ok [] k n"
    by (simp add: data_ok.simps [of "[]" k n] r data_ok.simps [of _ _ 0] run_readable_def uleb_decode_Nil)
qed

subsection \<open>The buffered rest of a run\<close>

fun buf_values :: "rle_buffered \<Rightarrow> u32 list" where
  "buf_values (BufRle v len) = replicate len v"
| "buf_values (BufBitpacked us start stop d) = take (stop - start) (drop start us) @ bp_values d"

fun buf_ok :: "rle_buffered \<Rightarrow> bool" where
  "buf_ok (BufRle v len) = True"
| "buf_ok (BufBitpacked us start stop d) = (length us = 32 \<and> start \<le> stop \<and> stop \<le> 32 \<and> bp_wf d)"

lemma gather_chunks_values:
  assumes "bp_wf d" "32 * n \<le> bp_length d"
  shows "\<exists>d'. gather_chunks n d target = Inr (target @ take (32 * n) (bp_values d), d') \<and> bp_wf d' \<and>
    bp_values d' = drop (32 * n) (bp_values d)"
  using assms
proof (induction n arbitrary: d target)
  case (Suc n)
  obtain d' where d': "chunked_next d = Inr (Some (take 32 (bp_values d)), d')" "bp_wf d'"
    "bp_values d' = drop 32 (bp_values d)"
    using chunked_next_values [OF Suc.prems(1)] Suc.prems(2) by auto
  have "bp_length d' = bp_length d - 32"
    using arg_cong [OF d'(3), of length] by simp
  then show ?case
    using Suc.IH [OF d'(2), of "target @ take 32 (bp_values d)"] Suc.prems(2) d'
    by (auto simp: take_add add.commute)
qed auto

text \<open>The end of a bit-packed run that a reader stops in.\<close>

lemma next_inexact_buffered:
  assumes "bp_wf d" "n < bp_length d" "n < 32"
  shows "\<exists>us len d'. next_inexact d = Inr (Some (us, len), d') \<and>
    take n us = take n (bp_values d) \<and>
    buf_ok (BufBitpacked us n len d') \<and> buf_values (BufBitpacked us n len d') = drop n (bp_values d)"
proof -
  let ?len = "min 32 (bp_length d)"
  obtain us d' where d': "next_inexact d = Inr (Some (us, ?len), d')" "length us = 32"
    "take ?len us = take 32 (bp_values d)" "bp_wf d'" "bp_values d' = drop 32 (bp_values d)"
    using next_inexact_values [OF assms(1)] assms(2) by fastforce
  have "take n us = take n (take ?len us)"
    using assms by simp
  then have "take n us = take n (bp_values d)"
    using assms(3) by (simp add: d'(3))
  moreover have "take (?len - n) (drop n us) @ drop 32 (bp_values d) = drop n (bp_values d)"
  proof -
    have "take (?len - n) (drop n us) = drop n (take 32 (bp_values d))"
      unfolding d'(3) [symmetric] by (simp add: drop_take)
    moreover have "drop n (take 32 (bp_values d) @ drop 32 (bp_values d)) =
        drop n (take 32 (bp_values d)) @ drop 32 (bp_values d)"
      using assms unfolding drop_append by simp
    ultimately show ?thesis
      by simp
  qed
  ultimately show ?thesis
    using d' assms by auto
qed

lemma gather_bitpacked_limited_values:
  assumes "bp_wf d" "limit < bp_length d"
  shows "\<exists>b. gather_bitpacked_limited target d limit = Inr (target @ take limit (bp_values d), b) \<and>
    buf_ok b \<and> buf_values b = drop limit (bp_values d)"
proof -
  have split: "32 * (limit div 32) + limit mod 32 = limit"
    by simp
  have "32 * (limit div 32) \<le> bp_length d"
    using assms(2) split by linarith
  then obtain d' where d': "gather_chunks (limit div 32) d target =
      Inr (target @ take (32 * (limit div 32)) (bp_values d), d')" "bp_wf d'"
    "bp_values d' = drop (32 * (limit div 32)) (bp_values d)"
    using gather_chunks_values [OF assms(1), of "limit div 32" target] by blast
  have "limit mod 32 < bp_length d'"
    using arg_cong [OF d'(3), of length] assms(2) split unfolding length_drop length_bp_values by linarith
  then obtain us len d'' where d'': "next_inexact d' = Inr (Some (us, len), d'')"
    "take (limit mod 32) us = take (limit mod 32) (bp_values d')"
    "buf_ok (BufBitpacked us (limit mod 32) len d'')"
    "buf_values (BufBitpacked us (limit mod 32) len d'') = drop (limit mod 32) (bp_values d')"
    using next_inexact_buffered [OF d'(2), of "limit mod 32"] by auto
  have "take limit (bp_values d) = take (32 * (limit div 32)) (bp_values d) @ take (limit mod 32) (bp_values d')"
    using take_add [of "32 * (limit div 32)" "limit mod 32" "bp_values d"] split d'(3) by simp
  moreover have "drop (limit mod 32) (bp_values d') = drop limit (bp_values d)"
    using split by (simp only: d'(3) drop_drop add.commute)
  ultimately show ?thesis
    using d' d'' assms(2) by (simp add: gather_bitpacked_limited_def assert_that_def Let_def del: buf_values.simps buf_ok.simps)
qed

lemma bp_wf_enough: "bp_wf d \<Longrightarrow> bp_enough d"
  by (simp add: bp_wf_def)

lemma bp_take_values: "bp_wf d \<Longrightarrow> bp_wf (snd (bp_take d)) \<and> bp_values (snd (bp_take d)) = []"
  by (simp add: bp_take_def bp_wf_def bp_enough_def bp_values_def)

lemma buffered_gather_limited_values:
  assumes "buf_ok b"
  shows "\<exists>b'. buffered_gather_limited b target limit =
      Inr (target @ take limit (buf_values b), min limit (length (buf_values b)), b') \<and> buf_ok b' \<and>
    buf_values b' = drop limit (buf_values b)"
proof (cases b)
  case (BufBitpacked us start stop d)
  have ok: "length us = 32" "start \<le> stop" "stop \<le> 32" "bp_wf d"
    using assms by (simp_all add: BufBitpacked)
  then have n: "length (take (stop - start) (drop start us)) = stop - start"
    by simp
  consider "limit \<le> stop - start" | "stop - start + bp_length d \<le> limit" "\<not> limit \<le> stop - start"
    | "\<not> limit \<le> stop - start" "limit - (stop - start) < bp_length d"
    by linarith
  then show ?thesis
  proof cases
    case 1
    have "take (stop - (start + limit)) (drop (start + limit) us) = drop limit (take (stop - start) (drop start us))"
      by (simp add: drop_take add.commute)
    then show ?thesis
      using 1 ok by (auto simp: BufBitpacked)
  next
    case 2
    then show ?thesis
      using ok collect_into_values [OF bp_wf_enough [OF ok(4)]] bp_take_values [OF ok(4)]
      by (auto simp: BufBitpacked Let_def bp_take_def)
  next
    case 3
    then show ?thesis
      using ok gather_bitpacked_limited_values [OF ok(4) 3(2), of "target @ take (stop - start) (drop start us)"]
      by (auto simp: BufBitpacked Let_def bp_take_def)
  qed
qed (auto simp: Let_def min_def)

lemma buffered_gather_into_values:
  assumes "buf_ok b"
  shows "buffered_gather_into b target = Inr (target @ buf_values b, length (buf_values b))"
  using assms by (cases b) (auto simp: collect_into_values bp_wf_enough)

lemma skip_bitpacked_values:
  assumes "bp_wf d" "n < bp_length d"
  shows "\<exists>us len d'. next_inexact (skip_chunks d (n div 32)) = Inr (Some (us, len), d') \<and>
    buf_ok (BufBitpacked us (n mod 32) len d') \<and>
    buf_values (BufBitpacked us (n mod 32) len d') = drop n (bp_values d)"
proof -
  have split: "32 * (n div 32) + n mod 32 = n"
    by simp
  let ?d = "skip_chunks d (n div 32)"
  have le: "32 * (n div 32) \<le> bp_length d"
    using assms(2) split by linarith
  have d: "bp_wf ?d" "bp_values ?d = drop (32 * (n div 32)) (bp_values d)"
    using skip_chunks_values [OF assms(1) le] by auto
  have "n mod 32 < bp_length ?d"
    using arg_cong [OF d(2), of length] assms(2) split unfolding length_drop length_bp_values by linarith
  then show ?thesis
    using next_inexact_buffered [OF d(1), of "n mod 32"] split unfolding d(2) by (auto simp: drop_drop add.commute)
qed

lemma buffered_skip_values:
  assumes "buf_ok b"
  shows "\<exists>b'. buffered_skip b n = Inr (min n (length (buf_values b)), b') \<and> buf_ok b' \<and>
    buf_values b' = drop n (buf_values b)"
proof (cases b)
  case (BufBitpacked us start stop d)
  have ok: "length us = 32" "start \<le> stop" "stop \<le> 32" "bp_wf d"
    using assms by (simp_all add: BufBitpacked)
  consider "n < stop - start" | "stop - start + bp_length d \<le> n"
    | "\<not> n < stop - start" "n - (stop - start) < bp_length d"
    by linarith
  then show ?thesis
  proof cases
    case 1
    have "take (stop - (start + n)) (drop (start + n) us) = drop n (take (stop - start) (drop start us))"
      by (simp add: drop_take add.commute)
    then show ?thesis
      using 1 ok by (auto simp: BufBitpacked)
  next
    case 2
    then show ?thesis
      using ok bp_take_values [OF ok(4)] by (auto simp: BufBitpacked Let_def bp_take_def)
  next
    case 3
    then show ?thesis
      using ok skip_bitpacked_values [OF ok(4) 3(2)] by (auto simp: BufBitpacked Let_def)
  qed
qed (auto simp: Let_def min_def)

subsection \<open>One step of the decoder\<close>

lemma take_packed_bytes:
  "take (packed_bytes h v) (h_data h) = run_packed (h_data h) (h_bits h) v"
  "drop (packed_bytes h v) (h_data h) = drop (length (run_packed (h_data h) (h_bits h) v)) (h_data h)"
  by (auto simp: packed_bytes_def run_packed_def min_def)

lemma packed_decoder_values:
  assumes "0 < h_bits h" "h_bits h \<le> 32"
    and "len = packed_count packed (h_bits h) (h_values h)"
    and "len mod 32 = 0 \<or> length packed \<le> 4 * h_bits h * (len div 32 + 1)"
  shows "\<exists>d. packed_decoder h packed = Inr d \<and> bp_wf d \<and> bp_length d = len \<and>
    bp_values d = map (packed_value packed (h_bits h)) [0..<len]"
proof -
  have "len * h_bits h \<le> length packed * 8"
    using assms(3) by (simp add: packed_count_def)
      (meson div_times_less_eq_dividend le_trans min.cobounded1 mult_le_mono1)
  then show ?thesis
    using assms by (auto simp: packed_decoder_def bp_try_new_def bp_wf_def bp_enough_def bp_values_def packed_count_def)
qed

text \<open>A step with a limit hands out a prefix of the run, and buffers the rest.\<close>

definition taken :: "nat option \<Rightarrow> u32 list \<Rightarrow> nat" where
  "taken limit vs = (case limit of None \<Rightarrow> length vs | Some l \<Rightarrow> min l (length vs))"

definition rest_buffered :: "rle_buffered option \<Rightarrow> nat \<Rightarrow> u32 list \<Rightarrow> bool" where
  "rest_buffered b m vs =
     (case b of None \<Rightarrow> m = length vs | Some b \<Rightarrow> m < length vs \<and> buf_ok b \<and> buf_values b = drop m vs)"

lemma gather_bitpacked_values:
  assumes "bp_wf d"
  shows "\<exists>b. gather_bitpacked target d limit = Inr (target @ take (taken limit (bp_values d)) (bp_values d),
      taken limit (bp_values d), b) \<and> rest_buffered b (taken limit (bp_values d)) (bp_values d)"
proof (cases "\<exists>l. limit = Some l \<and> l < bp_length d")
  case True
  then show ?thesis
    using gather_bitpacked_limited_values [OF assms, of _ target]
    by (fastforce simp: gather_bitpacked_def taken_def rest_buffered_def min_def)
next
  case False
  then show ?thesis
    using collect_into_values [OF bp_wf_enough [OF assms], of target]
    by (auto simp: gather_bitpacked_def taken_def rest_buffered_def min_def split: option.splits)
qed

lemma gather_limited_once_run:
  assumes h: "0 < h_bits h" "h_bits h \<le> 32" "h_buffered h = None" "h_data h \<noteq> []"
    and ok: "run_readable (h_data h) (h_bits h) (h_values h)"
    and run: "next_run (h_data h) (h_bits h) (h_values h) = (vs, rest)"
    and limit: "limit \<noteq> Some 0"
  shows "\<exists>b. gather_limited_once h target limit = Inr (target @ take (taken limit vs) vs,
      h\<lparr>h_data := rest, h_values := h_values h - taken limit vs, h_buffered := b\<rparr>) \<and>
    rest_buffered b (taken limit vs) vs"
proof -
  obtain data k n where hh: "h = \<lparr>h_data = data, h_bits = k, h_values = n, h_buffered = None\<rparr>"
    using h(3) by (cases h) auto
  obtain v c where u: "uleb_decode data = (v, c)" by (cases "uleb_decode data")
  have c: "0 < c"
    using uleb_decode_consumed(2) [OF u] h(4) by (simp add: hh)
  have m: "taken limit vs \<le> h_values h"
    using length_next_run [OF ok] run by (auto simp: taken_def split: option.splits)
  show ?thesis
  proof (cases "v AND 1 = 1")
    case True
    let ?h = "h\<lparr>h_data := drop c data\<rparr>"
    let ?packed = "run_packed (drop c data) k v"
    obtain d where d: "packed_decoder (?h\<lparr>h_data := drop (packed_bytes ?h v) (h_data ?h)\<rparr>) ?packed = Inr d"
      "bp_wf d" "bp_values d = vs"
      using packed_decoder_values [OF _ _ refl, of "?h\<lparr>h_data := drop (packed_bytes ?h v) (h_data ?h)\<rparr>" ?packed]
        h ok run c True by (auto simp: hh run_readable_def next_run_def u Let_def)
    show ?thesis
      using gather_bitpacked_values [OF d(2), of target limit] c True limit m d(1) run
        take_packed_bytes [of ?h v]
      by (auto simp: hh gather_limited_once_def u Let_def d(3) consume_def next_run_def)
  next
    case False
    then show ?thesis
      using ok run c limit m h(3)
      by (auto simp: hh gather_limited_once_def run_readable_def next_run_def u Let_def consume_def
        rest_buffered_def taken_def split: option.splits)
  qed
qed

lemma skip_once_run:
  assumes h: "0 < h_bits h" "h_bits h \<le> 32" "h_buffered h = None" "h_data h \<noteq> []"
    and ok: "run_readable (h_data h) (h_bits h) (h_values h)"
    and run: "next_run (h_data h) (h_bits h) (h_values h) = (vs, rest)"
  shows "\<exists>b. skip_once h n = Inr (taken (Some n) vs,
      h\<lparr>h_data := rest, h_values := h_values h - taken (Some n) vs, h_buffered := b\<rparr>) \<and>
    rest_buffered b (taken (Some n) vs) vs"
proof -
  obtain data k N where hh: "h = \<lparr>h_data = data, h_bits = k, h_values = N, h_buffered = None\<rparr>"
    using h(3) by (cases h) auto
  obtain v c where u: "uleb_decode data = (v, c)" by (cases "uleb_decode data")
  have c: "0 < c"
    using uleb_decode_consumed(2) [OF u] h(4) by (simp add: hh)
  have m: "taken (Some n) vs \<le> h_values h"
    using length_next_run [OF ok] run by (auto simp: taken_def)
  show ?thesis
  proof (cases "v AND 1 = 1")
    case True
    let ?h = "h\<lparr>h_data := drop c data\<rparr>"
    let ?packed = "run_packed (drop c data) k v"
    obtain d where d: "packed_decoder (?h\<lparr>h_data := drop (packed_bytes ?h v) (h_data ?h)\<rparr>) ?packed = Inr d"
      "bp_wf d" "bp_values d = vs"
      using packed_decoder_values [OF _ _ refl, of "?h\<lparr>h_data := drop (packed_bytes ?h v) (h_data ?h)\<rparr>" ?packed]
        h ok run c True by (auto simp: hh run_readable_def next_run_def u Let_def)
    have l: "bp_length d = length vs"
      using d(3) by auto
    show ?thesis
    proof (cases "length vs \<le> n")
      case True
      then show ?thesis
        using c \<open>v AND 1 = 1\<close> m d(1) run h(3) take_packed_bytes [of ?h v]
        by (auto simp: hh skip_once_def u Let_def l consume_def next_run_def taken_def rest_buffered_def)
    next
      case False
      then show ?thesis
        using skip_bitpacked_values [OF d(2), of n] c \<open>v AND 1 = 1\<close> m d(1) run take_packed_bytes [of ?h v]
        by (auto simp: hh skip_once_def u Let_def l d(3) consume_def next_run_def taken_def rest_buffered_def)
    qed
  next
    case False
    then show ?thesis
      using ok run c m h(3)
      by (auto simp: hh skip_once_def run_readable_def next_run_def u Let_def consume_def
        rest_buffered_def taken_def)
  qed
qed

end
