(* ===== verification/HybridRleCursor.thy ===== *)
theory HybridRleCursor
  imports HybridRleLaws
begin

section \<open>Parquet: the hybrid decoder as a cursor\<close>

text \<open>The decoder of \<open>HybridRle\<close> refines a cursor over the values that its bytes stand for.\<close>

definition buf_list :: "hybrid_rle \<Rightarrow> u32 list" where
  "buf_list h = (case h_buffered h of None \<Rightarrow> [] | Some b \<Rightarrow> buf_values b)"

definition hybrid_values :: "hybrid_rle \<Rightarrow> u32 list" where
  "hybrid_values h =
     (if h_bits h = 0 then replicate (h_values h) 0
      else buf_list h @ decoded (h_data h) (h_bits h) (h_values h - length (buf_list h)))"

definition hybrid_ok :: "hybrid_rle \<Rightarrow> bool" where
  "hybrid_ok h =
     (h_bits h \<le> 32 \<and>
      (0 < h_bits h \<longrightarrow>
        (case h_buffered h of None \<Rightarrow> True | Some b \<Rightarrow> buf_ok b) \<and>
        length (buf_list h) \<le> h_values h \<and>
        data_ok (h_data h) (h_bits h) (h_values h - length (buf_list h))))"

lemma length_hybrid_values: "hybrid_ok h \<Longrightarrow> length (hybrid_values h) = h_values h"
  by (auto simp: hybrid_values_def hybrid_ok_def length_decoded)

text \<open>One step from a decoder that has buffered nothing, whatever the step is.\<close>

lemma step_values:
  assumes h: "hybrid_ok h" "0 < h_bits h" "h_buffered h = None" "0 < h_values h"
    and run: "next_run (h_data h) (h_bits h) (h_values h) = (vs, rest)"
    and b: "rest_buffered b m vs" "m \<le> length vs"
    and h': "h' = h\<lparr>h_data := rest, h_values := h_values h - m, h_buffered := b\<rparr>"
  shows "hybrid_ok h'" and "hybrid_values h' = drop m (hybrid_values h)"
    and "take m vs = take m (hybrid_values h)"
proof -
  have ok: "run_readable (h_data h) (h_bits h) (h_values h)" "data_ok rest (h_bits h) (h_values h - length vs)"
    using h run by (simp_all add: hybrid_ok_def buf_list_def data_ok.simps [of "h_data h"])
  have vs: "length vs \<le> h_values h"
    using length_next_run [OF ok(1)] run by simp
  have vals: "hybrid_values h = vs @ decoded rest (h_bits h) (h_values h - length vs)"
    using h run by (simp add: hybrid_values_def buf_list_def decoded.simps [of "h_data h"])
  have buf: "buf_list h' = drop m vs"
    using b h' by (auto simp: buf_list_def rest_buffered_def split: option.splits)
  have f: "h_data h' = rest" "h_bits h' = h_bits h" "h_values h' = h_values h - m" "h_buffered h' = b"
    by (simp_all add: h')
  have n: "h_values h' - length (buf_list h') = h_values h - length vs"
    using b(2) vs by (simp add: buf f)
  show "hybrid_ok h'"
    using h(1,2) b ok vs n by (auto simp: hybrid_ok_def buf f rest_buffered_def split: option.splits)
  show "hybrid_values h' = drop m (hybrid_values h)"
    using h(2) n b(2) by (simp add: hybrid_values_def [of h'] vals buf f)
  show "take m vs = take m (hybrid_values h)"
    using b(2) by (simp add: vals)
qed

lemma empty_values:
  "hybrid_ok h \<Longrightarrow> 0 < h_bits h \<Longrightarrow> h_buffered h = None \<Longrightarrow> h_data h = [] \<Longrightarrow>
   hybrid_values h = replicate (h_values h) 0 \<and> hybrid_ok (h\<lparr>h_values := n\<rparr>) \<and>
   hybrid_values (h\<lparr>h_values := n\<rparr>) = replicate n 0"
  by (simp add: hybrid_values_def hybrid_ok_def buf_list_def decoded_empty)

lemma gather_limited_once_values:
  assumes h: "hybrid_ok h" "0 < h_bits h" "h_buffered h = None" "0 < h_values h"
    and limit: "limit \<noteq> Some 0"
  shows "\<exists>m h'. gather_limited_once h target limit = Inr (target @ take m (hybrid_values h), h') \<and>
    hybrid_ok h' \<and> h_bits h' = h_bits h \<and> hybrid_values h' = drop m (hybrid_values h) \<and>
    m \<le> h_values h \<and>
    (case limit of None \<Rightarrow> h_buffered h' = None | Some l \<Rightarrow> m \<le> l \<and> (h_buffered h' \<noteq> None \<longrightarrow> m = l))"
proof (cases "h_data h = []")
  case True
  define m where "m = (case limit of None \<Rightarrow> h_values h | Some l \<Rightarrow> min (h_values h) l)"
  have "gather_limited_once h target limit = Inr (target @ replicate m 0, h\<lparr>h_values := h_values h - m\<rparr>)"
    by (simp add: gather_limited_once_empty [OF True limit] m_def Let_def)
  moreover have "m \<le> h_values h" "\<And>l. limit = Some l \<Longrightarrow> m \<le> l"
    by (auto simp: m_def split: option.splits)
  ultimately show ?thesis
    using empty_values [OF h(1-3) True, of "h_values h - m"] h(3)
    by (intro exI [of _ m] exI [of _ "h\<lparr>h_values := h_values h - m\<rparr>"])
      (auto simp: min_def split: option.splits)
next
  case False
  obtain vs rest where run: "next_run (h_data h) (h_bits h) (h_values h) = (vs, rest)"
    by (cases "next_run (h_data h) (h_bits h) (h_values h)")
  have ok: "h_bits h \<le> 32" "run_readable (h_data h) (h_bits h) (h_values h)"
    using h run by (simp_all add: hybrid_ok_def buf_list_def data_ok.simps [of "h_data h"])
  let ?m = "taken limit vs"
  obtain b where b: "gather_limited_once h target limit = Inr (target @ take ?m vs,
      h\<lparr>h_data := rest, h_values := h_values h - ?m, h_buffered := b\<rparr>)" "rest_buffered b ?m vs"
    using gather_limited_once_run [OF h(2) ok(1) h(3) False ok(2) run limit, of target] by auto
  have m: "?m \<le> length vs" "length vs \<le> h_values h"
    using length_next_run [OF ok(2)] run by (auto simp: taken_def split: option.splits)
  have "case limit of None \<Rightarrow> b = None | Some l \<Rightarrow> ?m \<le> l \<and> (b \<noteq> None \<longrightarrow> ?m = l)"
    using b(2) by (auto simp: taken_def rest_buffered_def split: option.splits)
  then show ?thesis
    using b(1) m step_values [OF h run b(2) m(1) refl]
    by (intro exI [of _ ?m]) (auto split: option.splits)
qed

lemma skip_once_values:
  assumes h: "hybrid_ok h" "0 < h_bits h" "h_buffered h = None" "0 < h_values h" and n: "n \<le> h_values h"
  shows "\<exists>m h'. skip_once h n = Inr (m, h') \<and> hybrid_ok h' \<and> h_bits h' = h_bits h \<and>
    hybrid_values h' = drop m (hybrid_values h) \<and> m \<le> n \<and> (h_buffered h' \<noteq> None \<longrightarrow> m = n)"
proof (cases "h_data h = []")
  case True
  then show ?thesis
    using empty_values [OF h(1-3) True, of "h_values h - n"] h(3) n
    by (auto simp: skip_once_empty consume_def)
next
  case False
  obtain vs rest where run: "next_run (h_data h) (h_bits h) (h_values h) = (vs, rest)"
    by (cases "next_run (h_data h) (h_bits h) (h_values h)")
  have ok: "h_bits h \<le> 32" "run_readable (h_data h) (h_bits h) (h_values h)"
    using h run by (simp_all add: hybrid_ok_def buf_list_def data_ok.simps [of "h_data h"])
  let ?m = "taken (Some n) vs"
  obtain b where b: "skip_once h n = Inr (?m,
      h\<lparr>h_data := rest, h_values := h_values h - ?m, h_buffered := b\<rparr>)" "rest_buffered b ?m vs"
    using skip_once_run [OF h(2) ok(1) h(3) False ok(2) run, of n] by auto
  have m: "?m \<le> length vs" "?m \<le> n" "b \<noteq> None \<longrightarrow> ?m = n"
    using b(2) by (auto simp: taken_def rest_buffered_def)
  then show ?thesis
    using b(1) step_values [OF h run b(2) m(1) refl] by auto
qed

subsection \<open>The loops\<close>

lemma gather_all_loop_values:
  "hybrid_ok h \<Longrightarrow> 0 < h_bits h \<Longrightarrow> h_buffered h = None \<Longrightarrow>
   gather_all_loop h target = Inr (target @ hybrid_values h)"
proof (induction h target rule: gather_all_loop.induct)
  case (1 h target)
  show ?case
  proof (cases "0 < h_values h")
    case True
    obtain m h' where s: "gather_limited_once h target None = Inr (target @ take m (hybrid_values h), h')"
      "hybrid_ok h'" "h_bits h' = h_bits h" "hybrid_values h' = drop m (hybrid_values h)" "h_buffered h' = None"
      using gather_limited_once_values [OF 1(2-4) True, of None target] by auto
    then show ?thesis
      using 1(1) [OF True s(1) refl s(2)] 1(3) True by (simp add: gather_all_loop.simps [of h])
  next
    case False
    then show ?thesis
      using length_hybrid_values [OF 1(2)] by (simp add: gather_all_loop.simps [of h])
  qed
qed

lemma gather_n_loop_values:
  "hybrid_ok h \<Longrightarrow> 0 < h_bits h \<Longrightarrow> (length target < tlen \<Longrightarrow> h_buffered h = None) \<Longrightarrow>
   \<exists>h'. gather_n_loop h target tlen = Inr (target @ take (tlen - length target) (hybrid_values h), h') \<and>
     hybrid_ok h' \<and> hybrid_values h' = drop (tlen - length target) (hybrid_values h)"
proof (induction h target tlen rule: gather_n_loop.induct)
  case (1 h target tlen)
  show ?case
  proof (cases "length target < tlen \<and> 0 < h_values h")
    case True
    let ?l = "tlen - length target"
    obtain m h' where s: "gather_limited_once h target (Some ?l) = Inr (target @ take m (hybrid_values h), h')"
      "hybrid_ok h'" "h_bits h' = h_bits h" "hybrid_values h' = drop m (hybrid_values h)"
      "m \<le> h_values h" "m \<le> ?l" "h_buffered h' \<noteq> None \<longrightarrow> m = ?l"
      using gather_limited_once_values [OF 1(2,3) 1(4), of "Some ?l" target] True by auto
    have len: "length (take m (hybrid_values h)) = m"
      using s(5) length_hybrid_values [OF 1(2)] by simp
    have tl: "tlen - length (target @ take m (hybrid_values h)) = ?l - m"
      using len by simp
    have "take m (hybrid_values h) @ take (?l - m) (drop m (hybrid_values h)) = take ?l (hybrid_values h)"
      using s(6) by (metis le_add_diff_inverse take_add)
    moreover have "drop (?l - m) (drop m (hybrid_values h)) = drop ?l (hybrid_values h)"
      using s(6) by (simp only: drop_drop le_add_diff_inverse2)
    moreover have "h_buffered h' = None" if "length (target @ take m (hybrid_values h)) < tlen"
      using that s(7) len by auto
    ultimately show ?thesis
      using 1(1) [OF True s(1) refl s(2)] 1(3) True s(1,3) unfolding tl s(4)
      by (simp add: gather_n_loop.simps [of h target])
  next
    case False
    then show ?thesis
      using length_hybrid_values [OF 1(2)] 1(2) by (auto simp: gather_n_loop.simps [of h target])
  qed
qed

lemma skip_loop_values:
  "hybrid_ok h \<Longrightarrow> 0 < h_bits h \<Longrightarrow> (0 < n \<Longrightarrow> h_buffered h = None) \<Longrightarrow> n \<le> h_values h \<Longrightarrow>
   \<exists>h'. skip_loop h n = Inr h' \<and> hybrid_ok h' \<and> hybrid_values h' = drop n (hybrid_values h)"
proof (induction h n rule: skip_loop.induct)
  case (1 h n)
  show ?case
  proof (cases "0 < n \<and> 0 < h_values h")
    case True
    obtain m h' where s: "skip_once h n = Inr (m, h')" "hybrid_ok h'" "h_bits h' = h_bits h"
      "hybrid_values h' = drop m (hybrid_values h)" "m \<le> n" "h_buffered h' \<noteq> None \<longrightarrow> m = n"
      using skip_once_values [OF 1(2,3) 1(4) _ 1(5)] True by auto
    have "h_values h' = h_values h - m"
      using length_hybrid_values [OF s(2)] length_hybrid_values [OF 1(2)] s(4) by simp
    then show ?thesis
      using 1(1) [OF True s(1) refl s(2)] 1(3,5) s True by (auto simp: skip_loop.simps [of h])
  next
    case False
    then show ?thesis
      using 1(2,5) by (auto simp: skip_loop.simps [of h])
  qed
qed

subsection \<open>The operations\<close>

lemma gather_into_values: "hybrid_ok h \<Longrightarrow> gather_into h target = Inr (target @ hybrid_values h)"
proof -
  assume ok: "hybrid_ok h"
  show ?thesis
  proof (cases "h_bits h = 0 \<or> h_values h = 0 \<or> h_buffered h = None")
    case True
    then show ?thesis
      using gather_all_loop_values [OF ok] length_hybrid_values [OF ok]
      by (auto simp: gather_into_def hybrid_values_def)
  next
    case False
    then obtain b where b: "h_buffered h = Some b" by auto
    let ?h = "h\<lparr>h_buffered := None, h_values := h_values h - length (buf_values b)\<rparr>"
    have k: "0 < h_bits h" "buf_ok b" "length (buf_values b) \<le> h_values h" "hybrid_ok ?h"
      "hybrid_values h = buf_values b @ hybrid_values ?h"
      using ok False b by (auto simp: hybrid_ok_def hybrid_values_def buf_list_def)
    then show ?thesis
      using gather_all_loop_values [OF k(4)] buffered_gather_into_values [OF k(2)] False b
      by (simp add: gather_into_def consume_def)
  qed
qed

text \<open>Reading \<open>n\<close> values from the buffer first: it is dropped once it does not give enough.\<close>

lemma buffered_step:
  assumes ok: "hybrid_ok h" "0 < h_bits h" and b: "h_buffered h = Some b" "buf_ok b'"
    and vals: "buf_values b' = drop n (buf_values b)" and m: "m = min n (length (buf_values b))"
    and h': "h' = h\<lparr>h_buffered := if m < n then None else Some b', h_values := h_values h - m\<rparr>"
  shows "m \<le> h_values h" and "hybrid_ok h'" and "hybrid_values h' = drop m (hybrid_values h)"
    and "take n (buf_values b) = take m (hybrid_values h)"
proof -
  have k: "length (buf_values b) \<le> h_values h"
    using ok b by (simp add: hybrid_ok_def buf_list_def)
  then show "m \<le> h_values h" using m by simp
  have buf: "buf_list h' = drop m (buf_values b)"
    using vals m by (auto simp: buf_list_def h' min_def)
  have f: "h_data h' = h_data h" "h_bits h' = h_bits h" "h_values h' = h_values h - m"
    "h_buffered h' = (if m < n then None else Some b')"
    by (simp_all add: h')
  have n: "h_values h' - length (buf_list h') = h_values h - length (buf_values b)"
    using k m by (simp add: buf f)
  show "hybrid_ok h'"
    using ok b n k m by (auto simp: hybrid_ok_def buf f buf_list_def [of h])
  show "hybrid_values h' = drop m (hybrid_values h)" "take n (buf_values b) = take m (hybrid_values h)"
    using ok(2) b n m unfolding hybrid_values_def
    by (auto simp: buf f buf_list_def [of h] min_def)
qed

lemma values_buffered_commute: "h\<lparr>h_values := n, h_buffered := b\<rparr> = h\<lparr>h_buffered := b, h_values := n\<rparr>"
  by (cases h) simp

lemma gather_n_into_values:
  assumes ok: "hybrid_ok h"
  shows "\<exists>h'. gather_n_into h target n = Inr (target @ take n (hybrid_values h), h') \<and> hybrid_ok h' \<and>
    hybrid_values h' = drop n (hybrid_values h)"
proof -
  consider "h_values h = 0 \<or> n = 0" | "0 < h_values h" "0 < n" "h_bits h = 0"
    | "0 < h_values h" "0 < n" "0 < h_bits h" "h_buffered h = None"
    | b where "0 < h_values h" "0 < n" "0 < h_bits h" "h_buffered h = Some b"
    by blast
  then show ?thesis
  proof cases
    case 1
    then show ?thesis
      using ok length_hybrid_values [OF ok] by (auto simp: gather_n_into_def)
  next
    case 2
    then show ?thesis
      by (auto simp: gather_n_into_def hybrid_values_def hybrid_ok_def min_def Let_def)
  next
    case 3
    then show ?thesis
      using gather_n_loop_values [OF ok 3(3), of target "length target + n"]
      by (simp add: gather_n_into_def Let_def)
  next
    case (4 b)
    then have "buf_ok b" using ok by (simp add: hybrid_ok_def)
    define m where "m = min n (length (buf_values b))"
    obtain b' where b': "buffered_gather_limited b target n = Inr (target @ take n (buf_values b), m, b')"
      "buf_ok b'" "buf_values b' = drop n (buf_values b)"
      using buffered_gather_limited_values [OF \<open>buf_ok b\<close>, of target n] by (auto simp: m_def)
    define h' where "h' = h\<lparr>h_buffered := if m < n then None else Some b', h_values := h_values h - m\<rparr>"
    note st = buffered_step [OF ok 4(3,4) b'(2,3) m_def h'_def]
    have f: "h_bits h' = h_bits h" "h_values h' = h_values h - m" "m < n \<Longrightarrow> h_buffered h' = None"
      by (simp_all add: h'_def)
    have len: "length (take m (hybrid_values h)) = m"
      using st(1) length_hybrid_values [OF ok] by simp
    have "gather_n_into h target n = gather_n_loop h' (target @ take m (hybrid_values h)) (length target + n)"
      using 4 b' st(1,4) by (auto simp: gather_n_into_def Let_def consume_def h'_def values_buffered_commute)
    moreover have "take n (hybrid_values h) = take m (hybrid_values h) @ take (n - m) (drop m (hybrid_values h))"
      using take_add [of m "n - m" "hybrid_values h"] by (simp add: m_def)
    moreover have "drop (n - m) (drop m (hybrid_values h)) = drop n (hybrid_values h)"
      by (simp add: m_def)
    ultimately show ?thesis
      using gather_n_loop_values [OF st(2), of "target @ take m (hybrid_values h)" "length target + n"] 4(3) len f
      by (auto simp: st(3))
  qed
qed

lemma skip_in_place_values:
  assumes ok: "hybrid_ok h"
  shows "\<exists>h'. skip_in_place h n = Inr h' \<and> hybrid_ok h' \<and> hybrid_values h' = drop n (hybrid_values h)"
proof -
  consider "n = 0" | "0 < n" "h_values h \<le> n" | "0 < n" "n < h_values h" "h_bits h = 0"
    | "0 < n" "n < h_values h" "0 < h_bits h" "h_buffered h = None"
    | b where "0 < n" "n < h_values h" "0 < h_bits h" "h_buffered h = Some b"
    by (meson gr0I not_le option.exhaust)
  then show ?thesis
  proof cases
    case 2
    have "hybrid_ok (h\<lparr>h_data := [], h_values := 0, h_buffered := None\<rparr>)"
      using ok by (simp add: hybrid_ok_def buf_list_def decoded_empty)
    moreover from this have "hybrid_values (h\<lparr>h_data := [], h_values := 0, h_buffered := None\<rparr>) = []"
      using length_hybrid_values by fastforce
    ultimately show ?thesis
      using 2 ok length_hybrid_values [OF ok] by (auto simp: skip_in_place_def)
  next
    case 4
    then show ?thesis
      using skip_loop_values [OF ok 4(3), of n] by (simp add: skip_in_place_def)
  next
    case (5 b)
    then have "buf_ok b" using ok by (simp add: hybrid_ok_def)
    define m where "m = min n (length (buf_values b))"
    obtain b' where b': "buffered_skip b n = Inr (m, b')" "buf_ok b'" "buf_values b' = drop n (buf_values b)"
      using buffered_skip_values [OF \<open>buf_ok b\<close>, of n] by (auto simp: m_def)
    define h' where "h' = h\<lparr>h_buffered := if m < n then None else Some b', h_values := h_values h - m\<rparr>"
    note st = buffered_step [OF ok 5(3,4) b'(2,3) m_def h'_def]
    have f: "h_bits h' = h_bits h" "h_values h' = h_values h - m" "m < n \<Longrightarrow> h_buffered h' = None"
      by (simp_all add: h'_def)
    have "skip_in_place h n = skip_loop h' (n - m)"
      using 5 b' st(1) by (auto simp: skip_in_place_def Let_def consume_def h'_def)
    moreover have "drop (n - m) (drop m (hybrid_values h)) = drop n (hybrid_values h)"
      by (simp add: m_def)
    ultimately show ?thesis
      using skip_loop_values [OF st(2), of "n - m"] 5 f by (auto simp: st(3))
  qed (use ok in \<open>auto simp: skip_in_place_def hybrid_ok_def hybrid_values_def\<close>)
qed

subsection \<open>Refinement of a cursor\<close>

datatype cursor_op = Collect nat | Skip nat

fun hybrid_step :: "cursor_op \<Rightarrow> hybrid_rle \<Rightarrow> (u32 list \<times> hybrid_rle) res" where
  "hybrid_step (Collect n) h = gather_n_into h [] n"
| "hybrid_step (Skip n) h = rbind (skip_in_place h n) (\<lambda>h. Inr ([], h))"

fun cursor_step :: "cursor_op \<Rightarrow> 'v list \<Rightarrow> 'v list \<times> 'v list" where
  "cursor_step (Collect n) vs = (take n vs, drop n vs)"
| "cursor_step (Skip n) vs = ([], drop n vs)"

interpretation hybrid_sim: simulates hybrid_step cursor_step "\<lambda>_ _. True" hybrid_values hybrid_ok
proof
  fix h x
  assume "hybrid_ok h"
  then show "\<exists>h'. hybrid_step x h = Inr (fst (cursor_step x (hybrid_values h)), h') \<and> hybrid_ok h' \<and>
      hybrid_values h' = snd (cursor_step x (hybrid_values h))"
    using gather_n_into_values [of h "[]"] skip_in_place_values [of h]
    by (cases x) (auto simp: rbind_eq_Inr_iff)
qed

lemma admissible_always: "admissible (\<lambda>_ _. True) step xs a"
  by (induction xs arbitrary: a) simp_all

lemma hybrid_new_values:
  "k \<le> 32 \<Longrightarrow> 0 < k \<Longrightarrow> data_ok data k n \<Longrightarrow>
   hybrid_ok (hybrid_new data k n) \<and> hybrid_values (hybrid_new data k n) = decoded data k n"
  by (simp add: hybrid_new_def hybrid_ok_def hybrid_values_def buf_list_def)

lemma cursor_run:
  assumes "hybrid_ok h"
  shows "\<exists>h'. run hybrid_step ops h = Inr (fst (run_spec cursor_step ops (hybrid_values h)), h') \<and>
    hybrid_collect h' = Inr (snd (run_spec cursor_step ops (hybrid_values h)))"
  using hybrid_sim.run_sim [OF assms admissible_always, of ops] gather_into_values [of _ "[]"]
  by (auto simp: hybrid_collect_def)

end
