(* ===== verification/HybridRleEncode.thy ===== *)
theory HybridRleEncode
  imports HybridRleCursor
begin

section \<open>Parquet: what the hybrid encoder writes can be read back\<close>

text \<open>
  The encoder is generic in the trait \<open>Encoder\<close>, whose contract is the locale
  \<open>run_encoder\<close>: a literal run and a repetition stand for their values. The invariant of the
  loop of \<open>encode\<close> is proved from the contract alone; the implementations for \<open>u32\<close> and
  for \<open>bool\<close> are shown to satisfy it.
\<close>

subsection \<open>Bytes that stand for values\<close>

definition stands_for :: "nat \<Rightarrow> bytes \<Rightarrow> u32 list \<Rightarrow> bool" where
  "stands_for k bs us =
     (\<forall>rest n. length us \<le> n \<longrightarrow>
        decoded (bs @ rest) k n = us @ decoded rest k (n - length us) \<and>
        (data_ok rest k (n - length us) \<longrightarrow> data_ok (bs @ rest) k n))"

definition ends_with :: "nat \<Rightarrow> bytes \<Rightarrow> u32 list \<Rightarrow> bool" where
  "ends_with k bs us = (decoded bs k (length us) = us \<and> data_ok bs k (length us))"

lemma stands_for_Nil: "stands_for k [] []"
  by (simp add: stands_for_def)

lemma stands_for_append:
  assumes "stands_for k bs us" "stands_for k bs' us'"
  shows "stands_for k (bs @ bs') (us @ us')"
  using assms by (simp add: stands_for_def le_diff_conv2 add.commute)

lemma ends_with_append: "stands_for k bs us \<Longrightarrow> ends_with k bs' us' \<Longrightarrow> ends_with k (bs @ bs') (us @ us')"
  by (simp add: stands_for_def ends_with_def)

lemma ends_with_Nil: "ends_with k [] []"
  by (simp add: ends_with_def decoded_empty)

lemma stands_for_ends: "stands_for k bs us \<Longrightarrow> ends_with k bs us"
  using ends_with_append [OF _ ends_with_Nil] by fastforce

text \<open>One run.\<close>

lemma run_stands_for:
  assumes "us \<noteq> []"
    and "\<And>rest n. length us \<le> n \<Longrightarrow> run_readable (bs @ rest) k n \<and> next_run (bs @ rest) k n = (us, rest)"
  shows "stands_for k bs us"
  using assms by (auto simp: stands_for_def decoded.simps [of "bs @ _"] data_ok.simps [of "bs @ _"])

lemma run_ends_with:
  assumes "us \<noteq> []" "run_readable bs k (length us)" "next_run bs k (length us) = (us, [])"
  shows "ends_with k bs us"
  using assms by (simp add: ends_with_def decoded.simps [of bs] data_ok.simps [of bs] decoded_empty)

subsection \<open>The contract of the trait, and the loop\<close>

text \<open>Before the end of a loop body, which still has to keep the value \<open>v\<close>.\<close>

definition before_keep :: "nat \<Rightarrow> ('v \<Rightarrow> u32) \<Rightarrow> 'v list \<Rightarrow> 'v \<Rightarrow> 'v rle_encoder \<Rightarrow> bool" where
  "before_keep k code seen v st =
     (length (buffered_bits st) = MAX_VALUES_PER_LITERAL_RUN \<and>
      0 < repeats st \<and> repeats st \<le> 8 \<and> (repeats st = 8 \<longrightarrow> literal_run_idx st mod 8 = 0) \<and>
      buffer_idx st + 1 = literal_run_idx st + repeats st \<and> buffer_idx st \<le> MAX_VALUES_PER_LITERAL_RUN \<and>
      take (buffer_idx st) (buffered_bits st) =
        take (literal_run_idx st) (buffered_bits st) @ replicate (repeats st - 1) v \<and>
      (\<exists>vs. stands_for k (writer st) (map code vs) \<and>
        seen = vs @ take (literal_run_idx st) (buffered_bits st) @ replicate (repeats st) v))"

definition encoder_inv :: "nat \<Rightarrow> ('v \<Rightarrow> u32) \<Rightarrow> 'v list \<Rightarrow> 'v rle_encoder \<Rightarrow> bool" where
  "encoder_inv k code seen st =
     (length (buffered_bits st) = MAX_VALUES_PER_LITERAL_RUN \<and>
      literal_run_idx st \<le> MAX_VALUES_PER_LITERAL_RUN \<and> (8 \<le> repeats st \<longrightarrow> literal_run_idx st mod 8 = 0) \<and>
      (repeats st \<le> 8 \<longrightarrow>
        buffer_idx st = literal_run_idx st + repeats st \<and> buffer_idx st \<le> MAX_VALUES_PER_LITERAL_RUN \<and>
        take (buffer_idx st) (buffered_bits st) =
          take (literal_run_idx st) (buffered_bits st) @ replicate (repeats st) (previous_val st)) \<and>
      (\<exists>vs. stands_for k (writer st) (map code vs) \<and>
        seen = vs @ take (literal_run_idx st) (buffered_bits st) @ replicate (repeats st) (previous_val st)))"

lemma padding_mod: "(x + (8 - x mod 8) mod 8) mod 8 = (0 :: nat)"
proof (cases "x mod 8 = 0")
  case False
  define q r where "q = x div 8" and "r = x mod 8"
  have x: "x = 8 * q + r" "r < 8" "r \<noteq> 0"
    using False by (simp_all add: q_def r_def)
  then have "x + (8 - x mod 8) mod 8 = 8 * (q + 1)"
    by (simp add: r_def [symmetric])
  then show ?thesis by simp
qed simp

locale run_encoder =
  fixes literal :: "'v list \<Rightarrow> bytes res" and repeated :: "nat \<Rightarrow> 'v \<Rightarrow> bytes res"
    and good :: "'v \<Rightarrow> bool" and code :: "'v \<Rightarrow> u32" and k :: nat
  assumes literal_full: "list_all good vs \<Longrightarrow> vs \<noteq> [] \<Longrightarrow> length vs \<le> MAX_VALUES_PER_LITERAL_RUN \<Longrightarrow>
      length vs mod 8 = 0 \<Longrightarrow> \<exists>bs. literal vs = Inr bs \<and> stands_for k bs (map code vs)"
    and literal_last: "list_all good vs \<Longrightarrow> vs \<noteq> [] \<Longrightarrow> length vs \<le> MAX_VALUES_PER_LITERAL_RUN \<Longrightarrow>
      \<exists>bs. literal vs = Inr bs \<and> ends_with k bs (map code vs)"
    and repeated_run: "good v \<Longrightarrow> 0 < m \<Longrightarrow> m < 2 ^ 63 \<Longrightarrow>
      \<exists>bs. repeated m v = Inr bs \<and> stands_for k bs (replicate m (code v))"
begin

lemma keep_value_inv:
  assumes st: "before_keep k code seen v st" and g: "list_all good seen"
  shows "\<exists>st'. keep_value literal v st = Inr st' \<and> encoder_inv k code seen st'"
proof (cases "buffer_idx st = MAX_VALUES_PER_LITERAL_RUN")
  case False
  obtain vs where vs: "stands_for k (writer st) (map code vs)"
    "seen = vs @ take (literal_run_idx st) (buffered_bits st) @ replicate (repeats st) v"
    using st by (auto simp: before_keep_def)
  let ?i = "buffer_idx st"
  obtain r where r: "repeats st = Suc r" "?i = literal_run_idx st + r"
    using st by (cases "repeats st") (auto simp: before_keep_def)
  have i: "?i < length (buffered_bits st)" "?i < MAX_VALUES_PER_LITERAL_RUN"
    using st False by (simp_all add: before_keep_def)
  have "take (Suc ?i) ((buffered_bits st)[?i := v]) = take ?i (buffered_bits st) @ [v]"
    using i by (simp add: take_Suc_conv_app_nth)
  also have "\<dots> = take (literal_run_idx st) (buffered_bits st) @ replicate (repeats st) v"
    using st r by (simp add: before_keep_def replicate_append_same)
  finally show ?thesis
    using st i False vs r
    by (auto simp: keep_value_def encoder_inv_def before_keep_def take_update_cancel)
next
  case True
  obtain vs where vs: "stands_for k (writer st) (map code vs)"
    "seen = vs @ take (literal_run_idx st) (buffered_bits st) @ replicate (repeats st) v"
    using st by (auto simp: before_keep_def)
  obtain r where r: "repeats st = Suc r"
    using st by (cases "repeats st") (auto simp: before_keep_def)
  let ?buf = "buffered_bits st"
  have len: "length ?buf = MAX_VALUES_PER_LITERAL_RUN"
    using st by (simp add: before_keep_def)
  then have "take (buffer_idx st) ?buf = ?buf"
    using True by simp
  then have buf: "?buf = take (literal_run_idx st) ?buf @ replicate r v"
    "length ?buf = MAX_VALUES_PER_LITERAL_RUN"
    using st r len by (simp_all add: before_keep_def)
  have d: "seen = (vs @ ?buf) @ [v]"
    unfolding vs(2) using buf(1) by (metis append.assoc r replicate_Suc replicate_append_same)
  have "\<exists>bs. literal ?buf = Inr bs \<and> stands_for k bs (map code ?buf)"
  proof (rule literal_full)
    show "list_all good ?buf" using g d by simp
    show "?buf \<noteq> []" "length ?buf mod 8 = 0"
      using buf(2) by (auto simp: MAX_VALUES_PER_LITERAL_RUN_def)
  qed (simp add: buf(2))
  then obtain bs where bs: "literal ?buf = Inr bs" "stands_for k bs (map code ?buf)" by auto
  have "stands_for k (writer st @ bs) (map code (vs @ ?buf))"
    using stands_for_append [OF vs(1) bs(2)] by simp
  moreover have "0 < MAX_VALUES_PER_LITERAL_RUN" "1 \<le> MAX_VALUES_PER_LITERAL_RUN"
    by (simp_all add: MAX_VALUES_PER_LITERAL_RUN_def)
  ultimately show ?thesis
    using True bs(1) buf(2) d
    by (auto simp: keep_value_def write_literal_def encoder_inv_def take_Suc_conv_app_nth)
qed

lemma literal_run_inv:
  assumes inv: "encoder_inv k code seen st" "list_all good seen" "8 < repeats st"
  shows "\<exists>w vs. (if literal_run_idx st > 0 then write_literal literal (literal_run_idx st) st else Inr st) =
      Inr (st\<lparr>writer := w\<rparr>) \<and>
    stands_for k w (map code vs) \<and> seen = vs @ replicate (repeats st) (previous_val st)"
proof -
  let ?lit = "take (literal_run_idx st) (buffered_bits st)"
  obtain vs where vs: "stands_for k (writer st) (map code vs)"
    "seen = vs @ ?lit @ replicate (repeats st) (previous_val st)"
    using inv(1) by (auto simp: encoder_inv_def)
  show ?thesis
  proof (cases "literal_run_idx st = 0")
    case True
    then show ?thesis
      using vs by (intro exI [of _ "writer st"] exI [of _ vs]) simp
  next
    case False
    have l: "length ?lit = literal_run_idx st" "literal_run_idx st \<le> MAX_VALUES_PER_LITERAL_RUN"
      "literal_run_idx st mod 8 = 0" "list_all good ?lit"
      using inv vs by (auto simp: encoder_inv_def)
    then obtain bs where bs: "literal ?lit = Inr bs" "stands_for k bs (map code ?lit)"
      using literal_full [of ?lit] False by fastforce
    then show ?thesis
      using stands_for_append [OF vs(1) bs(2)] vs(2) False
      by (intro exI [of _ "writer st @ bs"] exI [of _ "vs @ ?lit"]) (simp add: write_literal_def)
  qed
qed

lemma write_run_inv:
  assumes "stands_for k (writer st) (map code vs)" "good (previous_val st)" "0 < repeats st" "repeats st < 2 ^ 63"
  shows "\<exists>w. write_run repeated st = Inr (st\<lparr>writer := w\<rparr>) \<and>
    stands_for k w (map code (vs @ replicate (repeats st) (previous_val st)))"
  using repeated_run [OF assms(2-4)] stands_for_append [OF assms(1)]
  by (fastforce simp: write_run_def)

lemma encode_val_inv:
  assumes inv: "encoder_inv k code seen st" and g: "list_all good (seen @ [v])"
    and len: "length (seen @ [v]) < 2 ^ 63"
  shows "\<exists>st'. encode_val literal repeated v st = Inr st' \<and> encoder_inv k code (seen @ [v]) st'"
proof -
  have keep: "\<exists>st'. keep_value literal v st1 = Inr st' \<and> encoder_inv k code (seen @ [v]) st'"
    if "before_keep k code (seen @ [v]) v st1" for st1
    using keep_value_inv [OF that g] .
  consider "v = previous_val st" "8 \<le> repeats st" | "v = previous_val st" "repeats st = 7"
    | "v = previous_val st" "repeats st < 7" | "v \<noteq> previous_val st" "8 < repeats st"
    | "v \<noteq> previous_val st" "repeats st \<le> 8"
    by linarith
  then show ?thesis
  proof cases
    case 1
    then show ?thesis
      using inv by (auto simp: encode_val_def encoder_inv_def replicate_append_same)
  next
    case 2
    define p where "p = (8 - literal_run_idx st mod 8) mod 8"
    let ?st = "st\<lparr>repeats := 8 - p, literal_run_idx := literal_run_idx st + p\<rparr>"
    have p: "p < 8" "(literal_run_idx st + p) mod 8 = 0"
      using padding_mod by (simp_all add: p_def)
    have idx: "buffer_idx st = literal_run_idx st + 7" "literal_run_idx st + 7 \<le> MAX_VALUES_PER_LITERAL_RUN"
      and buf: "take (buffer_idx st) (buffered_bits st) = take (literal_run_idx st) (buffered_bits st) @ replicate 7 v"
      using inv 2 by (auto simp: encoder_inv_def)
    have tk: "take (literal_run_idx st + p) (buffered_bits st) = take (literal_run_idx st) (buffered_bits st) @ replicate p v"
      using arg_cong [OF buf, of "take (literal_run_idx st + p)"] p(1) idx inv
      by (simp add: encoder_inv_def min_def)
    have "replicate (7 + 1) v = replicate 7 v @ [v]"
      by (simp only: replicate_add) simp
    then have r: "replicate 7 v = replicate p v @ replicate (7 - p) v"
      "replicate 7 v @ [v] = replicate p v @ replicate (8 - p) v"
      using p(1) by (simp_all add: replicate_add [symmetric])
    have "before_keep k code (seen @ [v]) v ?st"
      using inv 2 p idx buf r by (auto simp: encoder_inv_def before_keep_def tk)
    then show ?thesis
      using keep [of ?st] 2 by (simp add: encode_val_def Let_def p_def)
  next
    case 3
    then show ?thesis
      using inv keep [of "st\<lparr>repeats := repeats st + 1\<rparr>"]
      by (auto simp: encode_val_def Let_def encoder_inv_def before_keep_def replicate_append_same)
  next
    case 4
    have "seen \<noteq> []" "good (previous_val st)" "repeats st \<le> length seen"
      using inv 4(2) g by (auto simp: encoder_inv_def list_all_iff)
    obtain w vs where w: "(if literal_run_idx st > 0 then write_literal literal (literal_run_idx st) st else Inr st) =
        Inr (st\<lparr>writer := w\<rparr>)" "stands_for k w (map code vs)" "seen = vs @ replicate (repeats st) (previous_val st)"
      using literal_run_inv [OF inv _ 4(2)] g by auto
    let ?st = "st\<lparr>writer := w, literal_run_idx := 0\<rparr>"
    have lit: "(if literal_run_idx st > 0 then
          rbind (write_literal literal (literal_run_idx st) st) (\<lambda>st. Inr (st\<lparr>literal_run_idx := 0\<rparr>))
        else Inr st) = Inr ?st"
      using w(1) by (cases st) auto
    obtain w' where w': "write_run repeated ?st = Inr (?st\<lparr>writer := w'\<rparr>)"
      "stands_for k w' (map code seen)"
      using write_run_inv [of ?st vs] w \<open>good (previous_val st)\<close> \<open>repeats st \<le> length seen\<close> 4(2) len by auto
    have "before_keep k code (seen @ [v]) v (?st\<lparr>writer := w', repeats := 1, buffer_idx := 0\<rparr>)"
      using inv w'(2) by (auto simp: before_keep_def encoder_inv_def)
    moreover have "encode_val literal repeated v st = keep_value literal v (?st\<lparr>writer := w', repeats := 1, buffer_idx := 0\<rparr>)"
      using 4 w'(1) unfolding encode_val_def lit by simp
    ultimately show ?thesis
      using keep by simp
  next
    case 5
    then show ?thesis
      using inv keep [of "st\<lparr>literal_run_idx := buffer_idx st, repeats := 1\<rparr>"]
      by (auto simp: encode_val_def encoder_inv_def before_keep_def)
  qed
qed

lemma encode_vals_inv:
  "encoder_inv k code seen st \<Longrightarrow> list_all good (seen @ vs) \<Longrightarrow> length (seen @ vs) < 2 ^ 63 \<Longrightarrow>
   \<exists>st'. encode_vals literal repeated vs st = Inr st' \<and> encoder_inv k code (seen @ vs) st'"
proof (induction vs arbitrary: seen st)
  case (Cons v vs)
  obtain st' where "encode_val literal repeated v st = Inr st'" "encoder_inv k code (seen @ [v]) st'"
    using encode_val_inv [OF Cons.prems(1), of v] Cons.prems(2,3) by auto
  then show ?case
    using Cons.IH [of "seen @ [v]" st'] Cons.prems by auto
qed auto

lemma encode_finish_reads:
  assumes inv: "encoder_inv k code seen st" and g: "list_all good seen" and len: "length seen < 2 ^ 63"
  shows "\<exists>bs. encode_finish literal repeated st = Inr bs \<and> ends_with k bs (map code seen)"
proof (cases "8 < repeats st")
  case True
  have "good (previous_val st)" "repeats st \<le> length seen"
    using inv True g by (auto simp: encoder_inv_def list_all_iff)
  obtain w vs where w: "(if literal_run_idx st > 0 then write_literal literal (literal_run_idx st) st else Inr st) =
      Inr (st\<lparr>writer := w\<rparr>)" "stands_for k w (map code vs)" "seen = vs @ replicate (repeats st) (previous_val st)"
    using literal_run_inv [OF inv g True] by auto
  then show ?thesis
    using write_run_inv [of "st\<lparr>writer := w\<rparr>" vs] True len \<open>good (previous_val st)\<close> \<open>repeats st \<le> length seen\<close>
    by (auto simp: encode_finish_def dest!: stands_for_ends)
next
  case False
  let ?lit = "take (buffer_idx st) (buffered_bits st)"
  obtain vs where vs: "stands_for k (writer st) (map code vs)" "seen = vs @ ?lit"
    and l: "length ?lit = buffer_idx st" "buffer_idx st \<le> MAX_VALUES_PER_LITERAL_RUN"
    using inv False by (auto simp: encoder_inv_def)
  show ?thesis
  proof (cases "buffer_idx st = 0")
    case True
    then show ?thesis
      using False vs stands_for_ends by (auto simp: encode_finish_def)
  next
    case nonempty: False
    then obtain bs where "literal ?lit = Inr bs" "ends_with k bs (map code ?lit)"
      using literal_last [of ?lit] l vs(2) g by fastforce
    then show ?thesis
      using False nonempty ends_with_append [OF vs(1)] vs(2) by (simp add: encode_finish_def write_literal_def)
  qed
qed

lemma hybrid_encode_reads:
  assumes "list_all good vals" "length vals < 2 ^ 63"
  shows "\<exists>bs. hybrid_encode literal repeated dflt vals = Inr bs \<and> ends_with k bs (map code vals)"
proof -
  let ?st = "\<lparr>repeats = 0, previous_val = dflt, buffered_bits = replicate MAX_VALUES_PER_LITERAL_RUN dflt,
    buffer_idx = 0, literal_run_idx = 0, writer = []\<rparr>"
  have "encoder_inv k code [] ?st"
    by (simp add: encoder_inv_def stands_for_Nil)
  then obtain st' where "encode_vals literal repeated vals ?st = Inr st'" "encoder_inv k code vals st'"
    using encode_vals_inv [of "[]" ?st vals] assms by auto
  then show ?thesis
    using encode_finish_reads [of vals st'] assms by (simp add: hybrid_encode_def)
qed

end

subsection \<open>Literal runs\<close>

lemma ceil8_bounds: "n \<le> 8 * ceil8 n" "n mod 8 = 0 \<Longrightarrow> 8 * ceil8 n = n" "ceil8 n \<le> 4 * (n div 32 + 1)"
proof -
  define q r where "q = n div 8" and "r = n mod 8"
  have n: "n = 8 * q + r" "r < 8" "ceil8 n = q + (if r \<noteq> 0 then 1 else 0)"
    by (simp_all add: q_def r_def ceil8_def)
  show "n \<le> 8 * ceil8 n" "n mod 8 = 0 \<Longrightarrow> 8 * ceil8 n = n"
    using n by auto
  define q' r' where "q' = n div 32" and "r' = n mod 32"
  have "n = 32 * q' + r'" "r' < 32" by (simp_all add: q'_def r'_def)
  then have "8 * q + r < 32 * q' + 32"
    using n by simp
  then show "ceil8 n \<le> 4 * (n div 32 + 1)"
    using n(2,3) by (auto simp: q'_def [symmetric])
qed

lemma header_literal:
  assumes "c < 2 ^ 63"
  shows "drop_bit 1 (push_bit 1 (of_nat c) OR 1 :: u64) = of_nat c" "(push_bit 1 (of_nat c) OR 1 :: u64) AND 1 = 1"
    "drop_bit 1 (push_bit 1 (of_nat c) :: u64) = of_nat c" "(push_bit 1 (of_nat c) :: u64) AND 1 = 0"
proof -
  have b: "\<not> bit (of_nat c :: u64) n" if "63 \<le> n" for n
  proof -
    have "c < 2 ^ n"
      using assms that by (meson less_le_trans one_le_numeral power_increasing)
    then show ?thesis
      unfolding bit_of_nat_iff by (simp add: bit_iff_odd)
  qed
  show "drop_bit 1 (push_bit 1 (of_nat c) OR 1 :: u64) = of_nat c" "drop_bit 1 (push_bit 1 (of_nat c) :: u64) = of_nat c"
    by (rule bit_word_eqI; unfold bit_drop_bit_eq o_def bit_or_iff bit_push_bit_iff bit_1_iff;
      use b in \<open>auto simp: not_le [symmetric]\<close>)+
  show "(push_bit 1 (of_nat c) OR 1 :: u64) AND 1 = 1" "(push_bit 1 (of_nat c) :: u64) AND 1 = 0"
    by (rule bit_word_eqI; unfold bit_and_iff bit_or_iff bit_push_bit_iff bit_1_iff; auto)+
qed

end
