(* ===== verification/HybridRleTrip.thy ===== *)
theory HybridRleTrip
  imports HybridRleEncode
begin

section \<open>Parquet: the implementations of the run encoder, and the round trip\<close>

text \<open>
  The implementations of the trait \<open>Encoder\<close> for \<open>u32\<close> and \<open>bool\<close> satisfy the contract of
  \<open>HybridRleEncode\<close>, so that what \<open>encode\<close> writes is what the decoder returns, in portions
  of any size.
\<close>

subsection \<open>Runs as the decoder sees them\<close>

lemma literal_run:
  assumes k: "0 < k" "k \<le> 32" and us: "length us \<le> MAX_VALUES_PER_LITERAL_RUN"
    and header: "uleb_encode 10 (push_bit 1 (of_nat (ceil8 (length us))) OR 1) = Inr header"
    and body: "length body = ceil8 (length us) * k" "\<forall>i < length us. packed_value body k i = us ! i"
    and n: "length us \<le> n" "length us mod 8 = 0 \<or> n = length us"
  shows "run_readable (header @ body @ rest) k n \<and> next_run (header @ body @ rest) k n = (us, rest)"
proof -
  define c where "c = ceil8 (length us)"
  have "c \<le> 4 * (length us div 32 + 1)"
    using ceil8_bounds(3) by (simp add: c_def)
  also have "\<dots> \<le> 4 * (MAX_VALUES_PER_LITERAL_RUN div 32 + 1)"
    using us by (simp add: div_le_mono)
  also have "\<dots> = 1028"
    by (simp add: MAX_VALUES_PER_LITERAL_RUN_def)
  finally have c: "c \<le> 1028" .
  have "c * k \<le> 1028 * 32"
    using c k(2) by (rule mult_le_mono)
  then have "unat (of_nat c * of_nat k :: u64) = c * k"
    unfolding of_nat_mult [symmetric] by (simp add: unat_of_nat del: of_nat_mult)
  moreover have "drop_bit 1 (push_bit 1 (of_nat c) OR 1 :: u64) = of_nat c"
    using c by (intro header_literal) simp
  ultimately have packed: "run_packed (body @ rest) k (push_bit 1 (of_nat c) OR 1) = body"
    using body(1) unfolding run_packed_def by (simp add: c_def)
  have count: "packed_count body k n = length us"
    using n k(1) ceil8_bounds(1,2) [of "length us"] body(1) by (auto simp: packed_count_def min_def mult.commute)
  have "map (packed_value body k) [0..<length us] = us"
    using body(2) by (intro nth_equalityI) simp_all
  moreover have "length body \<le> 4 * k * (length us div 32 + 1)"
    using mult_le_mono1 [OF ceil8_bounds(3) [of "length us"], of k] body(1) by (simp add: algebra_simps)
  moreover have "header \<noteq> []" "uleb_decode (header @ body @ rest) = (push_bit 1 (of_nat c) OR 1, length header)"
    using uleb_not_empty [OF header] uleb_round_trip [OF header] by (simp_all add: c_def)
  ultimately show ?thesis
    using header_literal(2) [of c] c packed count
    by (simp add: run_readable_def next_run_def del: push_bit_of_nat)
qed

lemma repeated_run_bytes:
  assumes m: "m < 2 ^ 63" and header: "uleb_encode 10 (push_bit 1 (of_nat m)) = Inr header"
    and body: "length body = ceil8 k" "run_value body = v" and n: "m \<le> n"
  shows "run_readable (header @ body @ rest) k n \<and> next_run (header @ body @ rest) k n = (replicate m v, rest)"
proof -
  have "unat (of_nat m :: u64) = m"
    using m by (simp add: unat_of_nat)
  moreover have "header \<noteq> []" "uleb_decode (header @ body @ rest) = (push_bit 1 (of_nat m), length header)"
    using uleb_not_empty [OF header] uleb_round_trip [OF header] by simp_all
  ultimately show ?thesis
    using header_literal(3,4) [OF m] body n
    by (simp add: run_readable_def next_run_def del: push_bit_of_nat)
qed

subsection \<open>Integers\<close>

lemma encode_pack_values:
  assumes "length xs = 32" "fits k xs" "0 < k" "k \<le> 32"
  shows "\<exists>bs. encode_pack xs k (replicate 128 0) = Inr bs \<and> length bs = 128 \<and>
    (\<forall>i < 32. packed_value bs k i = xs ! i)"
proof -
  obtain bs where bs: "pack32 xs (replicate 128 0) k = Inr bs" "length bs = 128"
    "\<forall>i < 32. \<forall>b < k. bs_bit bs (i * k + b) = bit (xs ! i) b"
    using pack32_values [OF assms, of "replicate 128 0"] assms(4) by auto
  have "packed_value bs k i = xs ! i" if "i < 32" for i
    using that bs(3) fits_bit [OF assms(2), of i] assms(1)
    by (intro bit_word_eqI) (auto simp: bit_packed_value)
  then show ?thesis
    using bs assms(1) by (auto simp: encode_pack_def)
qed

lemma packed_value_prefix:
  "i < 32 \<Longrightarrow> packed_value (take (4 * k) bs @ bs') k i = packed_value bs k i" if "4 * k \<le> length bs"
proof -
  assume "i < 32"
  then have "(i + 1) * k \<le> 32 * k"
    by (intro mult_le_mono1) simp
  then show ?thesis
    using that by (simp add: packed_value_append packed_value_take)
qed

lemma pack_chunks_values:
  assumes "fits k iter" "32 * c \<le> length iter" "length buffer = 32" "fits k buffer" and k: "0 < k" "k \<le> 32"
  shows "\<exists>out buffer'. pack_chunks k c iter buffer = Inr (out, drop (32 * c) iter, buffer') \<and>
    length out = 4 * k * c \<and> length buffer' = 32 \<and> fits k buffer' \<and>
    (\<forall>i < 32 * c. packed_value out k i = iter ! i)"
  using assms(1-4)
proof (induction c arbitrary: iter buffer)
  case (Suc c)
  have b: "take 32 iter @ drop (length (take 32 iter)) buffer = take 32 iter" "length (take 32 iter) = 32"
    "fits k (take 32 iter)" "fits k (drop 32 iter)" "32 * c \<le> length (drop 32 iter)"
    using Suc.prems by (auto simp: fits_def dest: in_set_takeD in_set_dropD)
  obtain bs where bs: "encode_pack (take 32 iter) k (replicate 128 0) = Inr bs" "length bs = 128"
    "\<forall>i < 32. packed_value bs k i = iter ! i"
    using encode_pack_values [OF b(2,3) k] by auto
  obtain out buffer' where IH: "pack_chunks k c (drop 32 iter) (take 32 iter) = Inr (out, drop (32 * c) (drop 32 iter), buffer')"
    "length out = 4 * k * c" "length buffer' = 32" "fits k buffer'"
    "\<forall>i < 32 * c. packed_value out k i = drop 32 iter ! i"
    using Suc.IH [OF b(4,5,2,3)] by auto
  let ?out = "take (4 * k) bs @ out"
  have "packed_value ?out k i = iter ! i" if "i < 32 * Suc c" for i
  proof (cases "i < 32")
    case True
    then show ?thesis
      using packed_value_prefix [of k bs i out] bs k(2) by simp
  next
    case False
    have "packed_value ?out k (32 + (i - 32)) = packed_value out k (i - 32)"
      using packed_value_drop [of k ?out "i - 32"] bs(2) k(2) by simp
    then show ?thesis
      using False that IH(5) Suc.prems(2) by simp
  qed
  moreover have "pack_chunks k (Suc c) iter buffer = Inr (?out, drop (32 * Suc c) iter, buffer')"
    using b(1) bs(1) IH(1) k(2) by (simp add: Let_def add.commute)
  ultimately show ?case
    using IH(2-4) bs(2) k(2) by (auto simp: algebra_simps)
qed (auto simp: fits_def)

lemma packed_value_blocks: "packed_value (drop (4 * k * c) bs) k i = packed_value bs k (32 * c + i)"
  by (simp add: packed_value_def bs_bit_drop algebra_simps)

lemma u32_literal:
  assumes us: "fits k us" and k: "0 < k" "k \<le> 32"
  shows "\<exists>header body. uleb_encode 10 (push_bit 1 (of_nat (ceil8 (length us))) OR 1) = Inr header \<and>
    u32_bitpacked_encode k us = Inr (header @ body) \<and> length body = ceil8 (length us) * k \<and>
    (\<forall>i < length us. packed_value body k i = us ! i)"
proof -
  obtain header where header: "uleb_encode 10 (push_bit 1 (of_nat (ceil8 (length us))) OR 1) = Inr header"
    using uleb_encode_total by blast
  define c r where "c = length us div 32" and "r = length us mod 32"
  have len: "length us = 32 * c + r" "r < 32" "length us - c * 32 = r"
    by (simp_all add: c_def r_def) (metis minus_div_mult_eq_mod)
  have "32 * c + r = r + (4 * c) * 8" by simp
  then have "length us div 8 = 4 * c + r div 8" "length us mod 8 = r mod 8"
    unfolding len(1) by (simp_all only: div_mult_self1 mod_mult_self1 zero_neq_numeral not_False_eq_True)
  then have ceil: "ceil8 (length us) = 4 * c + ceil8 r" "ceil8 r \<le> 4"
    using len(2) by (auto simp: ceil8_def)
  obtain out buffer where out: "pack_chunks k c us (replicate 32 0) = Inr (out, drop (32 * c) us, buffer)"
    "length out = 4 * k * c" "length buffer = 32" "fits k buffer" "\<forall>i < 32 * c. packed_value out k i = us ! i"
    using pack_chunks_values [OF us _ _ _ k, of c "replicate 32 0"] len(1) by (auto simp: fits_def)
  let ?buffer = "take r (drop (32 * c) us) @ drop (length (take r (drop (32 * c) us))) buffer"
  have r: "length (take r (drop (32 * c) us)) = r"
    using len(1) by simp
  have "length ?buffer = 32" "fits k ?buffer"
    using r out(3,4) us len(2) by (auto simp: fits_def dest: in_set_takeD in_set_dropD)
  then obtain bs where bs: "encode_pack ?buffer k (replicate 128 0) = Inr bs" "length bs = 128"
    "\<forall>i < 32. packed_value bs k i = ?buffer ! i"
    using encode_pack_values k by blast
  let ?body = "out @ take (ceil8 r * k) bs"
  have size: "ceil8 r * k \<le> 128"
    using mult_le_mono [OF ceil(2) k(2)] by simp
  have "packed_value ?body k i = us ! i" if i: "i < length us" for i
  proof (cases "i < 32 * c")
    case True
    then have "(i + 1) * k \<le> 32 * c * k"
      by (intro mult_le_mono1) simp
    then have "(i + 1) * k \<le> 8 * length out"
      by (simp add: out(2) algebra_simps)
    then show ?thesis
      using packed_value_append out(5) True by simp
  next
    case False
    then obtain j where j: "i = 32 * c + j" "j < r"
      using i len(1) by (metis add_less_cancel_left le_Suc_ex not_less)
    then have "(j + 1) * k \<le> 8 * ceil8 r * k"
      using ceil8_bounds(1) [of r] by (intro mult_le_mono1) simp
    then have "packed_value (take (ceil8 r * k) bs) k j = packed_value bs k j"
      by (intro packed_value_take) (simp add: mult.assoc)
    then show ?thesis
      using packed_value_blocks [of k c ?body j] out(2) bs(3) j r len by (simp add: nth_append)
  qed
  moreover have "u32_bitpacked_encode k us = Inr (header @ ?body)"
    unfolding u32_bitpacked_encode_def Let_def c_def [symmetric] len(3)
    using header out(1) bs(1) size by (cases "r = 0") (simp_all add: ceil8_def [of 0])
  ultimately show ?thesis
    using header out(2) bs(2) size ceil(1) by (auto simp: algebra_simps)
qed

lemma run_value_bytes:
  assumes "take_bit k v = v" "k \<le> 32"
  shows "run_value (take (ceil8 k) (u32_to_le_bytes v)) = v"
proof (rule bit_word_eqI)
  fix n
  assume n: "n < LENGTH(32)"
  have "bit v n \<Longrightarrow> n < k"
    using assms(1) by (metis bit_take_bit_iff)
  moreover have "k \<le> 8 * ceil8 k"
    by (rule ceil8_bounds)
  ultimately show "bit (run_value (take (ceil8 k) (u32_to_le_bytes v))) n = bit v n"
    using n by (auto simp: run_value_def bit_u32_from_le_bytes bs_bit_zeroes bs_bit_take bs_bit_u32_to_le_bytes)
qed

lemma u32_run_encoder:
  assumes k: "0 < k" "k \<le> 32"
  shows "run_encoder (u32_bitpacked_encode k) (u32_run_length_encode k) (\<lambda>v. take_bit k v = v) id k"
proof
  fix vs :: "u32 list"
  assume vs: "list_all (\<lambda>v. take_bit k v = v) vs" "vs \<noteq> []" "length vs \<le> MAX_VALUES_PER_LITERAL_RUN"
  then have "fits k vs" by (simp add: fits_def list_all_iff)
  then obtain header body where e: "uleb_encode 10 (push_bit 1 (of_nat (ceil8 (length vs))) OR 1) = Inr header"
    "u32_bitpacked_encode k vs = Inr (header @ body)" "length body = ceil8 (length vs) * k"
    "\<forall>i < length vs. packed_value body k i = vs ! i"
    using u32_literal [OF _ k] by blast
  note run = literal_run [OF k vs(3) e(1,3,4)]
  show "\<exists>bs. u32_bitpacked_encode k vs = Inr bs \<and> ends_with k bs (map id vs)"
    using e(2) run_ends_with [OF vs(2)] run [of "length vs" "[]"] by simp
  assume "length vs mod 8 = 0"
  then show "\<exists>bs. u32_bitpacked_encode k vs = Inr bs \<and> stands_for k bs (map id vs)"
    using e(2) run_stands_for [OF vs(2), of "header @ body" k] run by simp
next
  fix v :: u32 and m :: nat
  assume v: "take_bit k v = v" "0 < m" "m < 2 ^ 63"
  obtain header where header: "uleb_encode 10 (push_bit 1 (of_nat m)) = Inr header"
    using uleb_encode_total by blast
  have c: "ceil8 k \<le> 4"
    using k(2) by (cases "k = 32") (auto simp: ceil8_def)
  then have "length (take (ceil8 k) (u32_to_le_bytes v)) = ceil8 k" by simp
  note run = repeated_run_bytes [OF v(3) header this run_value_bytes [OF v(1) k(2)]]
  show "\<exists>bs. u32_run_length_encode k m v = Inr bs \<and> stands_for k bs (replicate m (id v))"
    using header c run_stands_for [of "replicate m v" "header @ take (ceil8 k) (u32_to_le_bytes v)" k] run v(2)
    by (simp add: u32_run_length_encode_def del: push_bit_of_nat)
qed

interpretation u32_runs: run_encoder "u32_bitpacked_encode (Suc (j mod 32))" "u32_run_length_encode (Suc (j mod 32))"
  "\<lambda>v. take_bit (Suc (j mod 32)) v = v" id "Suc (j mod 32)"
  by (rule u32_run_encoder) (simp_all add: Suc_le_eq)

subsection \<open>Booleans\<close>

lemma bit_pack_bools:
  "bit (pack_bools i bs byte) j \<longleftrightarrow> bit byte j \<or> (j < 8 \<and> i \<le> j \<and> j - i < length bs \<and> bs ! (j - i))"
proof (induction i bs byte rule: pack_bools.induct)
  case (2 i b bs byte)
  have "bit (push_bit i 1 :: u8) j \<longleftrightarrow> j = i \<and> j < 8"
    unfolding bit_push_bit_iff bit_1_iff by auto
  then show ?case
    using 2 by (cases "j = i") (auto simp: bit_or_iff nth_Cons' Suc_le_eq simp del: push_bit_of_1)
qed simp

lemma encode_bool_bits:
  assumes "c = length iter div 8"
  shows "length (encode_bool c iter) = ceil8 (length iter) \<and>
    (\<forall>j. bs_bit (encode_bool c iter) j \<longleftrightarrow> j < length iter \<and> iter ! j)"
  using assms
proof (induction c iter rule: encode_bool.induct)
  case (1 iter)
  then have "length iter < 8" by auto
  then show ?case
    by (auto simp: ceil8_def bs_bit_def bit_pack_bools)
next
  case (2 c iter)
  define m where "m = length iter - 8"
  have len: "length iter = 8 + m"
    using 2(2) by (cases "length iter < 8") (simp_all add: m_def)
  have "c = length (drop 8 iter) div 8"
    using 2(2) by (simp add: len)
  note IH' = 2(1) [OF this]
  have IH: "length (encode_bool c (drop 8 iter)) = ceil8 m"
    "bs_bit (encode_bool c (drop 8 iter)) j \<longleftrightarrow> j < m \<and> drop 8 iter ! j" for j
    using IH' by (simp_all add: len)
  have "bs_bit (encode_bool (Suc c) iter) j \<longleftrightarrow> j < length iter \<and> iter ! j" for j
    using bs_bit_append [of "[pack_bools 0 (take 8 iter) 0]" "encode_bool c (drop 8 iter)" j] IH(2) [of "j - 8"] len
    by (cases "j < 8") (auto simp: bs_bit_def [of "[_]"] bit_pack_bools)
  then show ?case
    using IH(1) len by (auto simp: ceil8_def)
qed

lemma packed_value_1: "packed_value bs 1 i = of_bool (bs_bit bs i)"
  by (simp add: packed_value_def)

lemma run_value_byte: "run_value [b] = ucast b"
proof (rule bit_word_eqI)
  fix n
  have "run_value [b] = u32_from_le_bytes ([b] @ replicate 3 0)"
    by (simp add: run_value_def)
  then have "bit (run_value [b]) n \<longleftrightarrow> n < 32 \<and> bs_bit [b] n"
    by (simp only: bit_u32_from_le_bytes bs_bit_zeroes)
  then show "bit (run_value [b]) n = bit (ucast b :: u32) n" if "n < LENGTH(32)"
    using that by (cases "n < 8") (auto simp: bs_bit_def bit_ucast_iff dest: bit_imp_le_length)
qed

lemma bool_run_encoder: "run_encoder bool_bitpacked_encode bool_run_length_encode (\<lambda>_. True) of_bool 1"
proof
  fix vs :: "bool list"
  assume vs: "vs \<noteq> []" "length vs \<le> MAX_VALUES_PER_LITERAL_RUN"
  let ?us = "map of_bool vs :: u32 list" and ?body = "encode_bool (length vs div 8) vs"
  obtain header where header: "uleb_encode 10 (push_bit 1 (of_nat (ceil8 (length ?us))) OR 1) = Inr header"
    using uleb_encode_total by blast
  then have e: "bool_bitpacked_encode vs = Inr (header @ ?body)"
    by (simp add: bool_bitpacked_encode_def)
  have "length ?body = ceil8 (length ?us) * 1" "\<forall>i < length ?us. packed_value ?body 1 i = ?us ! i"
    using encode_bool_bits [OF refl, of vs] unfolding packed_value_1 by simp_all
  note run = literal_run [OF _ _ _ header this]
  show "\<exists>bs. bool_bitpacked_encode vs = Inr bs \<and> ends_with 1 bs ?us"
    using e run_ends_with [of ?us] run [of "length vs" "[]"] vs by simp
  assume "length vs mod 8 = 0"
  then show "\<exists>bs. bool_bitpacked_encode vs = Inr bs \<and> stands_for 1 bs ?us"
    using e run_stands_for [of ?us "header @ ?body" 1] run vs by simp
next
  fix v :: bool and m :: nat
  assume m: "0 < m" "m < 2 ^ 63"
  obtain header where header: "uleb_encode 10 (push_bit 1 (of_nat m)) = Inr header"
    using uleb_encode_total by blast
  have "length [if v then 1 else 0 :: u8] = ceil8 1" "run_value [if v then 1 else 0] = of_bool v"
    by (simp_all add: ceil8_def run_value_byte)
  note run = repeated_run_bytes [OF m(2) header this]
  show "\<exists>bs. bool_run_length_encode m v = Inr bs \<and> stands_for 1 bs (replicate m (of_bool v))"
    using header run_stands_for [of "replicate m (of_bool v)" "header @ [if v then 1 else 0]" 1] run m(1)
    by (simp add: bool_run_length_encode_def del: push_bit_of_nat)
qed

interpretation bool_runs: run_encoder bool_bitpacked_encode bool_run_length_encode "\<lambda>_. True" of_bool 1
  by (rule bool_run_encoder)

lemma ends_with_new:
  "0 < k \<Longrightarrow> k \<le> 32 \<Longrightarrow> ends_with k bs us \<Longrightarrow>
   hybrid_ok (hybrid_new bs k (length us)) \<and> hybrid_values (hybrid_new bs k (length us)) = us"
  by (simp add: ends_with_def hybrid_new_values)

subsection \<open>A surplus block\<close>

lemma packed_value_8: "i < length bs \<Longrightarrow> packed_value bs 8 i = ucast (bs ! i)"
proof (rule bit_word_eqI)
  fix n
  assume "i < length bs" "n < LENGTH(32)"
  then show "bit (packed_value bs 8 i) n = bit (ucast (bs ! i) :: u32) n"
    by (cases "n < 8") (auto simp: bit_packed_value bs_bit_def bit_ucast_iff dest: bit_imp_le_length)
qed

lemma remainder_reads_last_block:
  assumes "0 < k" "k \<le> 32" "0 < n" "n < 32" "2 \<le> b" and len: "length xs = 4 * k * b"
  shows "next_inexact \<lparr>bp_packed = xs, bp_bits = k, bp_length = n\<rparr> =
    Inr (Some (map (packed_value xs k) [32 * (b - 1)..<32 * b], n),
      \<lparr>bp_packed = take (4 * k * (b - 1)) xs, bp_bits = k, bp_length = 0\<rparr>)"
proof -
  obtain c where c: "b = Suc c" using assms(5) by (cases b) auto
  have "[32 * c..<32 * b] = map (\<lambda>i. 32 * c + i) [0..<32]"
    using map_add_upt [of "32 * c" 32] by (simp only: c add.commute) simp
  then have "map (packed_value (drop (4 * k * c) xs) k) [0..<32] = map (packed_value xs k) [32 * c..<32 * b]"
    by (simp add: packed_value_blocks comp_def)
  moreover have "decode_pack (drop (4 * k * c) xs) k = Inr (map (packed_value (drop (4 * k * c) xs) k) [0..<32])"
    using assms by (intro decode_pack_values) (simp_all add: c algebra_simps)
  moreover have "length xs - 4 * k = 4 * k * c" "length xs mod (4 * k) = 0" "xs \<noteq> []"
    using len assms(1) by (auto simp: c algebra_simps)
  ultimately show ?thesis
    using assms(3,4) c by (simp add: next_inexact_def chunked_remainder_def chunks_next_back_def Let_def)
qed

text \<open>The first step over bytes that hold one packed run.\<close>

lemma first_packed_run:
  assumes k: "0 < k" "k \<le> 32" and n: "n * k \<le> 8 * length xs"
    and xs: "length xs = 4 * k * b" "length xs < 2 ^ 63"
    and header: "uleb_encode 10 (push_bit 1 (of_nat (4 * b)) OR 1) = Inr header"
    and limit: "limit \<noteq> Some 0"
  shows "gather_limited_once (hybrid_new (header @ xs) k n) target limit =
    rbind (gather_bitpacked target \<lparr>bp_packed = xs, bp_bits = k, bp_length = n\<rparr> limit) (\<lambda>(target, p, buffered).
    rbind (consume \<lparr>h_data = [], h_bits = k, h_values = n, h_buffered = buffered\<rparr> p) (\<lambda>h. Inr (target, h)))"
proof -
  define i :: u64 where "i = push_bit 1 (of_nat (4 * b)) OR 1"
  have "4 * b \<le> length xs" using xs(1) k(1) by simp
  then have i: "drop_bit 1 i = of_nat (4 * b)" "i AND 1 = 1"
    using header_literal(1,2) [of "4 * b"] xs(2) unfolding i_def by linarith+
  have u: "uleb_decode (header @ xs) = (i, length header)" "header \<noteq> []"
    using uleb_round_trip [OF header] uleb_not_empty [OF header] unfolding i_def by blast+
  have "n \<le> length xs * 8 div k"
    using n k(1) by (simp add: less_eq_div_iff_mult_less_eq algebra_simps)
  then have d: "packed_decoder h xs = Inr \<lparr>bp_packed = xs, bp_bits = k, bp_length = n\<rparr>"
    if "h_bits h = k" "h_values h = n" for h
    using n k(1) that by (simp add: packed_decoder_def bp_try_new_def min_absorb2 algebra_simps)
  have "length xs = 4 * b * k" using xs(1) by simp
  then have "of_nat (4 * b) * of_nat k = (of_nat (length xs) :: u64)"
    by (simp only: of_nat_mult [symmetric])
  moreover have "unat (of_nat (length xs) :: u64) = length xs"
    using xs(2) by (simp add: unat_of_nat take_bit_nat_eq_self)
  ultimately have "packed_bytes h i = length xs" if "h_bits h = k" "h_data h = xs" for h
    using that by (simp only: packed_bytes_def i min.idem)
  then show ?thesis
    using limit by (simp add: gather_limited_once_def hybrid_new_def u i(2) d Let_def)
qed

subsection \<open>Properties\<close>

lemma varint_bytes: "\<exists>bs. uleb_encode 10 v = Inr bs \<and> length bs \<le> 10 \<and> uleb_decode (bs @ rest) = (v, length bs)"
  using uleb_encode_total [of v] uleb_round_trip by blast

text \<open>
  C5. Integers that fit the bit width are encoded without a fault, and a decoder over the
  bytes hands them out in order: in portions of any size, with any number of values skipped
  in between, and the rest at once in the end.
\<close>

theorem hybrid_rle_round_trip:
  assumes "0 < k" "k \<le> 32" "fits k vals" "length vals < 2 ^ 63"
  shows "\<exists>bs. encode_u32 k vals = Inr bs \<and>
    (\<forall>ops. \<exists>h. run hybrid_step ops (hybrid_new bs k (length vals)) = Inr (fst (run_spec cursor_step ops vals), h) \<and>
      hybrid_collect h = Inr (snd (run_spec cursor_step ops vals)))"
proof -
  obtain bs where bs: "encode_u32 k vals = Inr bs" "ends_with k bs vals"
    using run_encoder.hybrid_encode_reads [OF u32_run_encoder [OF assms(1,2)], of vals 0] assms(3,4)
    by (auto simp: encode_u32_def fits_def list_all_iff)
  then show ?thesis
    using cursor_run ends_with_new [OF assms(1,2) bs(2)] by metis
qed

theorem hybrid_rle_round_trip_witness:
  "\<exists>bs h. encode_u32 2 [0, 1, 2, 1] = Inr bs \<and>
     run hybrid_step [Skip 1, Collect 2] (hybrid_new bs 2 4) = Inr ([[], [1, 2]], h) \<and> hybrid_collect h = Inr [1]"
proof -
  have len: "length [0, 1, 2, 1 :: u32] = 4" by simp
  have "fits 2 [0, 1, 2, 1]" by (simp add: fits_def take_bit_eq_mod)
  then obtain bs where bs: "encode_u32 2 [0, 1, 2, 1] = Inr bs"
    "\<And>ops. \<exists>h. run hybrid_step ops (hybrid_new bs 2 4) = Inr (fst (run_spec cursor_step ops [0, 1, 2, 1]), h) \<and>
      hybrid_collect h = Inr (snd (run_spec cursor_step ops [0, 1, 2, 1]))"
    using hybrid_rle_round_trip [of 2 "[0, 1, 2, 1]"] unfolding len by auto
  then show ?thesis
    using bs(2) [of "[Skip 1, Collect 2]"] by auto
qed

text \<open>The same for booleans, which are read as integers of one bit.\<close>

theorem hybrid_rle_bool_round_trip:
  assumes "length vals < 2 ^ 63"
  shows "\<exists>bs. encode_bools vals = Inr bs \<and>
    hybrid_collect (hybrid_new bs 1 (length vals)) = Inr (map of_bool vals)"
proof -
  obtain bs where bs: "encode_bools vals = Inr bs" "ends_with 1 bs (map of_bool vals)"
    using bool_runs.hybrid_encode_reads [of vals False] assms by (auto simp: encode_bools_def list_all_iff)
  then show ?thesis
    using ends_with_new [OF _ _ bs(2)] gather_into_values [of _ "[]"] by (simp add: hybrid_collect_def)
qed

text \<open>
  C10. For all bytes whose repetitions are complete and no longer than what remains, and
  whose packed runs have no block after the last value, the decoder is a cursor over the
  values of the runs: every sequence of reads and skips gives what it gives on the list, no
  read faults, and no value is lost or handed out twice when a read ends inside a run.
\<close>

theorem hybrid_rle_cursor:
  assumes "k \<le> 32" "k = 0 \<or> data_ok data k n" and "vals = (if k = 0 then replicate n 0 else decoded data k n)"
  shows "\<exists>h. run hybrid_step ops (hybrid_new data k n) = Inr (fst (run_spec cursor_step ops vals), h) \<and>
    hybrid_collect h = Inr (snd (run_spec cursor_step ops vals))"
proof -
  have "hybrid_ok (hybrid_new data k n)" "hybrid_values (hybrid_new data k n) = vals"
    using assms by (auto simp: hybrid_new_def hybrid_ok_def hybrid_values_def buf_list_def)
  then show ?thesis
    using cursor_run by metis
qed

theorem hybrid_rle_cursor_witness:
  "\<exists>h. run hybrid_step [Collect 2, Skip 3, Collect 4] (hybrid_new [8, 5, 6, 1] 3 7) = Inr ([[5, 5], [], [1, 1]], h)"
proof -
  have u: "uleb_decode [8, 5, 6, 1] = (8, 1)" "uleb_decode [6, 1] = (6, 1)"
    by (simp_all add: uleb_decode_def)
  have r: "next_run [8, 5, 6, 1] 3 7 = (replicate 4 5, [6, 1])" "next_run [6, 1] 3 3 = (replicate 3 1, [])"
    using run_value_byte [of 5] run_value_byte [of 1] by (simp_all add: next_run_def u ceil8_def)
  have ok: "run_readable [8, 5, 6, 1] 3 7" "run_readable [6, 1] 3 3"
    by (simp_all add: run_readable_def u ceil8_def)
  have "data_ok [8, 5, 6, 1] 3 7" and d: "decoded [8, 5, 6, 1] 3 7 = [5, 5, 5, 5, 1, 1, 1]"
    using r ok by (simp_all add: data_ok.simps decoded.simps numeral_eq_Suc)
  then show ?thesis
    using hybrid_rle_cursor [of 3 "[8, 5, 6, 1]" 7 _ "[Collect 2, Skip 3, Collect 4]"] by auto
qed

text \<open>
  C36. When fewer than 32 values remain and a packed run holds two or more full blocks of 32
  values, a read of all remaining values returns those of the first block, but a read of some
  of them returns as many values of the last block.
\<close>

theorem hybrid_rle_surplus_block:
  assumes k: "0 < k" "k \<le> 32" and m: "0 < m" "m < n" "n < 32"
    and xs: "2 \<le> b" "length xs = 4 * k * b" "length xs < 2 ^ 63"
    and header: "uleb_encode 10 (push_bit 1 (of_nat (4 * b)) OR 1) = Inr header"
  shows "hybrid_collect (hybrid_new (header @ xs) k n) = Inr (map (packed_value xs k) [0..<n]) \<and>
    rbind (gather_n_into (hybrid_new (header @ xs) k n) [] m) (\<lambda>(vs, _). Inr vs) =
      Inr (map (packed_value xs k) [32 * (b - 1)..<32 * (b - 1) + m])"
proof
  let ?d = "\<lparr>bp_packed = xs, bp_bits = k, bp_length = n\<rparr>"
  let ?vs = "map (packed_value xs k) [32 * (b - 1)..<32 * b]"
  let ?g = "\<lparr>h_data = header @ xs, h_bits = k, h_values = n, h_buffered = None\<rparr>"
  note once = first_packed_run [OF k _ xs(2,3) header]
  have "n * k \<le> 32 * b * k" using m xs(1) by (intro mult_le_mono1) simp
  then have size: "n * k \<le> 8 * length xs" by (simp add: xs(2) algebra_simps)
  have "collect_into ?d [] = Inr (map (packed_value xs k) [0..<n])"
    using collect_into_values [of ?d "[]"] k size by (simp add: bp_enough_def bp_values_def)
  then have "gather_limited_once (hybrid_new (header @ xs) k n) [] None
      = Inr (map (packed_value xs k) [0..<n], \<lparr>h_data = [], h_bits = k, h_values = 0, h_buffered = None\<rparr>)"
    using once [of n None] size by (simp add: gather_bitpacked_def consume_def)
  then show "hybrid_collect (hybrid_new (header @ xs) k n) = Inr (map (packed_value xs k) [0..<n])"
    using k m
    by (simp add: hybrid_collect_def gather_into_def gather_all_loop.simps [of ?g]
        gather_all_loop.simps [of "\<lparr>h_data = [], h_bits = k, h_values = 0, h_buffered = None\<rparr>"] hybrid_new_def)
  let ?h = "\<lparr>h_data = [], h_bits = k, h_values = n - m,
    h_buffered = Some (BufBitpacked ?vs m n \<lparr>bp_packed = take (4 * k * (b - 1)) xs, bp_bits = k, bp_length = 0\<rparr>)\<rparr>"
  have "gather_bitpacked_limited [] ?d m
      = Inr (take m ?vs, BufBitpacked ?vs m n \<lparr>bp_packed = take (4 * k * (b - 1)) xs, bp_bits = k, bp_length = 0\<rparr>)"
    using m remainder_reads_last_block [OF k _ m(3) xs(1,2)] by (simp add: gather_bitpacked_limited_def)
  moreover have vs: "take m ?vs = map (packed_value xs k) [32 * (b - 1)..<32 * (b - 1) + m]"
    using m xs(1) by (simp add: take_map)
  ultimately have "gather_limited_once (hybrid_new (header @ xs) k n) [] (Some m)
      = Inr (map (packed_value xs k) [32 * (b - 1)..<32 * (b - 1) + m], ?h)"
    using once [of n "Some m"] size m by (simp add: gather_bitpacked_def consume_def)
  moreover have "gather_n_loop h t l = Inr (t, h)" if "l \<le> length t" for h t l
    using that by (subst gather_n_loop.simps) simp
  ultimately have "gather_n_into (hybrid_new (header @ xs) k n) [] m
      = Inr (map (packed_value xs k) [32 * (b - 1)..<32 * (b - 1) + m], ?h)"
    using k m
    by (simp add: gather_n_into_def gather_n_loop.simps [of ?g] hybrid_new_def)
  then show "rbind (gather_n_into (hybrid_new (header @ xs) k n) [] m) (\<lambda>(vs, _). Inr vs) =
      Inr (map (packed_value xs k) [32 * (b - 1)..<32 * (b - 1) + m])"
    by simp
qed

theorem hybrid_rle_surplus_block_witness:
  "\<exists>header. uleb_encode 10 (push_bit 1 (of_nat 8) OR 1) = Inr header \<and>
   hybrid_collect (hybrid_new (header @ replicate 32 1 @ replicate 32 2) 8 20) = Inr (replicate 20 1) \<and>
   rbind (gather_n_into (hybrid_new (header @ replicate 32 1 @ replicate 32 2) 8 20) [] 10) (\<lambda>(vs, _). Inr vs) =
     Inr (replicate 10 2)"
proof -
  let ?xs = "replicate 32 1 @ replicate 32 2 :: bytes"
  obtain header where header: "uleb_encode 10 (push_bit 1 (of_nat (4 * 2)) OR 1) = Inr header"
    using uleb_encode_total by blast
  have const: "map (packed_value ?xs 8) [a..<c] = replicate (c - a) v"
    if "\<And>i. a \<le> i \<Longrightarrow> i < c \<Longrightarrow> packed_value ?xs 8 i = v" for a c v
    using that by (intro nth_equalityI) simp_all
  have "map (packed_value ?xs 8) [0..<20] = replicate (20 - 0) 1"
    by (rule const) (simp add: packed_value_8 nth_append)
  moreover have "map (packed_value ?xs 8) [32..<42] = replicate (42 - 32) 2"
    by (rule const) (simp add: packed_value_8 nth_append)
  ultimately show ?thesis
    using header hybrid_rle_surplus_block [of 8 10 20 2 ?xs header] by auto
qed

text \<open>
  C27. Every integer is encoded in at most ten bytes, and decoding returns it and the number
  of bytes, whatever follows; so does the signed variant.
\<close>

theorem varint_round_trip:
  "(\<exists>bs. uleb_encode 10 v = Inr bs \<and> length bs \<le> 10 \<and> uleb_decode (bs @ rest) = (v, length bs)) \<and>
   (\<exists>bs. zigzag_encode v = Inr bs \<and> length bs \<le> 10 \<and> zigzag_decode (bs @ rest) = (v, length bs))"
proof
  show "\<exists>bs. zigzag_encode v = Inr bs \<and> length bs \<le> 10 \<and> zigzag_decode (bs @ rest) = (v, length bs)"
    using varint_bytes zigzag_round_trip unfolding zigzag_encode_def by blast
qed (rule varint_bytes)

end
