(* ===== verification/Spec2Isabelle.thy ===== *)
theory Spec2Isabelle
  imports RingBuffer ArenaStore Arithmetic ImmBitmap SortedJoin AsofJoin SupertypeLaws RevMap StreamReach RowOrder
    HybridRleTrip
begin

text \<open>
  \<^bold>\<open>Verification of the core of the Polars query engine.\<close>

  The sources are under \<open>src/crates\<close>; file names below are relative to it. The program is a
  columnar query engine: arrays and bitmaps (\<open>polars-arrow\<close>), kernels on them
  (\<open>polars-compute\<close>), the logical types (\<open>polars-core\<close>), operations on frames
  (\<open>polars-ops\<close>), plans in an arena (\<open>polars-utils\<close>), a streaming engine that runs them as a
  graph of nodes (\<open>polars-stream\<close>), a byte format for rows that is used to sort and group by
  several columns (\<open>polars-row\<close>), and a Parquet reader and writer (\<open>polars-parquet\<close>).

  \<^bold>\<open>Conventions.\<close> Pure functions are HOL functions, state is passed explicitly, and code that
  can fail returns \<open>'a res\<close> of \<open>Prelude\<close>: \<open>Inl Panic\<close> is a panic, \<open>Inl UB\<close> an access that
  unsafe code must not make, \<open>Inl (Err e)\<close> an error value, \<open>Inr x\<close> a result. Raw memory is a
  list of cells that may be uninitialised. Assertions that only debug builds have are not
  checked. Machine integers are words where their width matters, and integers with the
  wrap-around written out in the kernels that are generic in the width; lengths and positions
  in a vector are natural numbers. A locale states each contract between a component and its
  clients, and is interpreted on the model of the code that provides it.

  \<^bold>\<open>Prelude.\<close> Faults, memory, machine integers, and the locales \<open>refines\<close> and \<open>simulates\<close>: a
  component whose every step corresponds to a step of a specification answers every
  sequence of operations as the specification does.

  \<^bold>\<open>Containers.\<close> \<open>RingBuffer\<close> is \<open>FixedRingBuffer\<close> (\<open>polars-utils/src/fixedringbuffer.rs\<close>)
  on raw memory; it refines a bounded queue, and its destructor reads every element once.
  \<open>ArenaStore\<close> is \<open>Arena\<close> (\<open>polars-utils/src/arena.rs\<close>): through any sequence of operations the
  nodes that are not removed stay valid, and keep their value unless an operation is given
  them; mutable references do not alias, and \<open>get_node\<close> misses the first item.

  \<^bold>\<open>Bitmaps.\<close> \<open>BitUtils\<close> (\<open>polars-arrow/src/bitmap/utils\<close>, \<open>aligned.rs\<close>) counts bits through
  aligned words at every address; \<open>MutBitmap\<close> (\<open>mutable.rs\<close>) refines a vector of
  booleans, except that extending it by an empty iterator can break it; \<open>ImmBitmap\<close> (\<open>immutable.rs\<close>) keeps its cached
  count of unset bits exact. The address of the storage and the cast of bytes to words are
  parameters.

  \<^bold>\<open>Kernels.\<close> \<open>PrimArray\<close> (\<open>polars-arrow/src/array/primitive\<close>, \<open>polars-compute/src/arity.rs\<close>,
  \<open>comparisons\<close>): reusing an operand's buffer is not observable, null-aware equality compares
  optional values. \<open>Arithmetic\<close> (\<open>polars-compute/src/arithmetic\<close>): the kernels compute the
  flooring and truncating quotients and remainders for every width, and the kernels for a
  scalar operand agree with those for arrays, except where the properties say otherwise. The
  division by a prepared divisor of the package \<open>strength_reduce\<close> is a parameter, with its
  documented law as the hypothesis \<open>reduces\<close>.

  \<^bold>\<open>Joins.\<close> \<open>SortedJoin\<close> (\<open>polars-arrow/src/legacy/kernels/sorted_join\<close>) equals the nested
  loop join on sorted keys while the row numbers, words of any width, fit; a missing row is the
  reserved number of \<open>NullableIdxSize\<close> (\<open>polars-utils/src/index.rs\<close>). \<open>AsofJoin\<close> (\<open>polars-ops/src/frame/join/asof\<close>) selects the row of
  its strategy, for each of the search states through one locale.

  \<^bold>\<open>Types.\<close> \<open>DataTypes\<close> (\<open>polars-core/src/datatypes\<close>): equality, hash and schema matching.
  \<open>ArrowConv\<close>: round trips through Arrow and through the serialised form, in which the fields
  of a struct are serialised again, and the error cases. \<open>Supertype\<close> and \<open>SupertypeLaws\<close> (\<open>polars-core/src/utils/supertype.rs\<close>): the search
  terminates; supertypes of numbers are symmetric and exact except where 64-bit integers
  meet floats or mixed signs; literals fit, except for the largest ones in builds
  with 64-bit row numbers. The search runs on fuel; \<open>supertype_fuel\<close>, computed from the sizes
  of the two types, is proved to be enough, and more fuel does not change the result. \<open>RevMap\<close>
  (\<open>chunked_array/logical/categorical\<close>): the merge of two global mappings resolves every code of
  both.

  \<^bold>\<open>Streaming engine.\<close> \<open>StreamGraph\<close> (\<open>graph.rs\<close>), \<open>StreamNodes\<close> (\<open>nodes\<close>), \<open>StreamExec\<close> and
  \<open>StreamRun\<close> (\<open>execute.rs\<close>, \<open>pipe.rs\<close>) model the port states, the loop that updates them, the
  choice of a runnable subgraph and the order in which its nodes start. The loop is a partial
  function whose value \<open>None\<close> means that it does not return; \<open>StreamFixpoint\<close> shows from the
  contract \<open>compute_node\<close> that it returns and settles, \<open>StreamPhase\<close> and \<open>StreamReach\<close> that
  in every graph an execution can reach the chosen subgraph can be started, if every pipe between
  two of its nodes is ready or comes from a pipeline blocker; without that condition
  the start can panic, as a reachable graph shows. Keys are positions, the iteration
  order of hash sets is an argument, the product of a sequence number and the morsel size
  wraps on \<open>u64\<close> as in the source, and the sum of the offset and the length of a slice is a
  natural number.

  \<^bold>\<open>Row encoding.\<close> \<open>RowCells\<close>, \<open>RowEncode\<close>, \<open>RowLayout\<close> and \<open>RowOrder\<close> model \<open>polars-row\<close>: the
  cells of fixed and variable length, the flattening of nested columns, the layout of
  all rows in one uninitialised buffer, writing and decoding. The encoder stays in its buffer
  and initialises it, byte order is row order, and decoding inverts encoding; nulls of
  structs and lists are shown to be lost or ambiguous. Floats are their bit patterns; the
  surplus capacity of an allocation is a parameter.

  \<^bold>\<open>Parquet encodings.\<close> \<open>Varint\<close> (\<open>uleb128.rs\<close>, \<open>zigzag_leb128.rs\<close>), \<open>BitPack\<close> and
  \<open>BitPackLaws\<close> (\<open>bitpacked\<close>), and \<open>HybridRle\<close> with its laws (\<open>hybrid_rle\<close>), all of
  \<open>polars-parquet/src/parquet/encoding\<close>. \<open>HybridRleLaws\<close> and \<open>HybridRleCursor\<close> show that the
  decoder is a cursor over the values of its runs for any sequence of reads and
  skips, \<open>HybridRleEncode\<close> and \<open>HybridRleTrip\<close> that it returns what the encoder wrote, and what
  it returns when a packed run has more blocks than values are left. The
  loops of the decoder are total functions: every turn uses up bytes or values. Run lengths
  are below \<open>2 ^ 63\<close>, so that the header does not overflow.

  \<^bold>\<open>Not modelled.\<close> Input and output (files, cloud, CSV, JSON, IPC, the pages and the
  metadata of Parquet) and the bindings to other languages: their effects are those
  of the outside or of third-party code. Floating point kernels and SIMD variants: there is no
  model of floating point in the library theories used here, and the variants are meant to compute
  what the modelled scalar code does. Hash joins, group-by and the string cache: they are
  built on a third-party hash table and thread pool. The tasks, channels and the scheduler
  of the streaming engine: their correctness is about wakers and weak memory. Chunked arrays,
  series, frames, expressions and the optimizer: generic code over trait objects and
  macros, whose specification would be a semantics of the whole expression language. The calendar
  arithmetic of \<open>polars-time\<close> and the grammar of \<open>polars-sql\<close> are those of other packages.
  Of the Parquet encodings the delta encodings, the byte stream split, the translators of
  the hybrid decoder other than the identity and the variant of the integer decoder for
  one processor feature are left out.
\<close>

end
